(* ===== verification/Prelude.thy ===== *)
theory Prelude
  imports Main "HOL-Library.Word" "HOL-Library.Char_ord" "HOL-Library.List_Lexorder"
begin

text \<open>
  The vocabulary the components share: the exceptions of the library as values, the result
  type of fallible operations with its sequencing combinator, unsigned bytes of a
  \<^verbatim>\<open>std::string\<close>, decimal printing as \<^verbatim>\<open>std::to_string\<close> and
  \<^verbatim>\<open>operator<<\<close> do it, and the reading of a number as a list of bits, most significant
  first, on which the text encodings are specified.
\<close>

unbundle bit_operations_syntax

section \<open>Exceptions and results\<close>

text \<open>
  One constructor per exception class the sources throw. \<open>Undefined_behaviour\<close> is the
  value of a C++ expression the standard leaves undefined (\<^verbatim>\<open>front()\<close> of an empty
  view), and \<open>Out_of_fuel\<close> is the value of a recursive reader that was given too small a
  bound; that neither is returned where the sources promise a value is proved, not assumed.
\<close>

datatype error =
    Bt_deserialize_invalid
  | Bt_deserialize_invalid_type
  | Invalid_argument
  | Logic_error
  | Runtime_error
  | Out_of_range
  | Overflow_error
  | Bad_variant_access
  | Bad_function_call
  | System_error
  | Zmq_error
  | Undefined_behaviour
  | Out_of_fuel

type_synonym 'a result = "error + 'a"

text \<open>A C++ \<^verbatim>\<open>std::string\<close> or \<^verbatim>\<open>std::string_view\<close>: its bytes.\<close>

type_synonym bytes = "char list"

definition bind_result :: "'a result \<Rightarrow> ('a \<Rightarrow> 'b result) \<Rightarrow> 'b result" where
  "bind_result m f = (case m of Inl e \<Rightarrow> Inl e | Inr x \<Rightarrow> f x)"

named_theorems result_simps \<open>rewriting of sequenced results\<close>

lemma bind_result_Inl [simp, result_simps]: "bind_result (Inl e) f = Inl e"
  by (simp add: bind_result_def)

lemma bind_result_Inr [simp, result_simps]: "bind_result (Inr x) f = f x"
  by (simp add: bind_result_def)

lemma bind_result_eq_Inr [result_simps]:
  "bind_result m f = Inr y \<longleftrightarrow> (\<exists>x. m = Inr x \<and> f x = Inr y)"
  by (cases m) simp_all

lemma bind_result_eq_Inl [result_simps]:
  "bind_result m f = Inl e \<longleftrightarrow> m = Inl e \<or> (\<exists>x. m = Inr x \<and> f x = Inl e)"
  by (cases m) simp_all

lemma bind_result_assoc:
  "bind_result (bind_result m f) g = bind_result m (\<lambda>x. bind_result (f x) g)"
  by (cases m) simp_all

lemma bind_result_cong [fundef_cong]:
  "m = m' \<Longrightarrow> (\<And>x. m' = Inr x \<Longrightarrow> f x = f' x) \<Longrightarrow> bind_result m f = bind_result m' f'"
  by (cases m') simp_all

section \<open>Bytes\<close>

text \<open>The value of a byte as \<^verbatim>\<open>unsigned char\<close>, and back.\<close>

abbreviation byte_val :: "char \<Rightarrow> nat" where
  "byte_val c \<equiv> of_char c"

lemma byte_val_less [simp]: "byte_val c < 256"
proof -
  have "byte_val c = byte_val c mod 256" by simp
  also have "\<dots> < 256" by (rule mod_less_divisor) simp
  finally show ?thesis .
qed

lemma byte_val_char_of [simp]: "n < 256 \<Longrightarrow> byte_val (char_of n) = n"
  by simp

lemma byte_val_inject: "byte_val c = byte_val d \<longleftrightarrow> c = d"
  by simp

text \<open>A byte that is a decimal digit, tested the way the sources test it.\<close>

definition is_digit :: "char \<Rightarrow> bool" where
  "is_digit c \<longleftrightarrow> CHR ''0'' \<le> c \<and> c \<le> CHR ''9''"

definition digit_char :: "nat \<Rightarrow> char" where
  "digit_char d = char_of (48 + d)"

definition digit_val :: "char \<Rightarrow> nat" where
  "digit_val c = byte_val c - 48"

lemma is_digit_iff: "is_digit c \<longleftrightarrow> 48 \<le> byte_val c \<and> byte_val c \<le> 57"
  by (simp add: is_digit_def less_eq_char_def)

lemma is_digit_digit_char [simp]: "d < 10 \<Longrightarrow> is_digit (digit_char d)"
  by (simp add: is_digit_iff digit_char_def)

lemma digit_val_digit_char [simp]: "d < 10 \<Longrightarrow> digit_val (digit_char d) = d"
  by (simp add: digit_val_def digit_char_def)

lemma digit_val_less: "is_digit c \<Longrightarrow> digit_val c < 10"
  unfolding is_digit_iff digit_val_def by arith

section \<open>Decimal printing\<close>

text \<open>
  \<^verbatim>\<open>os << n\<close> and \<^verbatim>\<open>std::to_string(n)\<close> on an unsigned value, and on a signed one.
\<close>

fun show_nat :: "nat \<Rightarrow> bytes" where
  "show_nat n = (if n < 10 then [digit_char n] else show_nat (n div 10) @ [digit_char (n mod 10)])"

declare show_nat.simps [simp del]

definition show_int :: "int \<Rightarrow> bytes" where
  "show_int i = (if i < 0 then CHR ''-'' # show_nat (nat (- i)) else show_nat (nat i))"

lemma show_nat_small: "n < 10 \<Longrightarrow> show_nat n = [digit_char n]"
  by (simp add: show_nat.simps)

lemma show_nat_step: "\<not> n < 10 \<Longrightarrow> show_nat n = show_nat (n div 10) @ [digit_char (n mod 10)]"
  by (subst show_nat.simps) simp

lemma show_nat_digits: "c \<in> set (show_nat n) \<Longrightarrow> is_digit c"
proof (induction n rule: show_nat.induct)
  case (1 n)
  then show ?case
    by (cases "n < 10") (auto simp: show_nat_small show_nat_step)
qed

lemma show_nat_ne [simp]: "show_nat n \<noteq> []"
  by (subst show_nat.simps) simp

lemma is_digit_hd_show_nat [simp]: "is_digit (hd (show_nat n))"
  by (rule show_nat_digits [of _ n]) simp

section \<open>Splitting at a byte\<close>

lemma takeWhile_until: "(\<And>x. x \<in> set xs \<Longrightarrow> P x) \<Longrightarrow> \<not> P y \<Longrightarrow> takeWhile P (xs @ y # ys) = xs"
  by (induction xs) simp_all

lemma dropWhile_until: "(\<And>x. x \<in> set xs \<Longrightarrow> P x) \<Longrightarrow> \<not> P y \<Longrightarrow> dropWhile P (xs @ y # ys) = y # ys"
  by (induction xs) simp_all

section \<open>Lookup tables\<close>

text \<open>The table after a loop that stores \<open>g c\<close> at \<open>a + c\<close> for \<open>c\<close> from 0 to \<open>n - 1\<close>.\<close>

lemma foldl_update_range:
  "foldl (\<lambda>t c. t(a + c := g c)) t [0..<n] = (\<lambda>m. if a \<le> m \<and> m < a + n then g (m - a) else t m)"
  by (induction n) (auto simp: fun_eq_iff)

section \<open>64-bit integers\<close>

lemma unat_word64: "n < 2 ^ 64 \<Longrightarrow> unat (word_of_nat n :: 64 word) = n"
  by (simp add: unat_of_nat)

lemma uint_word64: "n < 2 ^ 64 \<Longrightarrow> uint (word_of_nat n :: 64 word) = int n"
  by (simp add: unat_word64 uint_nat)

section \<open>Numbers as bit lists\<close>

text \<open>
  \<open>bits_of n x\<close> is the low \<open>n\<close> bits of \<open>x\<close>, most significant first; \<open>val_of\<close>
  reads such a list as a number again.
\<close>

primrec bits_of :: "nat \<Rightarrow> nat \<Rightarrow> bool list" where
  "bits_of 0 x = []"
| "bits_of (Suc n) x = odd (x div 2 ^ n) # bits_of n x"

primrec val_of :: "bool list \<Rightarrow> nat" where
  "val_of [] = 0"
| "val_of (b # bs) = of_bool b * 2 ^ length bs + val_of bs"

named_theorems bit_list_simps \<open>arithmetic of bit lists\<close>

lemma length_bits_of [simp]: "length (bits_of n x) = n"
  by (induction n) simp_all

lemma bits_of_add: "bits_of (m + n) x = bits_of m (x div 2 ^ n) @ bits_of n x"
  by (induction m) (simp_all add: power_add mult.commute flip: div_mult2_eq)

lemma val_of_less: "val_of bs < 2 ^ length bs"
  by (induction bs) auto

lemma val_of_append [bit_list_simps]: "val_of (xs @ ys) = val_of xs * 2 ^ length ys + val_of ys"
  by (induction xs) (simp_all add: power_add algebra_simps)

lemma val_of_replicate_False [simp]: "val_of (replicate n False) = 0"
  by (induction n) simp_all

lemma val_of_bits_of [bit_list_simps]: "val_of (bits_of n x) = x mod 2 ^ n"
proof (induction n)
  case 0
  show ?case by simp
next
  case (Suc n)
  have "x mod 2 ^ Suc n = 2 ^ n * (x div 2 ^ n mod 2) + x mod 2 ^ n"
    by (metis mod_mult2_eq power_Suc2)
  then show ?case using Suc by (simp add: mod_2_eq_odd algebra_simps)
qed

lemma bits_of_add_mult: "bits_of n (a * 2 ^ n + x) = bits_of n x"
proof -
  have "bits_of m (a * 2 ^ n + x) = bits_of m x" if "m \<le> n" for m
    using that
  proof (induction m)
    case (Suc m)
    then obtain k where k: "n = Suc (m + k)"
      by (metis less_eq_Suc_le less_iff_Suc_add)
    have "(a * 2 ^ n + x) div 2 ^ m = a * 2 ^ Suc k + x div 2 ^ m"
    proof -
      have "a * 2 ^ n + x = x + (a * 2 ^ Suc k) * 2 ^ m"
        by (simp add: k power_add algebra_simps)
      then show ?thesis by (simp only: div_mult_self1 power_not_zero) simp
    qed
    then show ?case using Suc by simp
  qed simp
  then show ?thesis by simp
qed

lemma bits_of_val_of [simp]: "length bs = n \<Longrightarrow> bits_of n (val_of bs) = bs"
proof (induction bs arbitrary: n)
  case Nil
  then show ?case by simp
next
  case (Cons b bs)
  then obtain m where m: "n = Suc m" "length bs = m" by (cases n) auto
  have "val_of bs < 2 ^ m" using val_of_less [of bs] m by simp
  then have "(of_bool b * 2 ^ m + val_of bs) div 2 ^ m = of_bool b"
    by (cases b) (simp_all add: div_add_self1)
  then have "odd ((of_bool b * 2 ^ m + val_of bs) div 2 ^ m) = b"
    by simp
  with m Cons.IH [of m] show ?case
    by (cases b) (use bits_of_add_mult [of m 1 "val_of bs"] in simp_all)
qed

text \<open>The three bit operations of the encoders, on a buffer read as a bit list.\<close>

lemma push_bit_or_eq_add: "c < 2 ^ n \<Longrightarrow> push_bit n r OR c = r * 2 ^ n + (c :: nat)"
proof -
  assume c: "c < 2 ^ n"
  have "push_bit n r AND c = 0"
  proof (rule bit_eqI)
    fix m
    have "\<not> bit c m" if "n \<le> m"
      using c that by (metis bit_take_bit_iff leD take_bit_nat_eq_self)
    then show "bit (push_bit n r AND c) m = bit (0::nat) m"
      by (auto simp: bit_and_iff bit_push_bit_iff)
  qed
  then have "push_bit n r + c = push_bit n r OR c"
    by (simp add: disjunctive_add_eq_or)
  then show ?thesis by (simp add: push_bit_eq_mult)
qed

lemma push_or_val_of [bit_list_simps]:
  "c < 2 ^ n \<Longrightarrow> push_bit n (val_of rs) OR c = val_of (rs @ bits_of n c)"
  by (simp add: push_bit_or_eq_add val_of_append val_of_bits_of)

lemma drop_bit_val_of [bit_list_simps]:
  "length ys = n \<Longrightarrow> drop_bit n (val_of (xs @ ys)) = val_of xs"
  using val_of_less [of ys] by (auto simp: drop_bit_eq_div val_of_append)

lemma and_mask_eq_mod: "(x :: nat) AND mask n = x mod 2 ^ n"
  by (simp only: take_bit_eq_mask flip: take_bit_eq_mod)

text \<open>The mask of a shift, \<^verbatim>\<open>(1 << n) - 1\<close> in the sources, is \<open>mask n\<close>.\<close>

lemma mask_val_of [bit_list_simps]:
  "length ys = n \<Longrightarrow> val_of (xs @ ys) AND mask n = val_of ys"
  using val_of_less [of ys] by (auto simp only: and_mask_eq_mod val_of_append) simp

lemma push_bit_val_of [bit_list_simps]:
  "push_bit n (val_of xs) = val_of (xs @ replicate n False)"
  by (simp add: push_bit_eq_mult val_of_append)

lemma take_bit_val_of: "length xs \<le> n \<Longrightarrow> take_bit n (val_of xs) = val_of xs"
  by (meson take_bit_nat_eq_self val_of_less order_less_le_trans one_le_numeral power_increasing)

text \<open>
  \<^verbatim>\<open>uint_fast16_t\<close> has at least 16 bits; the encoders are modelled at this least width,
  and the buffers they keep in it never need more.
\<close>

abbreviation uint_fast16 :: "nat \<Rightarrow> nat" where
  "uint_fast16 x \<equiv> take_bit 16 x"

lemma split_at: "n \<le> length xs \<Longrightarrow> \<exists>ys zs. xs = ys @ zs \<and> length ys = n \<and> length zs = length xs - n"
  by (rule exI [of _ "take n xs"], rule exI [of _ "drop n xs"]) simp

end
