(* ===== verification/Bit_Codec.thy ===== *)
theory Bit_Codec
  imports Prelude
begin

text \<open>
  What hex, base32z and base64 have in common. A byte string is a bit string of eight bits
  per byte; the text has one character for every group of \<open>k\<close> bits, the last group filled
  with zeros; decoding regroups the \<open>k\<close>-bit values into bytes and ignores what does not
  fill a byte. \<open>encode_digits\<close> and \<open>decode_digits\<close> say this on bit lists; the loops of
  the three headers, which keep the bits of an unfinished group in an integer, are proved to
  compute these functions, and the locale \<open>text_codec\<close> derives the round trip and the
  length of the text once for all of them.
\<close>

section \<open>Grouping\<close>

text \<open>The complete groups of \<open>k\<close> elements, in order; a shorter rest is dropped.\<close>

function chunks :: "nat \<Rightarrow> 'a list \<Rightarrow> 'a list list" where
  "chunks k xs = (if k = 0 \<or> length xs < k then [] else take k xs # chunks k (drop k xs))"
  by pat_completeness auto
termination
  by (relation "measure (\<lambda>(k, xs). length xs)") auto

declare chunks.simps [simp del]

lemma chunks_short [simp]: "length xs < k \<Longrightarrow> chunks k xs = []"
  by (simp add: chunks.simps)

lemma chunks_append [simp]:
  "0 < k \<Longrightarrow> length xs = k \<Longrightarrow> chunks k (xs @ ys) = xs # chunks k ys"
  by (subst chunks.simps) simp

lemma chunks_Nil [simp]: "chunks k [] = []"
  by (cases "k = 0") (simp_all add: chunks.simps)

lemma chunks_exact: "0 < k \<Longrightarrow> length xs = k \<Longrightarrow> chunks k xs = [xs]"
  using chunks_append [of k xs "[]"] by simp

lemma length_chunk: "c \<in> set (chunks k xs) \<Longrightarrow> length c = k"
proof (induction k xs rule: chunks.induct)
  case (1 k xs)
  then show ?case
    by (cases "k = 0 \<or> length xs < k") (auto simp: chunks.simps [of k xs])
qed

lemma length_chunks: "0 < k \<Longrightarrow> length (chunks k xs) = length xs div k"
proof (induction k xs rule: chunks.induct)
  case (1 k xs)
  then show ?case
    by (cases "length xs < k") (auto simp: chunks.simps [of k xs] le_div_geq)
qed

lemma concat_chunks: "0 < k \<Longrightarrow> concat (chunks k xs) = take (k * (length xs div k)) xs"
proof (induction k xs rule: chunks.induct)
  case (1 k xs)
  show ?case
  proof (cases "length xs < k")
    case False
    with "1.prems" have "length xs div k = Suc (length (drop k xs) div k)"
      by (simp add: le_div_geq)
    with False 1 show ?thesis
      by (simp add: chunks.simps [of k xs] take_add)
  qed (use "1.prems" in simp)
qed

lemma chunks_concat:
  "0 < k \<Longrightarrow> (\<And>x. x \<in> set xss \<Longrightarrow> length x = k) \<Longrightarrow> length ys < k \<Longrightarrow> chunks k (concat xss @ ys) = xss"
  by (induction xss) simp_all

section \<open>Reference encoding\<close>

definition byte_bits :: "bytes \<Rightarrow> bool list" where
  "byte_bits s = concat (map (\<lambda>c. bits_of 8 (byte_val c)) s)"

definition pad_bits :: "nat \<Rightarrow> bool list \<Rightarrow> bool list" where
  "pad_bits k xs = xs @ replicate ((k - length xs mod k) mod k) False"

definition encode_digits :: "nat \<Rightarrow> bytes \<Rightarrow> nat list" where
  "encode_digits k s = map val_of (chunks k (pad_bits k (byte_bits s)))"

definition decode_digits :: "nat \<Rightarrow> nat list \<Rightarrow> bytes" where
  "decode_digits k ds = map (\<lambda>bs. char_of (val_of bs)) (chunks 8 (concat (map (bits_of k) ds)))"

lemma byte_bits_Nil [simp]: "byte_bits [] = []"
  by (simp add: byte_bits_def)

lemma byte_bits_Cons [simp]: "byte_bits (c # s) = bits_of 8 (byte_val c) @ byte_bits s"
  by (simp add: byte_bits_def)

lemma length_byte_bits [simp]: "length (byte_bits s) = 8 * length s"
  by (induction s) simp_all

lemma pad_bits_append:
  "length xs = k \<Longrightarrow> pad_bits k (xs @ ys) = xs @ pad_bits k ys"
  by (simp add: pad_bits_def)

lemma pad_bits_empty [simp]: "pad_bits k [] = []"
  by (simp add: pad_bits_def)

lemma pad_bits_short:
  "xs \<noteq> [] \<Longrightarrow> length xs < k \<Longrightarrow> pad_bits k xs = xs @ replicate (k - length xs) False"
  by (cases xs) (simp_all add: pad_bits_def)

lemma length_pad_bits: "0 < k \<Longrightarrow> length (pad_bits k xs) = k * ((length xs + (k - 1)) div k)"
proof -
  assume k: "0 < k"
  let ?n = "length xs"
  show ?thesis
  proof (cases "?n mod k = 0")
    case True
    then obtain q where q: "?n = k * q" by auto
    have "(k - 1 + q * k) div k = q" using k by (subst div_mult_self1) auto
    then have "(k * q + (k - 1)) div k = q" by (simp only: ac_simps)
    with q k show ?thesis by (simp add: pad_bits_def)
  next
    case False
    define q where "q = ?n div k"
    define m where "m = ?n mod k"
    have n: "?n = k * q + m" and m: "0 < m" "m < k"
      using False k by (simp_all add: q_def m_def)
    have "?n + (k - 1) = (m - 1) + Suc q * k" using n m by (simp add: mult.commute)
    then have "(?n + (k - 1)) div k = Suc q + (m - 1) div k"
      using k by (simp only: div_mult_self1)
    then have "(?n + (k - 1)) div k = Suc q" using m by simp
    with n m show ?thesis by (simp add: pad_bits_def m_def [symmetric])
  qed
qed

lemma decode_encode_digits:
  assumes "0 < k" "k \<le> 8"
  shows "decode_digits k (encode_digits k s) = s"
proof -
  let ?xs = "pad_bits k (byte_bits s)"
  have "map (bits_of k) (encode_digits k s) = chunks k ?xs"
    unfolding encode_digits_def by (simp add: map_idI length_chunk)
  then have "concat (map (bits_of k) (encode_digits k s)) = take (k * (length ?xs div k)) ?xs"
    using assms by (simp add: concat_chunks)
  also have "\<dots> = ?xs"
    using length_pad_bits [of k "byte_bits s"] assms by simp
  finally have "concat (map (bits_of k) (encode_digits k s)) = ?xs" .
  moreover have "(k - length (byte_bits s) mod k) mod k < 8"
    using assms by (meson mod_less_divisor order_less_le_trans)
  then have "chunks 8 ?xs = map (\<lambda>c. bits_of 8 (byte_val c)) s"
    unfolding pad_bits_def byte_bits_def by (intro chunks_concat) auto
  ultimately show ?thesis
    by (simp add: decode_digits_def val_of_bits_of comp_def map_idI)
qed

lemma length_encode_digits:
  "0 < k \<Longrightarrow> length (encode_digits k s) = (8 * length s + (k - 1)) div k"
  by (simp add: encode_digits_def length_chunks length_pad_bits)

lemma length_decode_digits: "length (decode_digits k ds) = k * length ds div 8"
  by (simp add: decode_digits_def length_chunks length_concat comp_def sum_list_triv mult.commute)

lemma encode_digits_less: "d \<in> set (encode_digits k s) \<Longrightarrow> d < 2 ^ k"
  by (auto simp: encode_digits_def dest: length_chunk) (metis val_of_less length_chunk)

section \<open>The interface of a text encoding\<close>

text \<open>
  An encoder and a decoder of \<open>k\<close>-bit characters: \<open>enc\<close> writes the characters of the
  reference digits, with fillers (the \<open>=\<close> of base64) that are not \<open>significant\<close>;
  \<open>dec\<close>, on a text that \<open>valid\<close> accepts, computes the reference decoding of the
  significant characters.
\<close>

locale text_codec =
  fixes k :: nat
    and to_lut :: "nat \<Rightarrow> char"
    and from_lut :: "char \<Rightarrow> nat"
    and significant :: "char \<Rightarrow> bool"
    and valid :: "bytes \<Rightarrow> bool"
    and enc :: "bytes \<Rightarrow> bytes"
    and dec :: "bytes \<Rightarrow> bytes result"
  assumes width_pos: "0 < k"
    and width_le: "k \<le> 8"
    and from_to_lut: "d < 2 ^ k \<Longrightarrow> from_lut (to_lut d) = d"
    and enc_digits: "filter significant (enc s) = map to_lut (encode_digits k s)"
    and enc_valid: "valid (enc s)"
    and dec_digits: "valid t \<Longrightarrow> dec t = Inr (decode_digits k (map from_lut (filter significant t)))"
begin

lemma from_lut_digits: "map from_lut (map to_lut (encode_digits k s)) = encode_digits k s"
  by (simp add: map_idI from_to_lut encode_digits_less)

lemma dec_enc: "dec (enc s) = Inr s"
  by (simp only: dec_digits [OF enc_valid] enc_digits from_lut_digits
      decode_encode_digits [OF width_pos width_le])

lemma enc_inject: "enc s = enc t \<longleftrightarrow> s = t"
  by (metis dec_enc sum.inject(2))

lemma length_significant_enc:
  "length (filter significant (enc s)) = (8 * length s + (k - 1)) div k"
  by (simp add: enc_digits length_encode_digits width_pos)

lemma length_dec:
  "valid t \<Longrightarrow> dec t = Inr s \<Longrightarrow> length s = k * length (filter significant t) div 8"
  by (auto simp: dec_digits length_decode_digits)

end

end
