(* ===== verification/Hex.thy ===== *)
theory Hex
  imports Bit_Codec
begin

text \<open>
  \<^verbatim>\<open>src/arqmamq/hex.h\<close>: the lookup tables as the constexpr constructor fills them,
  \<open>to_hex\<close>, \<open>is_hex\<close> and \<open>from_hex\<close> over a byte string (random access iterators,
  so the odd-length test comes first).
\<close>

section \<open>Lookup tables\<close>

text \<open>
  \<open>from_hex_lut\<close> starts as 256 zeros and is indexed by an \<^verbatim>\<open>unsigned char\<close>, so every
  read is in range; the first loop stores the values of the decimal digits, the second those
  of \<open>a\<close>-\<open>f\<close> and \<open>A\<close>-\<open>F\<close>. \<open>to_hex_lut\<close> has 16 entries.
\<close>

definition from_hex_lut :: "nat \<Rightarrow> nat" where
  "from_hex_lut =
     (let t0 = (\<lambda>_. 0);
          t1 = foldl (\<lambda>t c. t(48 + c := c)) t0 [0..<10]
      in foldl (\<lambda>t c. t(97 + c := 10 + c, 65 + c := 10 + c)) t1 [0..<6])"

definition to_hex_lut :: "nat \<Rightarrow> char" where
  "to_hex_lut =
     (let t0 = (\<lambda>_. char_of (0 :: nat));
          t1 = foldl (\<lambda>t c. t(c := char_of (48 + c))) t0 [0..<10]
      in foldl (\<lambda>t c. t(10 + c := char_of (97 + c))) t1 [0..<6])"

definition hex_from :: "char \<Rightarrow> nat" where
  "hex_from c = from_hex_lut (byte_val c)"

definition hex_to :: "nat \<Rightarrow> char" where
  "hex_to b = to_hex_lut b"

section \<open>Conversions\<close>

fun to_hex :: "bytes \<Rightarrow> bytes" where
  "to_hex [] = []"
| "to_hex (c # cs) =
     hex_to (drop_bit 4 (byte_val c)) # hex_to (byte_val c AND 15) # to_hex cs"

definition is_hex_digit :: "char \<Rightarrow> bool" where
  "is_hex_digit c \<longleftrightarrow> hex_from c \<noteq> 0 \<or> c = CHR ''0''"

definition is_hex :: "bytes \<Rightarrow> bool" where
  "is_hex s = (if length s mod 2 \<noteq> 0 then False else list_all is_hex_digit s)"

definition from_hex_digit :: "char \<Rightarrow> nat" where
  "from_hex_digit x = hex_from x"

definition from_hex_pair :: "char \<Rightarrow> char \<Rightarrow> char" where
  "from_hex_pair a b = char_of (push_bit 4 (from_hex_digit a) OR from_hex_digit b)"

text \<open>On an odd number of characters the loop reads past the end of its range.\<close>

fun from_hex :: "bytes \<Rightarrow> bytes result" where
  "from_hex [] = Inr []"
| "from_hex [a] = Inl Undefined_behaviour"
| "from_hex (a # b # cs) =
     bind_result (from_hex cs) (\<lambda>r. Inr (from_hex_pair a b # r))"

section \<open>The tables\<close>

lemma hex_to_alphabet: "map hex_to [0..<16] = ''0123456789abcdef''"
  by (simp add: hex_to_def to_hex_lut_def upt_rec char_of_def bit_0)

lemma hex_from_alphabet: "map hex_from ''0123456789abcdef'' = [0..<16]"
  by (simp add: hex_from_def from_hex_lut_def upt_rec)

lemma hex_from_to [simp]: "d < 16 \<Longrightarrow> hex_from (hex_to d) = d"
  using arg_cong [OF hex_to_alphabet, of "\<lambda>xs. map hex_from xs ! d"]
  by (simp add: hex_from_alphabet del: list.map)

lemma hex_from_eq:
  "hex_from c =
     (if 48 \<le> byte_val c \<and> byte_val c \<le> 57 then byte_val c - 48
      else if 97 \<le> byte_val c \<and> byte_val c \<le> 102 then byte_val c - 87
      else if 65 \<le> byte_val c \<and> byte_val c \<le> 70 then byte_val c - 55 else 0)"
  apply (simp add: hex_from_def from_hex_lut_def upt_rec)
  by arith

lemma hex_from_less: "hex_from c < 16"
  by (auto simp: hex_from_eq)

lemma is_hex_digit_iff:
  "is_hex_digit c \<longleftrightarrow>
     c \<in> {CHR ''0''..CHR ''9''} \<or> c \<in> {CHR ''a''..CHR ''f''} \<or> c \<in> {CHR ''A''..CHR ''F''}"
proof -
  have zero: "c = CHR ''0'' \<longleftrightarrow> byte_val c = 48"
    using byte_val_inject [of c "CHR ''0''"] by simp
  show ?thesis
    unfolding is_hex_digit_def hex_from_eq zero by (auto simp: less_eq_char_def)
qed

lemma is_hex_digit_to [simp]: "d < 16 \<Longrightarrow> is_hex_digit (hex_to d)"
proof (cases "d = 0")
  case True
  then show ?thesis using arg_cong [OF hex_to_alphabet, of hd]
    by (simp add: is_hex_digit_def upt_rec)
qed (simp add: is_hex_digit_def)

section \<open>Encoding\<close>

lemma nibbles_of_byte:
  assumes "b < 256"
  shows "chunks 4 (bits_of 8 b @ xs) = bits_of 4 (b div 16) # bits_of 4 b # chunks 4 xs"
proof -
  have "bits_of 8 b = bits_of 4 (b div 16) @ bits_of 4 b"
    using bits_of_add [of 4 4 b] by simp
  then show ?thesis by simp
qed

lemma to_hex_digits: "to_hex s = map hex_to (encode_digits 4 s)"
proof -
  have pad: "pad_bits 4 (byte_bits s) = byte_bits s" for s
    by (simp add: pad_bits_def)
  have and15: "byte_val c AND 15 = byte_val c mod 16" for c
    using and_mask_eq_mod [of "byte_val c" 4] by (simp add: mask_eq_exp_minus_1)
  have "to_hex s = map hex_to (map val_of (chunks 4 (byte_bits s)))"
  proof (induction s)
    case (Cons c s)
    have "byte_val c div 16 < 16" using byte_val_less [of c] by linarith
    with Cons show ?case
      by (simp add: nibbles_of_byte val_of_bits_of and15 drop_bit_eq_div)
  qed simp
  then show ?thesis by (simp add: encode_digits_def pad)
qed

lemma length_to_hex [simp]: "length (to_hex s) = 2 * length s"
  by (induction s) simp_all

lemma is_hex_to_hex [simp]: "is_hex (to_hex s)"
proof -
  have "list_all is_hex_digit (to_hex s)"
    by (simp add: to_hex_digits list_all_iff) (use encode_digits_less [of _ 4 s] in fastforce)
  then show ?thesis by (simp add: is_hex_def)
qed

section \<open>Decoding\<close>

lemma from_hex_pair_bits:
  "from_hex_pair a b = char_of (val_of (bits_of 4 (hex_from a) @ bits_of 4 (hex_from b)))"
  using hex_from_less [of a] hex_from_less [of b]
  by (simp add: from_hex_pair_def from_hex_digit_def push_bit_or_eq_add val_of_append val_of_bits_of)

lemma from_hex_digits:
  "even (length t) \<Longrightarrow> from_hex t = Inr (decode_digits 4 (map hex_from t))"
proof (induction t rule: from_hex.induct)
  case (3 a b cs)
  have "chunks 8 (bits_of 4 (hex_from a) @ bits_of 4 (hex_from b) @ xs)
      = (bits_of 4 (hex_from a) @ bits_of 4 (hex_from b)) # chunks 8 xs" for xs
    using chunks_append [of 8 "bits_of 4 (hex_from a) @ bits_of 4 (hex_from b)" xs] by simp
  with 3 show ?case by (simp add: decode_digits_def from_hex_pair_bits)
qed (simp_all add: decode_digits_def)

interpretation hex: text_codec 4 hex_to hex_from "\<lambda>_. True" is_hex to_hex from_hex
proof unfold_locales
  show "filter (\<lambda>_. True) (to_hex s) = map hex_to (encode_digits 4 s)" for s
    by (simp add: to_hex_digits)
  show "from_hex t = Inr (decode_digits 4 (map hex_from (filter (\<lambda>_. True) t)))" if "is_hex t" for t
    using that by (simp add: from_hex_digits is_hex_def even_iff_mod_2_eq_zero split: if_splits)
qed simp_all

lemmas from_hex_to_hex [simp] = hex.dec_enc

lemma length_from_hex: "is_hex t \<Longrightarrow> from_hex t = Inr s \<Longrightarrow> length s = length t div 2"
  by (drule (1) hex.length_dec) simp

text \<open>A valid text always decodes.\<close>

lemma from_hex_total: "is_hex t \<Longrightarrow> \<exists>s. from_hex t = Inr s"
  by (simp add: hex.dec_digits)

end
