(* ===== verification/Bt_Value.thy ===== *)
theory Bt_Value
  imports Prelude
begin

text \<open>
  The values of \<^verbatim>\<open>src/arqmamq/bt_value.h\<close> and their encoding by the \<open>bt_serialize\<close>
  templates of \<^verbatim>\<open>src/arqmamq/bt_serialize.h\<close>. A template that serializes a container
  of \<open>T\<close> takes the serializer of \<open>T\<close> as an argument here.
\<close>

section \<open>Values\<close>

text \<open>
  The alternatives of \<open>bt_variant\<close>. A \<open>bt_dict\<close> is a \<^verbatim>\<open>std::map\<close>: the list of its
  entries in iteration order, which for a proper map is strictly increasing in the keys
  (\<open>bt_dict_ok\<close>).
\<close>

datatype bt_value =
    BtString bytes
  | BtStringView bytes
  | BtInt64 "64 word"
  | BtUint64 "64 word"
  | BtList "bt_value list"
  | BtDict "(bytes \<times> bt_value) list"

type_synonym bt_list = "bt_value list"
type_synonym bt_dict = "(bytes \<times> bt_value) list"

definition bt_dict_ok :: "(bytes \<times> 'a) list \<Rightarrow> bool" where
  "bt_dict_ok d = sorted_wrt (<) (map fst d)"

text \<open>
  An integral C++ type, by signedness and width, with the limits
  \<^verbatim>\<open>std::numeric_limits\<close> gives for it.
\<close>

record int_type =
  it_signed :: bool
  it_bits :: nat

definition umax :: "int_type \<Rightarrow> nat" where
  "umax T = (if it_signed T then 2 ^ (it_bits T - 1) - 1 else 2 ^ it_bits T - 1)"

definition smin :: "int_type \<Rightarrow> int" where
  "smin T = (if it_signed T then - (2 ^ (it_bits T - 1)) else 0)"

definition int64 :: int_type where "int64 = \<lparr>it_signed = True, it_bits = 64\<rparr>"
definition uint64 :: int_type where "uint64 = \<lparr>it_signed = False, it_bits = 64\<rparr>"
definition int32 :: int_type where "int32 = \<lparr>it_signed = True, it_bits = 32\<rparr>"
definition uint32 :: int_type where "uint32 = \<lparr>it_signed = False, it_bits = 32\<rparr>"
definition int8 :: int_type where "int8 = \<lparr>it_signed = True, it_bits = 8\<rparr>"
definition uint8 :: int_type where "uint8 = \<lparr>it_signed = False, it_bits = 8\<rparr>"

text \<open>\<^verbatim>\<open>bool\<close> is an unsigned type whose largest value is 1.\<close>

definition bool_type :: int_type where "bool_type = \<lparr>it_signed = False, it_bits = 1\<rparr>"

lemmas int_type_defs = bool_type_def int64_def uint64_def int32_def uint32_def int8_def uint8_def

definition int_type_ok :: "int_type \<Rightarrow> bool" where
  "int_type_ok T = (1 \<le> it_bits T \<and> it_bits T \<le> 64)"

definition in_range :: "int_type \<Rightarrow> int \<Rightarrow> bool" where
  "in_range T i = (smin T \<le> i \<and> i \<le> int (umax T))"

text \<open>The integer constructors of \<open>bt_value\<close>: unsigned to \<open>uint64_t\<close>, signed to \<open>int64_t\<close>.\<close>

definition bt_value_of_int :: "int_type \<Rightarrow> int \<Rightarrow> bt_value" where
  "bt_value_of_int T i = (if it_signed T then BtInt64 (word_of_int i) else BtUint64 (word_of_int i))"

section \<open>Serialization\<close>

definition bt_serialize_int :: "int \<Rightarrow> bytes" where
  "bt_serialize_int i = ''i'' @ show_int i @ ''e''"

definition bt_serialize_string :: "bytes \<Rightarrow> bytes" where
  "bt_serialize_string s = show_nat (length s) @ '':'' @ s"

definition bt_serialize_list :: "('a \<Rightarrow> bytes) \<Rightarrow> 'a list \<Rightarrow> bytes" where
  "bt_serialize_list ser vs = ''l'' @ concat (map ser vs) @ ''e''"

definition bt_serialize_entry :: "('a \<Rightarrow> bytes) \<Rightarrow> bytes \<times> 'a \<Rightarrow> bytes" where
  "bt_serialize_entry ser kv = bt_serialize_string (fst kv) @ ser (snd kv)"

definition bt_serialize_dict :: "('a \<Rightarrow> bytes) \<Rightarrow> (bytes \<times> 'a) list \<Rightarrow> bytes" where
  "bt_serialize_dict ser d = ''d'' @ concat (map (bt_serialize_entry ser) (sort_key fst d)) @ ''e''"

text \<open>A tuple or pair, given by its elements already serialized.\<close>

definition bt_serialize_tuple :: "bytes list \<Rightarrow> bytes" where
  "bt_serialize_tuple elems = ''l'' @ concat elems @ ''e''"

lemma bt_serialize_list_cong [fundef_cong]:
  "vs = ws \<Longrightarrow> (\<And>v. v \<in> set ws \<Longrightarrow> f v = g v) \<Longrightarrow> bt_serialize_list f vs = bt_serialize_list g ws"
  by (simp add: bt_serialize_list_def cong: map_cong)

lemma bt_serialize_dict_cong [fundef_cong]:
  "d = d' \<Longrightarrow> (\<And>kv. kv \<in> set d' \<Longrightarrow> f (snd kv) = g (snd kv)) \<Longrightarrow> bt_serialize_dict f d = bt_serialize_dict g d'"
  unfolding bt_serialize_dict_def bt_serialize_entry_def by (auto intro!: arg_cong [of _ _ concat])

fun bt_serialize_value :: "bt_value \<Rightarrow> bytes" where
  "bt_serialize_value (BtString s) = bt_serialize_string s"
| "bt_serialize_value (BtStringView s) = bt_serialize_string s"
| "bt_serialize_value (BtInt64 w) = bt_serialize_int (sint w)"
| "bt_serialize_value (BtUint64 w) = bt_serialize_int (uint w)"
| "bt_serialize_value (BtList vs) = bt_serialize_list bt_serialize_value vs"
| "bt_serialize_value (BtDict d) = bt_serialize_dict bt_serialize_value d"

section \<open>Extraction of native values\<close>

text \<open>
  \<open>get_int<T>\<close>. The comparison with \<^verbatim>\<open>static_cast<int64_t>(numeric_limits<T>::max())\<close> in
  the signed branch is kept as a conversion to 64 bits.
\<close>

fun get_int :: "int_type \<Rightarrow> bt_value \<Rightarrow> int result" where
  "get_int T (BtUint64 w) =
     (if T \<noteq> uint64 \<and> umax T < unat w then Inl Overflow_error else Inr (uint w))"
| "get_int T (BtInt64 w) =
     (if T \<noteq> int64 \<and> (sint w > sint (word_of_nat (umax T) :: 64 word) \<or> sint w < smin T)
      then Inl Overflow_error else Inr (sint w))"
| "get_int T _ = Inl Bad_variant_access"

text \<open>
  The element types a tuple can have, and the native values \<open>get_tuple\<close> produces from a
  \<open>bt_list\<close>; \<open>ElOther\<close> is the last branch of \<open>get_tuple_impl_one\<close>, which copies an alternative
  of the variant (\<open>bt_list\<close> or \<open>bt_dict\<close>).
\<close>

datatype elem_type = ElInt int_type | ElString | ElTuple "elem_type list" | ElBtList | ElBtDict

datatype elem = EInt int | EString bytes | ETuple "elem list" | EBtList bt_list | EBtDict bt_dict

definition get_bt_list :: "bt_value \<Rightarrow> bt_list result" where
  "get_bt_list v = (case v of BtList vs \<Rightarrow> Inr vs | _ \<Rightarrow> Inl Bad_variant_access)"

definition holds_bt_list :: "bt_value \<Rightarrow> bool" where
  "holds_bt_list v = (case v of BtList vs \<Rightarrow> True | _ \<Rightarrow> False)"

fun get_tuple_impl_one :: "elem_type \<Rightarrow> bt_value \<Rightarrow> elem result"
  and get_tuple_elems :: "elem_type list \<Rightarrow> bt_list \<Rightarrow> elem list result"
  and get_tuple :: "elem_type list \<Rightarrow> bt_list \<Rightarrow> elem list result" where
  "get_tuple_impl_one (ElInt T) v = bind_result (get_int T v) (\<lambda>i. Inr (EInt i))"
| "get_tuple_impl_one (ElTuple Ts) v =
     (if holds_bt_list v then Inl Invalid_argument
      else bind_result (get_bt_list v) (\<lambda>vs. bind_result (get_tuple Ts vs) (\<lambda>es. Inr (ETuple es))))"
| "get_tuple_impl_one ElString v =
     (case v of BtStringView s \<Rightarrow> Inr (EString s) | BtString s \<Rightarrow> Inr (EString s) | _ \<Rightarrow> Inl Bad_variant_access)"
| "get_tuple_impl_one ElBtList v = bind_result (get_bt_list v) (\<lambda>vs. Inr (EBtList vs))"
| "get_tuple_impl_one ElBtDict v = (case v of BtDict d \<Rightarrow> Inr (EBtDict d) | _ \<Rightarrow> Inl Bad_variant_access)"
| "get_tuple_elems [] vs = Inr []"
| "get_tuple_elems (T # Ts) [] = Inl Undefined_behaviour"
| "get_tuple_elems (T # Ts) (v # vs) =
     bind_result (get_tuple_impl_one T v) (\<lambda>e. bind_result (get_tuple_elems Ts vs) (\<lambda>es. Inr (e # es)))"
| "get_tuple Ts vs = (if length vs \<noteq> length Ts then Inl Invalid_argument else get_tuple_elems Ts vs)"

section \<open>What reading an encoded value back gives\<close>

text \<open>
  The alternative a value comes back in after being written and read: a view as a string,
  a non-negative integer as \<open>uint64_t\<close>.
\<close>

fun canon :: "bt_value \<Rightarrow> bt_value" where
  "canon (BtStringView s) = BtString s"
| "canon (BtInt64 w) = (if 0 \<le> sint w then BtUint64 w else BtInt64 w)"
| "canon (BtList vs) = BtList (map canon vs)"
| "canon (BtDict d) = BtDict (map (\<lambda>kv. (fst kv, canon (snd kv))) d)"
| "canon v = v"

text \<open>
  A value the program can hold: keys of every dict strictly increasing, and string sizes
  within \<^verbatim>\<open>size_t\<close>.
\<close>

definition size_ok :: "bytes \<Rightarrow> bool" where
  "size_ok s = (length s < 2 ^ 64)"

fun bt_value_ok :: "bt_value \<Rightarrow> bool" where
  "bt_value_ok (BtString s) = size_ok s"
| "bt_value_ok (BtStringView s) = size_ok s"
| "bt_value_ok (BtList vs) = list_all bt_value_ok vs"
| "bt_value_ok (BtDict d) = (bt_dict_ok d \<and> list_all (\<lambda>kv. size_ok (fst kv) \<and> bt_value_ok (snd kv)) d)"
| "bt_value_ok _ = True"

lemma canon_canon [simp]: "canon (canon v) = canon v"
  by (induction v rule: canon.induct) auto

lemma sort_dict_ok: "bt_dict_ok d \<Longrightarrow> sort_key fst d = d"
  unfolding bt_dict_ok_def by (intro sort_key_id_if_sorted) (simp add: strict_sorted_iff)

end
