(* ===== verification/Bt_Deserialize.thy ===== *)
theory Bt_Deserialize
  imports Bt_Value
begin

text \<open>
  The readers of \<^verbatim>\<open>src/arqmamq/bt_serialize.cpp\<close> and the \<open>bt_deserialize\<close> templates of
  \<^verbatim>\<open>src/arqmamq/bt_serialize.h\<close>. A reader takes the input view and returns the value
  with the view advanced past it, or the exception; a template that reads a container of
  \<open>T\<close> takes the reader of \<open>T\<close>.
\<close>

type_synonym 'a reader = "bytes \<Rightarrow> ('a \<times> bytes) result"

section \<open>Integers and strings\<close>

fun extract_unsigned_loop :: "64 word \<Rightarrow> (64 word) reader" where
  "extract_unsigned_loop uval [] = Inr (uval, [])"
| "extract_unsigned_loop uval (c # s) =
     (if is_digit c then
        let bigger = uval * 10 + word_of_nat (digit_val c)
        in if bigger < uval then Inl Bt_deserialize_invalid
           else extract_unsigned_loop bigger s
      else Inr (uval, c # s))"

definition extract_unsigned :: "(64 word) reader" where
  "extract_unsigned s =
     (if s = [] then Inl Bt_deserialize_invalid
      else if \<not> is_digit (hd s) then Inl Bt_deserialize_invalid
      else extract_unsigned_loop 0 s)"

definition bt_deserialize_string :: "bytes reader" where
  "bt_deserialize_string s =
     (if length s < 2 then Inl Bt_deserialize_invalid
      else if \<not> is_digit (hd s) then Inl Bt_deserialize_invalid_type
      else bind_result (extract_unsigned s) (\<lambda>(len, s).
        if s = [] \<or> hd s \<noteq> CHR '':'' then Inl Bt_deserialize_invalid
        else let s = tl s
             in if length s < unat len then Inl Bt_deserialize_invalid
                else Inr (take (unat len) s, drop (unat len) s)))"

text \<open>The magnitude and whether there was a minus sign.\<close>

definition bt_deserialize_integer :: "(64 word \<times> bool) reader" where
  "bt_deserialize_integer s =
     (if length s < 3 then Inl Bt_deserialize_invalid
      else if hd s \<noteq> CHR ''i'' then Inl Bt_deserialize_invalid_type
      else
        let s = tl s;
            negative = (hd s = CHR ''-'');
            s = (if negative then tl s else s)
        in bind_result (extract_unsigned s) (\<lambda>(magnitude, s).
             if s = [] then Inl Bt_deserialize_invalid
             else if hd s \<noteq> CHR ''e'' then Inl Bt_deserialize_invalid
             else if negative \<and> magnitude > push_bit 63 1 then Inl Bt_deserialize_invalid
             else Inr ((magnitude, negative), tl s)))"

text \<open>
  \<^verbatim>\<open>-static_cast<int64_t>(magnitude)\<close>, as a two's complement machine computes it. For the
  magnitude \<open>2 ^ 63\<close> the negation overflows and gives the same bit pattern, the smallest
  \<^verbatim>\<open>int64_t\<close>.
\<close>

definition neg_int64 :: "64 word \<Rightarrow> 64 word" where
  "neg_int64 magnitude = - magnitude"

definition bt_deserialize_int :: "int_type \<Rightarrow> int reader" where
  "bt_deserialize_int T s =
     bind_result (bt_deserialize_integer s) (\<lambda>((magnitude, negative), s).
       if it_signed T then
         if \<not> negative then
           if unat magnitude > umax T then Inl Bt_deserialize_invalid
           else Inr (uint magnitude, s)
         else
           let sval = sint (neg_int64 magnitude)
           in if T \<noteq> int64 \<and> sval < smin T then Inl Bt_deserialize_invalid
              else Inr (sval, s)
       else
         if negative then Inl Bt_deserialize_invalid
         else if T \<noteq> uint64 \<and> unat magnitude > umax T then Inl Bt_deserialize_invalid
         else Inr (uint magnitude, s))"

section \<open>Containers\<close>

text \<open>
  The loops read elements until the closing \<open>e\<close>. The first argument bounds the number
  of iterations; every element takes at least one byte, so the length of the input is
  enough, as \<open>reader_list\<close> and \<open>reader_dict\<close> below show.
\<close>

fun bt_deserialize_list_loop :: "nat \<Rightarrow> 'a reader \<Rightarrow> 'a list reader" where
  "bt_deserialize_list_loop k de s =
     (if s = [] then Inl Bt_deserialize_invalid
      else if hd s = CHR ''e'' then Inr ([], tl s)
      else case k of
        0 \<Rightarrow> Inl Out_of_fuel
      | Suc k \<Rightarrow> bind_result (de s) (\<lambda>(v, s).
          bind_result (bt_deserialize_list_loop k de s) (\<lambda>(vs, s). Inr (v # vs, s))))"

definition bt_deserialize_list :: "'a reader \<Rightarrow> 'a list reader" where
  "bt_deserialize_list de s =
     (if length s < 2 then Inl Bt_deserialize_invalid
      else if hd s \<noteq> CHR ''l'' then Inl Bt_deserialize_invalid_type
      else bt_deserialize_list_loop (length s) de (tl s))"

text \<open>
  \<^verbatim>\<open>dict.insert(dict.end(), {key, val})\<close> of a \<^verbatim>\<open>std::map\<close>: the entry goes to its place in
  the order, and nothing happens when the key is there already.
\<close>

fun dict_insert :: "bytes \<Rightarrow> 'a \<Rightarrow> (bytes \<times> 'a) list \<Rightarrow> (bytes \<times> 'a) list" where
  "dict_insert k v [] = [(k, v)]"
| "dict_insert k v ((k', v') # d) =
     (if k < k' then (k, v) # (k', v') # d
      else if k = k' then (k', v') # d
      else (k', v') # dict_insert k v d)"

fun bt_deserialize_dict_loop ::
  "nat \<Rightarrow> 'a reader \<Rightarrow> (bytes \<times> 'a) list \<Rightarrow> (bytes \<times> 'a) list reader" where
  "bt_deserialize_dict_loop k de d s =
     (if s = [] then Inl Bt_deserialize_invalid
      else if hd s = CHR ''e'' then Inr (d, tl s)
      else case k of
        0 \<Rightarrow> Inl Out_of_fuel
      | Suc k \<Rightarrow> bind_result (bt_deserialize_string s) (\<lambda>(key, s).
          bind_result (de s) (\<lambda>(val, s).
            bt_deserialize_dict_loop k de (dict_insert key val d) s)))"

definition bt_deserialize_dict :: "'a reader \<Rightarrow> (bytes \<times> 'a) list reader" where
  "bt_deserialize_dict de s =
     (if length s < 2 then Inl Bt_deserialize_invalid
      else if hd s \<noteq> CHR ''d'' then Inl Bt_deserialize_invalid_type
      else bt_deserialize_dict_loop (length s) de [] (tl s))"

text \<open>A tuple: one reader per element, then the closing \<open>e\<close>.\<close>

fun bt_deserialize_tuple_elems :: "'a reader list \<Rightarrow> 'a list reader" where
  "bt_deserialize_tuple_elems [] s = Inr ([], s)"
| "bt_deserialize_tuple_elems (de # des) s =
     bind_result (de s) (\<lambda>(v, s).
       bind_result (bt_deserialize_tuple_elems des s) (\<lambda>(vs, s). Inr (v # vs, s)))"

definition bt_deserialize_tuple :: "'a reader list \<Rightarrow> 'a list reader" where
  "bt_deserialize_tuple des s =
     (if length s < 2 then Inl Bt_deserialize_invalid
      else if hd s \<noteq> CHR ''l'' then Inl Bt_deserialize_invalid_type
      else bind_result (bt_deserialize_tuple_elems des (tl s)) (\<lambda>(vs, s).
        if s = [] then Inl Bt_deserialize_invalid
        else if hd s \<noteq> CHR ''e'' then Inl Bt_deserialize_invalid
        else Inr (vs, tl s)))"

text \<open>
  \<open>bt_deserialize_try_variant\<close>: the alternatives in order, each with the class of types it
  belongs to, of which the first that matches the leading byte is read.
\<close>

datatype alternative_class = AltList | AltTuple | AltDict | AltInteger | AltString | AltUnsupported

definition alternative_matches :: "alternative_class \<Rightarrow> char \<Rightarrow> bool" where
  "alternative_matches a c =
     (case a of
        AltList \<Rightarrow> c = CHR ''l''
      | AltTuple \<Rightarrow> c = CHR ''l''
      | AltDict \<Rightarrow> c = CHR ''d''
      | AltInteger \<Rightarrow> c = CHR ''i''
      | AltString \<Rightarrow> is_digit c
      | AltUnsupported \<Rightarrow> False)"

fun bt_deserialize_try_variant :: "(alternative_class \<times> 'a reader) list \<Rightarrow> 'a reader" where
  "bt_deserialize_try_variant [] s = Inl Bt_deserialize_invalid"
| "bt_deserialize_try_variant ((a, de) # alts) s =
     (if a = AltUnsupported then bt_deserialize_try_variant alts s
      else if s = [] then Inl Undefined_behaviour
      else if alternative_matches a (hd s) then de s
      else bt_deserialize_try_variant alts s)"

section \<open>The generic value\<close>

text \<open>
  \<open>bt_deserialize<bt_value>\<close>: the first argument bounds the nesting depth; the length of the
  input plus one is enough (\<open>bt_get_total\<close>).
\<close>

primrec bt_deserialize_value :: "nat \<Rightarrow> bt_value reader" where
  "bt_deserialize_value 0 s = Inl Out_of_fuel"
| "bt_deserialize_value (Suc n) s =
     (if length s < 2 then Inl Bt_deserialize_invalid
      else if hd s = CHR ''d'' then
        bind_result (bt_deserialize_dict (bt_deserialize_value n) s) (\<lambda>(d, s). Inr (BtDict d, s))
      else if hd s = CHR ''l'' then
        bind_result (bt_deserialize_list (bt_deserialize_value n) s) (\<lambda>(vs, s). Inr (BtList vs, s))
      else if hd s = CHR ''i'' then
        bind_result (bt_deserialize_integer s) (\<lambda>((magnitude, negative), s).
          Inr (if negative then BtInt64 (neg_int64 magnitude) else BtUint64 magnitude, s))
      else if is_digit (hd s) then
        bind_result (bt_deserialize_string s) (\<lambda>(str, s). Inr (BtString str, s))
      else Inl Bt_deserialize_invalid)"

definition bt_get :: "bytes \<Rightarrow> bt_value result" where
  "bt_get s = bind_result (bt_deserialize_value (length s + 1) s) (\<lambda>(v, _). Inr v)"

end
