(* ===== verification/Auth.thy ===== *)
theory Auth
  imports Hex Bt_Deserialize
begin

text \<open>
  Authentication levels and access requirements (\<^verbatim>\<open>src/arqmamq/auth.h\<close>), their texts
  (\<^verbatim>\<open>arqmamq-internal.h\<close>), the metadata a peer is given when its connection is
  accepted and the way it is read back from every message of that peer
  (\<^verbatim>\<open>auth.cpp\<close>, \<^verbatim>\<open>arqmamq.cpp\<close>).
\<close>

section \<open>Levels\<close>

text \<open>
  \<open>AuthLevel\<close> is an enumeration over \<^verbatim>\<open>int\<close> to which the program also casts integers,
  so it has values beside its four enumerators; it is ordered by its integer.
\<close>

datatype AuthLevel = AuthLevel (auth_value: int)

definition AuthLevel_denied :: AuthLevel where "AuthLevel_denied = AuthLevel 0"
definition AuthLevel_none :: AuthLevel where "AuthLevel_none = AuthLevel 1"
definition AuthLevel_basic :: AuthLevel where "AuthLevel_basic = AuthLevel 2"
definition AuthLevel_admin :: AuthLevel where "AuthLevel_admin = AuthLevel 3"

lemmas auth_levels = AuthLevel_denied_def AuthLevel_none_def AuthLevel_basic_def AuthLevel_admin_def

instantiation AuthLevel :: linorder
begin

definition less_eq_AuthLevel :: "AuthLevel \<Rightarrow> AuthLevel \<Rightarrow> bool" where
  "less_eq_AuthLevel a b = (auth_value a \<le> auth_value b)"

definition less_AuthLevel :: "AuthLevel \<Rightarrow> AuthLevel \<Rightarrow> bool" where
  "less_AuthLevel a b = (auth_value a < auth_value b)"

instance
  by intro_classes (auto simp: less_eq_AuthLevel_def less_AuthLevel_def AuthLevel.expand)

end

lemmas auth_order = less_eq_AuthLevel_def less_AuthLevel_def

text \<open>What a category requires of a caller, and what a caller has.\<close>

record Access =
  acc_auth :: AuthLevel
  acc_remote_sn :: bool
  acc_local_sn :: bool

definition default_Access :: Access where
  "default_Access = \<lparr>acc_auth = AuthLevel_none, acc_remote_sn = False, acc_local_sn = False\<rparr>"

definition auth_to_string :: "AuthLevel \<Rightarrow> bytes" where
  "auth_to_string a =
     (if a = AuthLevel_denied then ''denied''
      else if a = AuthLevel_none then ''none''
      else if a = AuthLevel_basic then ''basic''
      else if a = AuthLevel_admin then ''admin''
      else ''(unknown)'')"

definition auth_from_string :: "bytes \<Rightarrow> AuthLevel" where
  "auth_from_string a =
     (if a = ''none'' then AuthLevel_none
      else if a = ''basic'' then AuthLevel_basic
      else if a = ''admin'' then AuthLevel_admin
      else AuthLevel_denied)"

text \<open>The levels an accepted connection can have survive the trip through their text.\<close>

lemma auth_level_cases:
  assumes "\<not> a \<le> AuthLevel_denied" "\<not> AuthLevel_admin < a"
  obtains "a = AuthLevel_none" | "a = AuthLevel_basic" | "a = AuthLevel_admin"
proof -
  have "auth_value a = 1 \<or> auth_value a = 2 \<or> auth_value a = 3"
    using assms by (auto simp: auth_order auth_levels)
  then show thesis using that by (cases a) (auto simp: auth_levels)
qed

lemma auth_from_to_string:
  assumes "\<not> a \<le> AuthLevel_denied" "\<not> AuthLevel_admin < a"
  shows "auth_from_string (auth_to_string a) = a"
  by (rule auth_level_cases [OF assms])
    (simp_all add: auth_from_string_def auth_to_string_def auth_levels)

section \<open>Connection metadata\<close>

text \<open>
  A metadata property as the ZMTP handshake carries it: the size of the key in one byte, the
  key, the size of the value in four bytes, most significant first, the value. The sizes are
  \<^verbatim>\<open>size_t\<close> and are cut to the bytes written.
\<close>

definition zmtp_metadata :: "bytes \<Rightarrow> bytes \<Rightarrow> bytes" where
  "zmtp_metadata key val =
     [char_of (length key)] @ key
     @ map (\<lambda>i. char_of (drop_bit i (length val) AND 255)) [24, 16, 8, 0] @ val"

text \<open>
  A received frame: its bytes, and the properties \<^verbatim>\<open>gets\<close> looks up, which zmq
  attaches to every message of a connection; a property that is not there throws.
\<close>

record message_t =
  m_data :: bytes
  m_gets :: "bytes \<Rightarrow> bytes option"

text \<open>
  \<open>extract_metadata\<close>. An exception leaves what has been assigned: when \<open>User-Id\<close> is
  missing or has another size, the key is empty; when \<open>X-AuthLevel\<close> is missing, the level
  is \<open>none\<close>.
\<close>

definition extract_metadata :: "message_t \<Rightarrow> bytes \<times> AuthLevel" where
  "extract_metadata msg =
     ((case m_gets msg ''User-Id'' of
         None \<Rightarrow> []
       | Some pubkey_hex \<Rightarrow>
           if length pubkey_hex \<noteq> 64 then []
           else case from_hex pubkey_hex of Inl _ \<Rightarrow> replicate 32 (char_of (0 :: nat)) | Inr pk \<Rightarrow> pk),
      (case m_gets msg ''X-AuthLevel'' of
         None \<Rightarrow> AuthLevel_none
       | Some a \<Rightarrow> auth_from_string a))"

definition peer_address :: "message_t \<Rightarrow> bytes" where
  "peer_address msg = (case m_gets msg ''Peer-Address'' of None \<Rightarrow> ''(unknown)'' | Some a \<Rightarrow> a)"

section \<open>Hashing of keys\<close>

text \<open>
  \<open>already_hashed\<close>: the first eight bytes of a key, read as a little-endian \<^verbatim>\<open>size_t\<close>;
  a shorter string goes through \<^verbatim>\<open>std::hash\<close>, an argument here.
\<close>

definition le_word :: "bytes \<Rightarrow> 64 word" where
  "le_word bs = word_of_nat (foldr (\<lambda>c n. byte_val c + 256 * n) bs 0)"

definition already_hashed :: "(bytes \<Rightarrow> 64 word) \<Rightarrow> bytes \<Rightarrow> 64 word" where
  "already_hashed std_hash s = (if length s < 8 then std_hash s else le_word (take 8 s))"

end
