(* ===== verification/Connection_Id.thy ===== *)
theory Connection_Id
  imports Auth
begin

text \<open>
  \<open>ConnectionID\<close> of \<^verbatim>\<open>src/arqmamq/connections.h\<close>: its constructors, its comparisons
  and its hash, and the way it is printed (\<^verbatim>\<open>connections.cpp\<close>).
\<close>

section \<open>Identifiers\<close>

record ConnectionID =
  cid_id :: int
  cid_pk :: bytes
  cid_route :: bytes

definition SN_ID :: int where "SN_ID = -1"

definition conn_of_id :: "int \<Rightarrow> ConnectionID" where
  "conn_of_id i = \<lparr>cid_id = i, cid_pk = [], cid_route = []\<rparr>"

definition conn_of_pubkey :: "bytes \<Rightarrow> ConnectionID result" where
  "conn_of_pubkey pubkey =
     (if length pubkey \<noteq> 32 then Inl Runtime_error
      else Inr \<lparr>cid_id = SN_ID, cid_pk = pubkey, cid_route = []\<rparr>)"

definition cid_bool :: "ConnectionID \<Rightarrow> bool" where
  "cid_bool c \<longleftrightarrow> cid_id c \<noteq> 0"

definition cid_sn :: "ConnectionID \<Rightarrow> bool" where
  "cid_sn c \<longleftrightarrow> cid_id c = SN_ID"

definition cid_eq :: "ConnectionID \<Rightarrow> ConnectionID \<Rightarrow> bool" where
  "cid_eq a b =
     (if cid_sn a \<and> cid_sn b then cid_pk a = cid_pk b
      else cid_id a = cid_id b \<and> cid_route a = cid_route b)"

definition cid_less :: "ConnectionID \<Rightarrow> ConnectionID \<Rightarrow> bool" where
  "cid_less a b =
     (if cid_sn a \<and> cid_sn b then cid_pk a < cid_pk b
      else cid_id a < cid_id b \<or> (cid_id a = cid_id b \<and> cid_route a < cid_route b))"

definition unrouted :: "ConnectionID \<Rightarrow> ConnectionID" where
  "unrouted c = \<lparr>cid_id = cid_id c, cid_pk = cid_pk c, cid_route = []\<rparr>"

text \<open>The hash, over the standard hashes of a string and of a \<^verbatim>\<open>long long\<close>.\<close>

definition cid_hash :: "(bytes \<Rightarrow> 64 word) \<Rightarrow> (int \<Rightarrow> 64 word) \<Rightarrow> ConnectionID \<Rightarrow> 64 word" where
  "cid_hash hash_string hash_ll c =
     (if cid_sn c then already_hashed hash_string (cid_pk c)
      else hash_ll (cid_id c) + hash_string (cid_route c))"

definition show_conn :: "ConnectionID \<Rightarrow> bytes" where
  "show_conn c =
     (if cid_pk c \<noteq> [] then
        (if cid_sn c then ''SN '' else ''non-SN authenticated remote '') @ to_hex (cid_pk c)
      else ''unauthenticated remote ['' @ show_int (cid_id c) @ '']'')"

section \<open>One key orders, identifies and hashes\<close>

text \<open>
  The part of an identifier the comparisons look at: the identifier number, then the public
  key of a service node or the route of any other connection.
\<close>

definition cid_key :: "ConnectionID \<Rightarrow> int \<times> bytes" where
  "cid_key c = (cid_id c, if cid_sn c then cid_pk c else cid_route c)"

lemma cid_eq_iff: "cid_eq a b \<longleftrightarrow> cid_key a = cid_key b"
  by (auto simp: cid_eq_def cid_key_def cid_sn_def)

lemma cid_less_iff:
  "cid_less a b \<longleftrightarrow> fst (cid_key a) < fst (cid_key b)
     \<or> fst (cid_key a) = fst (cid_key b) \<and> snd (cid_key a) < snd (cid_key b)"
  by (auto simp: cid_less_def cid_key_def cid_sn_def)

lemma cid_eq_refl [simp]: "cid_eq a a"
  by (simp add: cid_eq_iff)

lemma cid_eq_sym: "cid_eq a b \<Longrightarrow> cid_eq b a"
  by (simp add: cid_eq_iff)

lemma cid_eq_trans: "cid_eq a b \<Longrightarrow> cid_eq b c \<Longrightarrow> cid_eq a c"
  by (simp add: cid_eq_iff)

lemma cid_eq_commute: "cid_eq a b \<longleftrightarrow> cid_eq b a"
  by (auto simp: cid_eq_iff)

lemma cid_less_trans: "cid_less a b \<Longrightarrow> cid_less b c \<Longrightarrow> cid_less a c"
  by (auto simp: cid_less_iff)

lemma cid_trichotomy:
  "cid_less b a \<longleftrightarrow> \<not> cid_less a b \<and> \<not> cid_eq a b"
proof -
  obtain i s j t where "cid_key a = (i, s)" "cid_key b = (j, t)" by (meson surj_pair)
  then show ?thesis
    using linorder_less_linear [of i j] linorder_less_linear [of s t] less_not_sym [of s t]
    by (auto simp add: cid_less_iff cid_eq_iff)
qed

lemma cid_hash_eq: "cid_eq a b \<Longrightarrow> cid_hash hs hl a = cid_hash hs hl b"
  by (auto simp: cid_eq_iff cid_key_def cid_hash_def cid_sn_def)

text \<open>
  C38: Connection identifiers can be keys of ordered and of hashed containers: \<open>operator==\<close>
  and \<open>operator<\<close> give exactly one of less, equal and greater for any two, \<open>operator<\<close> is
  transitive, and equal identifiers have equal hashes, whatever the standard hashes are.
\<close>

theorem conn_id_comparisons:
  "(cid_less b a \<longleftrightarrow> \<not> cid_less a b \<and> \<not> cid_eq a b)
   \<and> (cid_eq a b \<longrightarrow> \<not> cid_less a b)
   \<and> (cid_less a b \<and> cid_less b c \<longrightarrow> cid_less a c)
   \<and> (cid_eq a b \<longrightarrow> cid_hash hs hl a = cid_hash hs hl b)"
proof (intro conjI impI)
  show "cid_less b a \<longleftrightarrow> \<not> cid_less a b \<and> \<not> cid_eq a b" by (rule cid_trichotomy)
  show "\<not> cid_less a b" if "cid_eq a b"
    using that by (simp add: cid_less_iff cid_eq_iff)
  show "cid_less a c" if "cid_less a b \<and> cid_less b c"
    using that cid_less_trans by blast
  show "cid_hash hs hl a = cid_hash hs hl b" if "cid_eq a b"
    using that by (rule cid_hash_eq)
qed

theorem conn_id_comparisons_witness:
  "cid_less (conn_of_id 1) (conn_of_id 2) \<and> cid_less (conn_of_id 2) (conn_of_id 3)
   \<and> cid_less (conn_of_id 1) (conn_of_id 3)"
proof -
  have "cid_less (conn_of_id 1) (conn_of_id 2)" "cid_less (conn_of_id 2) (conn_of_id 3)"
    by (simp_all add: cid_less_def cid_sn_def SN_ID_def conn_of_id_def)
  then show ?thesis
    using conn_id_comparisons [of "conn_of_id 2" "conn_of_id 1" "conn_of_id 3"] by blast
qed

end
