(* ===== verification/Command_Table.thy ===== *)
theory Command_Table
  imports Connection_Id "HOL-Library.AList"
begin

text \<open>
  The command categories, commands and aliases an \<open>ArqmaMQ\<close> object is configured with, and
  the lookup of an incoming command (\<open>add_category\<close>, \<open>add_command\<close>,
  \<open>add_request_command\<close>, \<open>add_command_alias\<close> and \<open>get_command\<close> of
  \<^verbatim>\<open>src/arqmamq/arqmamq.cpp\<close>, \<open>category\<close> and \<open>CatHelper\<close> of
  \<^verbatim>\<open>arqmamq.h\<close>).
\<close>

section \<open>State\<close>

text \<open>
  A user callback is known by a number. An unordered map is the list of its entries; a
  pointer to a category is the name it is stored under. The registry is the part of the
  \<open>ArqmaMQ\<close> object these operations use, to be extended by the later components;
  \<open>proxy_joinable\<close> is \<^verbatim>\<open>proxy_thread.joinable()\<close>.
\<close>

type_synonym callback = nat

record category =
  cat_access :: Access
  cat_commands :: "(bytes \<times> callback \<times> bool) list"
  reserved_threads :: nat
  active_threads :: nat
  max_queue :: int
  queued :: int

record registry =
  proxy_joinable :: bool
  categories :: "(bytes \<times> category) list"
  command_aliases :: "(bytes \<times> bytes) list"

definition MAX_CATEGORY_LENGTH :: nat where "MAX_CATEGORY_LENGTH = 50"
definition MAX_COMMAND_LENGTH :: nat where "MAX_COMMAND_LENGTH = 200"

definition new_category :: "Access \<Rightarrow> nat \<Rightarrow> int \<Rightarrow> category" where
  "new_category access reserved mq =
     \<lparr>cat_access = access, cat_commands = [], reserved_threads = reserved, active_threads = 0,
      max_queue = mq, queued = 0\<rparr>"

section \<open>Operations\<close>

definition check_not_started :: "'a registry_scheme \<Rightarrow> unit result" where
  "check_not_started r = (if proxy_joinable r then Inl Logic_error else Inr ())"

text \<open>\<^verbatim>\<open>std::string::find\<close> of a character; \<open>None\<close> is \<^verbatim>\<open>npos\<close>.\<close>

definition find_char :: "char \<Rightarrow> bytes \<Rightarrow> nat option" where
  "find_char c s = (if c \<in> set s then Some (length (takeWhile (\<lambda>x. x \<noteq> c) s)) else None)"

definition add_category ::
  "bytes \<Rightarrow> Access \<Rightarrow> nat \<Rightarrow> int \<Rightarrow> 'a registry_scheme \<Rightarrow> 'a registry_scheme result" where
  "add_category name access_level reserved mq r =
     bind_result (check_not_started r) (\<lambda>_.
       if MAX_CATEGORY_LENGTH < length name then Inl Runtime_error
       else if name = [] \<or> find_char CHR ''.'' name \<noteq> None then Inl Runtime_error
       else if map_of (categories r) name \<noteq> None then Inl Runtime_error
       else Inr (r\<lparr>categories := categories r @ [(name, new_category access_level reserved mq)]\<rparr>))"

definition full_name :: "bytes \<Rightarrow> bytes \<Rightarrow> bytes" where
  "full_name cat name = cat @ CHR ''.'' # name"

definition add_command :: "bytes \<Rightarrow> bytes \<Rightarrow> callback \<Rightarrow> 'a registry_scheme \<Rightarrow> 'a registry_scheme result" where
  "add_command cat name cb r =
     bind_result (check_not_started r) (\<lambda>_.
       if MAX_COMMAND_LENGTH < length name then Inl Runtime_error
       else case map_of (categories r) cat of
         None \<Rightarrow> Inl Runtime_error
       | Some c \<Rightarrow>
           if map_of (command_aliases r) (full_name cat name) \<noteq> None then Inl Runtime_error
           else if map_of (cat_commands c) name \<noteq> None then Inl Runtime_error
           else Inr (r\<lparr>categories := AList.update cat
                        (c\<lparr>cat_commands := cat_commands c @ [(name, cb, False)]\<rparr>) (categories r)\<rparr>))"

text \<open>\<^verbatim>\<open>categories.at(category).commands.at(name).second = true\<close>.\<close>

definition mark_request :: "bytes \<Rightarrow> bytes \<Rightarrow> 'a registry_scheme \<Rightarrow> 'a registry_scheme result" where
  "mark_request cat name r =
     (case map_of (categories r) cat of
        None \<Rightarrow> Inl Out_of_range
      | Some c \<Rightarrow>
          (case map_of (cat_commands c) name of
             None \<Rightarrow> Inl Out_of_range
           | Some (cb, _) \<Rightarrow> Inr (r\<lparr>categories := AList.update cat
               (c\<lparr>cat_commands := AList.update name (cb, True) (cat_commands c)\<rparr>) (categories r)\<rparr>)))"

definition add_request_command ::
  "bytes \<Rightarrow> bytes \<Rightarrow> callback \<Rightarrow> 'a registry_scheme \<Rightarrow> 'a registry_scheme result" where
  "add_request_command cat name cb r = bind_result (add_command cat name cb r) (mark_request cat name)"

definition add_command_alias :: "bytes \<Rightarrow> bytes \<Rightarrow> 'a registry_scheme \<Rightarrow> 'a registry_scheme result" where
  "add_command_alias from to r =
     bind_result (check_not_started r) (\<lambda>_.
       if from = [] then Inl Runtime_error
       else let fromdot = find_char CHR ''.'' from; todot = find_char CHR ''.'' to in
         if fromdot = Some 0 then Inl Runtime_error
         else if todot = Some 0 \<or> todot = None then Inl Runtime_error
         else if (case fromdot of None \<Rightarrow> False | Some d \<Rightarrow>
                   (case map_of (categories r) (take d from) of None \<Rightarrow> False | Some c \<Rightarrow>
                      map_of (cat_commands c) (drop (d + 1) from) \<noteq> None)) then Inl Runtime_error
         else if map_of (command_aliases r) from \<noteq> None then Inl Runtime_error
         else Inr (r\<lparr>command_aliases := command_aliases r @ [(from, to)]\<rparr>))"

text \<open>
  \<open>get_command\<close> replaces an aliased command in place, so it returns the command beside the
  category and the callback.
\<close>

definition get_command :: "'a registry_scheme \<Rightarrow> bytes \<Rightarrow> bytes \<times> (bytes \<times> category \<times> callback \<times> bool) option" where
  "get_command r cmd =
     (if MAX_CATEGORY_LENGTH + 1 + MAX_COMMAND_LENGTH < length cmd then (cmd, None)
      else
        let cmd = (case map_of (command_aliases r) cmd of None \<Rightarrow> cmd | Some to \<Rightarrow> to) in
        (cmd,
         case find_char CHR ''.'' cmd of
           None \<Rightarrow> None
         | Some dot \<Rightarrow>
             if dot = 0 then None
             else
               let catname = take dot cmd; name = drop (dot + 1) cmd in
               case map_of (categories r) catname of
                 None \<Rightarrow> None
               | Some c \<Rightarrow>
                   (case map_of (cat_commands c) name of
                      None \<Rightarrow> None
                    | Some cb \<Rightarrow> Some (catname, c, cb))))"

section \<open>Configurations\<close>

text \<open>
  The registries the configuration calls can produce. A call that throws leaves the registry
  as it was, except that \<open>add_request_command\<close> runs in two steps, of which the second
  cannot throw when the first has not.
\<close>

definition empty_registry :: registry where
  "empty_registry = \<lparr>proxy_joinable = False, categories = [], command_aliases = []\<rparr>"

inductive configured :: "registry \<Rightarrow> bool" where
  initial: "configured empty_registry"
| category: "configured r \<Longrightarrow> add_category name access reserved mq r = Inr r' \<Longrightarrow> configured r'"
| command: "configured r \<Longrightarrow> add_command cat name cb r = Inr r' \<Longrightarrow> configured r'"
| request_command: "configured r \<Longrightarrow> add_request_command cat name cb r = Inr r' \<Longrightarrow> configured r'"
| command_alias: "configured r \<Longrightarrow> add_command_alias from to r = Inr r' \<Longrightarrow> configured r'"

text \<open>
  What every configuration keeps: category names are non-empty, short and free of dots,
  command names are short, and no alias hides a command.
\<close>

definition registered :: "'a registry_scheme \<Rightarrow> bytes \<Rightarrow> bytes \<Rightarrow> bool" where
  "registered r cat name =
     (case map_of (categories r) cat of None \<Rightarrow> False | Some c \<Rightarrow> map_of (cat_commands c) name \<noteq> None)"

definition registry_ok :: "'a registry_scheme \<Rightarrow> bool" where
  "registry_ok r \<longleftrightarrow>
     (\<forall>cat \<in> dom (map_of (categories r)). cat \<noteq> [] \<and> CHR ''.'' \<notin> set cat \<and> length cat \<le> MAX_CATEGORY_LENGTH)
   \<and> (\<forall>cat name. registered r cat name \<longrightarrow> length name \<le> MAX_COMMAND_LENGTH
        \<and> map_of (command_aliases r) (full_name cat name) = None)"

lemma find_char_append: "c \<notin> set xs \<Longrightarrow> find_char c (xs @ c # ys) = Some (length xs)"
  by (induction xs) (auto simp: find_char_def)

lemma find_char_full_name: "CHR ''.'' \<notin> set cat \<Longrightarrow> find_char CHR ''.'' (full_name cat name) = Some (length cat)"
  unfolding full_name_def by (rule find_char_append)

lemma full_name_parts [simp]:
  "take (length cat) (full_name cat name) = cat" "drop (Suc (length cat)) (full_name cat name) = name"
  by (simp_all add: full_name_def)

lemma full_name_inject:
  assumes "full_name c n = full_name c' n'" "CHR ''.'' \<notin> set c" "CHR ''.'' \<notin> set c'"
  shows "c = c'" "n = n'"
proof -
  from assms find_char_full_name [of c n] find_char_full_name [of c' n'] have "length c = length c'" by simp
  with assms(1) show "c = c'" "n = n'" by (auto simp: full_name_def)
qed

lemma registered_cat: "registered r cat name \<Longrightarrow> cat \<in> dom (map_of (categories r))"
  by (auto simp: registered_def split: option.splits)

lemma check_not_started_ok [simp]: "check_not_started r = Inr u \<longleftrightarrow> \<not> proxy_joinable r"
  by (simp add: check_not_started_def)

lemma add_category_ok:
  assumes "registry_ok r" "add_category name access reserved mq r = Inr r'"
  shows "registry_ok r'"
proof -
  from assms(2) have new: "map_of (categories r) name = None" "name \<noteq> []" "CHR ''.'' \<notin> set name"
      "length name \<le> MAX_CATEGORY_LENGTH"
    and r': "r' = r\<lparr>categories := categories r @ [(name, new_category access reserved mq)]\<rparr>"
    by (auto simp: add_category_def result_simps find_char_def split: if_splits)
  have "registered r' c n = registered r c n" for c n
    using new(1) by (auto simp: registered_def r' map_add_def new_category_def split: option.splits)
  with assms(1) new(2-4) show ?thesis by (auto simp: registry_ok_def r')
qed

lemma add_command_registers:
  assumes "add_command cat name cb r = Inr r'"
  obtains c where "map_of (categories r) cat = Some c" "\<not> registered r cat name"
    "length name \<le> MAX_COMMAND_LENGTH" "map_of (command_aliases r) (full_name cat name) = None"
    "r' = r\<lparr>categories := AList.update cat (c\<lparr>cat_commands := cat_commands c @ [(name, cb, False)]\<rparr>) (categories r)\<rparr>"
  using assms by (auto simp: add_command_def registered_def result_simps split: if_splits option.splits)

lemma registered_update:
  "registered (r\<lparr>categories := AList.update cat c (categories r)\<rparr>) cat' name'
     \<longleftrightarrow> (if cat' = cat then map_of (cat_commands c) name' \<noteq> None else registered r cat' name')"
  by (auto simp: registered_def update_conv')

lemma add_command_ok:
  assumes "registry_ok r" "add_command cat name cb r = Inr r'"
  shows "registry_ok r'"
proof -
  obtain c where c: "map_of (categories r) cat = Some c" "length name \<le> MAX_COMMAND_LENGTH"
      "map_of (command_aliases r) (full_name cat name) = None"
    and r': "r' = r\<lparr>categories := AList.update cat (c\<lparr>cat_commands := cat_commands c @ [(name, cb, False)]\<rparr>) (categories r)\<rparr>"
    using add_command_registers [OF assms(2)] by metis
  have reg: "registered r' c' n' \<longleftrightarrow> registered r c' n' \<or> (c' = cat \<and> n' = name)" for c' n'
    unfolding r' registered_update using c(1) by (auto simp: registered_def map_add_def split: option.splits)
  have "dom (map_of (categories r')) = dom (map_of (categories r))"
    using c(1) by (auto simp: r' update_conv' split: if_splits)
  with assms(1) c(2,3) reg show ?thesis by (auto simp: registry_ok_def r')
qed

lemma mark_request_ok:
  assumes "registry_ok r" "mark_request cat name r = Inr r'"
  shows "registry_ok r'"
proof -
  from assms(2) obtain c cb b where c: "map_of (categories r) cat = Some c" "map_of (cat_commands c) name = Some (cb, b)"
    and r': "r' = r\<lparr>categories := AList.update cat (c\<lparr>cat_commands := AList.update name (cb, True) (cat_commands c)\<rparr>) (categories r)\<rparr>"
    by (auto simp: mark_request_def split: option.splits)
  have reg: "registered r' c' n' \<longleftrightarrow> registered r c' n'" for c' n'
    unfolding r' registered_update using c by (auto simp: registered_def update_conv')
  have "dom (map_of (categories r')) = dom (map_of (categories r))"
    using c(1) by (auto simp: r' update_conv' split: if_splits)
  with assms(1) reg show ?thesis by (auto simp: registry_ok_def r')
qed

lemma add_request_command_ok:
  "registry_ok r \<Longrightarrow> add_request_command cat name cb r = Inr r' \<Longrightarrow> registry_ok r'"
  by (auto simp: add_request_command_def result_simps intro: add_command_ok mark_request_ok)

lemma add_command_alias_ok:
  assumes "registry_ok r" "add_command_alias from to r = Inr r'"
  shows "registry_ok r'"
proof -
  from assms(2) have r': "r' = r\<lparr>command_aliases := command_aliases r @ [(from, to)]\<rparr>"
    and free: "\<And>d c. find_char CHR ''.'' from = Some d \<Longrightarrow> map_of (categories r) (take d from) = Some c
         \<Longrightarrow> map_of (cat_commands c) (drop (Suc d) from) = None"
    by (auto simp: add_command_alias_def result_simps Let_def simp flip: not_None_eq
        split: if_splits option.splits)
  have "full_name cat name \<noteq> from" if "registered r cat name" for cat name
  proof
    assume "full_name cat name = from"
    moreover have "CHR ''.'' \<notin> set cat"
      using assms(1) registered_cat [OF that] by (auto simp: registry_ok_def)
    ultimately show False
      using free [of "length cat"] that find_char_full_name [of cat name]
      by (auto simp: registered_def split: option.splits)
  qed
  with assms(1) show ?thesis
    by (auto simp: registry_ok_def r' registered_def map_add_def split: option.splits)
qed

lemma configured_ok: "configured r \<Longrightarrow> registry_ok r"
proof (induction rule: configured.induct)
  case initial
  then show ?case by (simp add: empty_registry_def registry_ok_def registered_def)
qed (erule (1) add_category_ok add_command_ok add_request_command_ok add_command_alias_ok)+

lemma get_command_registered:
  assumes "registry_ok r" "map_of (categories r) cat = Some c" "map_of (cat_commands c) name = Some cb"
  shows "get_command r (full_name cat name) = (full_name cat name, Some (cat, c, cb))"
proof -
  have reg: "registered r cat name" using assms(2,3) by (simp add: registered_def)
  from registered_cat [OF this] assms(1) have cat: "cat \<noteq> []" "CHR ''.'' \<notin> set cat" "length cat \<le> MAX_CATEGORY_LENGTH"
    by (auto simp: registry_ok_def)
  from reg assms(1) have name: "length name \<le> MAX_COMMAND_LENGTH" "map_of (command_aliases r) (full_name cat name) = None"
    by (auto simp: registry_ok_def)
  have "\<not> MAX_CATEGORY_LENGTH + 1 + MAX_COMMAND_LENGTH < length (full_name cat name)"
    using cat(3) name(1) by (simp add: full_name_def)
  with cat name(2) assms(2,3) find_char_full_name [of cat name] show ?thesis
    by (simp add: get_command_def)
qed

text \<open>
  C37: Whatever sequence of \<open>add_category\<close>, \<open>add_command\<close>, \<open>add_request_command\<close>
  and \<open>add_command_alias\<close> calls configured the object, a registered command is found under
  its full name \<^verbatim>\<open>category.command\<close>: no length limit and no alias can hide it.
\<close>

theorem registered_command_found:
  assumes "configured r" "map_of (categories r) cat = Some c" "map_of (cat_commands c) name = Some cb"
  shows "get_command r (full_name cat name) = (full_name cat name, Some (cat, c, cb))"
  using configured_ok [OF assms(1)] assms(2,3) by (rule get_command_registered)

definition sample_registry :: "registry result" where
  "sample_registry =
     bind_result (add_category ''a'' default_Access 1 200 empty_registry)
       (\<lambda>r. add_request_command ''a'' ''b.c'' 7 r)"

theorem registered_command_found_witness:
  "\<exists>r c. sample_registry = Inr r \<and> get_command r ''a.b.c'' = (''a.b.c'', Some (''a'', c, 7, True))"
proof -
  obtain r1 where r1: "add_category ''a'' default_Access 1 200 empty_registry = Inr r1"
      "r1 = empty_registry\<lparr>categories := [(''a'', new_category default_Access 1 200)]\<rparr>"
    by (simp add: add_category_def check_not_started_def empty_registry_def find_char_def MAX_CATEGORY_LENGTH_def)
  then obtain r2 where r2: "add_request_command ''a'' ''b.c'' 7 r1 = Inr r2"
      "\<exists>c. map_of (categories r2) ''a'' = Some c \<and> map_of (cat_commands c) ''b.c'' = Some (7, True)"
    by (simp add: add_request_command_def add_command_def mark_request_def check_not_started_def empty_registry_def
        new_category_def MAX_COMMAND_LENGTH_def)
  have "configured r2" using r1(1) r2(1) configured.intros by metis
  from registered_command_found [OF this, of "''a''" _ "''b.c''" "(7, True)"] r2 r1(1) show ?thesis
    by (auto simp: sample_registry_def full_name_def)
qed

end
