(* ===== verification/Batch.thy ===== *)
theory Batch
  imports Prelude
begin

text \<open>
  \<^verbatim>\<open>src/arqmamq/batch.h\<close>: batches of jobs with an optional completion function, the
  results of the jobs, and the count of outstanding jobs by which the proxy recognizes the
  end of a batch.
\<close>

section \<open>Results of jobs\<close>

text \<open>
  \<open>job_result<R>\<close>: a value, \<open>None\<close> while it is default-constructed, and an exception
  pointer. The specialization for \<^verbatim>\<open>void\<close> has no value to set.
\<close>

record ('r, 'e) job_result =
  jr_value :: "'r option"
  jr_exc :: "'e option"

definition job_result_new :: "('r, 'e) job_result" where
  "job_result_new = \<lparr>jr_value = None, jr_exc = None\<rparr>"

definition job_result_get :: "('r, 'e) job_result \<Rightarrow> 'e + 'r option" where
  "job_result_get r = (case jr_exc r of Some e \<Rightarrow> Inl e | None \<Rightarrow> Inr (jr_value r))"

section \<open>Batches\<close>

datatype BatchState = batch_running | batch_complete | batch_done

record BatchStatus =
  bs_state :: BatchState
  bs_thread :: int

text \<open>
  A job is paired with the tagged thread it must run on (0: any, the identifiers start at 1);
  the thread -1 is the proxy thread. The job functions, the completion function and what they
  return are left to the client. \<open>jobs_outstanding\<close> is a \<^verbatim>\<open>size_t\<close>.
\<close>

record ('f, 'r, 'e, 'c) batch =
  b_jobs :: "('f \<times> int) list"
  b_results :: "('r, 'e) job_result list"
  b_complete :: "'c option"
  jobs_outstanding :: nat
  complete_in_thread :: int
  b_started :: bool
  tagged_thread_jobs :: bool

definition run_in_proxy :: int where "run_in_proxy = -1"

definition new_batch :: "('f, 'r, 'e, 'c) batch" where
  "new_batch = \<lparr>b_jobs = [], b_results = [], b_complete = None, jobs_outstanding = 0,
     complete_in_thread = 0, b_started = False, tagged_thread_jobs = False\<rparr>"

definition batch_check_not_started :: "('f, 'r, 'e, 'c) batch \<Rightarrow> unit result" where
  "batch_check_not_started b = (if b_started b then Inl Logic_error else Inr ())"

definition add_job_on :: "'f \<Rightarrow> int \<Rightarrow> ('f, 'r, 'e, 'c) batch \<Rightarrow> ('f, 'r, 'e, 'c) batch" where
  "add_job_on job thread_id b =
     (let b = b\<lparr>b_jobs := b_jobs b @ [(job, thread_id)], b_results := b_results b @ [job_result_new],
                jobs_outstanding := jobs_outstanding b + 1\<rparr>
      in if thread_id \<noteq> 0 then b\<lparr>tagged_thread_jobs := True\<rparr> else b)"

definition add_job :: "'f \<Rightarrow> int option \<Rightarrow> ('f, 'r, 'e, 'c) batch \<Rightarrow> ('f, 'r, 'e, 'c) batch result" where
  "add_job job thread b =
     bind_result (batch_check_not_started b) (\<lambda>_.
       if thread = Some run_in_proxy then Inl Logic_error
       else Inr (add_job_on job (case thread of Some t \<Rightarrow> t | None \<Rightarrow> 0) b))"

definition completion :: "'c \<Rightarrow> int option \<Rightarrow> ('f, 'r, 'e, 'c) batch \<Rightarrow> ('f, 'r, 'e, 'c) batch result" where
  "completion cf thread b =
     bind_result (batch_check_not_started b) (\<lambda>_.
       if b_complete b \<noteq> None then Inl Logic_error
       else Inr (b\<lparr>b_complete := Some cf,
                   complete_in_thread := (case thread of Some t \<Rightarrow> t | None \<Rightarrow> 0)\<rparr>))"

definition batch_size :: "('f, 'r, 'e, 'c) batch \<Rightarrow> nat \<times> bool" where
  "batch_size b = (length (b_jobs b), tagged_thread_jobs b)"

definition batch_threads :: "('f, 'r, 'e, 'c) batch \<Rightarrow> int list" where
  "batch_threads b = map snd (b_jobs b)"

text \<open>\<open>run_job\<close>, with the outcome of calling a job function as an argument.\<close>

definition run_job :: "('f \<Rightarrow> 'e + 'r) \<Rightarrow> nat \<Rightarrow> ('f, 'r, 'e, 'c) batch \<Rightarrow> ('f, 'r, 'e, 'c) batch result" where
  "run_job invoke i b =
     (if i < length (b_jobs b) \<and> i < length (b_results b) then
        Inr (b\<lparr>b_results := (b_results b)[i :=
          (case invoke (fst (b_jobs b ! i)) of
             Inr v \<Rightarrow> (b_results b ! i)\<lparr>jr_value := Some v\<rparr>
           | Inl e \<Rightarrow> (b_results b ! i)\<lparr>jr_exc := Some e\<rparr>)]\<rparr>)
      else Inl Undefined_behaviour)"

definition job_finished :: "('f, 'r, 'e, 'c) batch \<Rightarrow> BatchStatus \<times> ('f, 'r, 'e, 'c) batch" where
  "job_finished b =
     (let n = (if jobs_outstanding b = 0 then 2 ^ 64 - 1 else jobs_outstanding b - 1);
          b = b\<lparr>jobs_outstanding := n\<rparr>
      in (if n \<noteq> 0 then \<lparr>bs_state = batch_running, bs_thread = 0\<rparr>
          else if b_complete b \<noteq> None then \<lparr>bs_state = batch_complete, bs_thread = complete_in_thread b\<rparr>
          else \<lparr>bs_state = batch_done, bs_thread = 0\<rparr>, b))"

text \<open>\<open>job_completion\<close> calls the completion function with the results, which it moves out.\<close>

definition job_completion ::
  "('f, 'r, 'e, 'c) batch \<Rightarrow> (('c \<times> ('r, 'e) job_result list) \<times> ('f, 'r, 'e, 'c) batch) result" where
  "job_completion b =
     (case b_complete b of
        None \<Rightarrow> Inl Bad_function_call
      | Some c \<Rightarrow> Inr ((c, b_results b), b\<lparr>b_results := []\<rparr>))"

section \<open>What a batch promises\<close>

text \<open>
  A batch as the configuration calls leave it: one result per job, none of them run, all of
  them outstanding.
\<close>

inductive batch_built :: "('f, 'r, 'e, 'c) batch \<Rightarrow> bool" where
  empty: "batch_built new_batch"
| job: "batch_built b \<Longrightarrow> add_job f t b = Inr b' \<Longrightarrow> batch_built b'"
| timer_job: "batch_built b \<Longrightarrow> batch_built (add_job_on f t b)"
| completion: "batch_built b \<Longrightarrow> completion c t b = Inr b' \<Longrightarrow> batch_built b'"

definition batch_fresh :: "('f, 'r, 'e, 'c) batch \<Rightarrow> bool" where
  "batch_fresh b \<longleftrightarrow> length (b_results b) = length (b_jobs b) \<and> jobs_outstanding b = length (b_jobs b)
     \<and> (tagged_thread_jobs b \<longleftrightarrow> (\<exists>j \<in> set (b_jobs b). snd j \<noteq> 0))"

lemma batch_fresh_add_job_on [simp]: "batch_fresh b \<Longrightarrow> batch_fresh (add_job_on f t b)"
  by (auto simp: batch_fresh_def add_job_on_def Let_def)

lemma batch_built_fresh: "batch_built b \<Longrightarrow> batch_fresh b"
proof (induction rule: batch_built.induct)
  case empty
  then show ?case by (simp add: batch_fresh_def new_batch_def)
next
  case (job b f t b')
  then show ?case by (auto simp: add_job_def result_simps split: if_splits)
next
  case (completion b c t b')
  then show ?case by (auto simp: completion_def batch_fresh_def result_simps split: if_splits)
qed simp

text \<open>The statuses of a series of finished jobs.\<close>

primrec finish_jobs :: "nat \<Rightarrow> ('f, 'r, 'e, 'c) batch \<Rightarrow> BatchState list \<times> ('f, 'r, 'e, 'c) batch" where
  "finish_jobs 0 b = ([], b)"
| "finish_jobs (Suc n) b =
     (let (st, b) = job_finished b; (sts, b) = finish_jobs n b in (bs_state st # sts, b))"

lemma finish_jobs_running:
  "n < jobs_outstanding b \<Longrightarrow>
     finish_jobs n b = (replicate n batch_running, b\<lparr>jobs_outstanding := jobs_outstanding b - n\<rparr>)"
  by (induction n arbitrary: b) (simp_all add: job_finished_def Let_def)

lemma finish_jobs_append:
  "finish_jobs (m + n) b =
     (let (xs, b) = finish_jobs m b; (ys, b) = finish_jobs n b in (xs @ ys, b))"
  by (induction m arbitrary: b) (simp_all add: split_beta Let_def)

lemma finish_jobs_all:
  assumes "jobs_outstanding b = Suc n"
  shows "fst (finish_jobs (Suc n) b)
    = replicate n batch_running @ [if b_complete b \<noteq> None then batch_complete else batch_done]"
proof -
  have "finish_jobs (n + 1) b =
     (let (xs, b) = finish_jobs n b; (ys, b) = finish_jobs 1 b in (xs @ ys, b))"
    by (rule finish_jobs_append)
  with finish_jobs_running [of n b] assms show ?thesis
    by (simp add: job_finished_def Let_def del: finish_jobs.simps(2) add: finish_jobs.simps(2) [of 0])
qed

text \<open>
  C36: However a batch of at least one job was put together, the proxy is told that the batch
  still runs for every finished job but the last, and for the last that it is complete, when
  a completion function was set, or done, when none was.
\<close>

theorem batch_end_reported_once:
  assumes "batch_built b" "b_jobs b \<noteq> []"
  shows "fst (finish_jobs (length (b_jobs b)) b)
    = replicate (length (b_jobs b) - 1) batch_running @ [if b_complete b \<noteq> None then batch_complete else batch_done]"
proof -
  obtain n where "length (b_jobs b) = Suc n" using assms(2) by (cases "b_jobs b") auto
  with batch_built_fresh [OF assms(1)] finish_jobs_all [of b n] show ?thesis
    by (simp add: batch_fresh_def)
qed

theorem batch_end_reported_once_witness:
  "fst (finish_jobs 2 (add_job_on (5 :: nat) 0 (add_job_on 4 2 (new_batch :: (nat, nat, nat, nat) batch))))
    = [batch_running, batch_done]"
proof -
  let ?b = "add_job_on 5 0 (add_job_on 4 2 (new_batch :: (nat, nat, nat, nat) batch))"
  have "batch_built ?b" by (rule batch_built.timer_job, rule batch_built.timer_job, rule batch_built.empty)
  moreover have "length (b_jobs ?b) = 2" "b_complete ?b = None" "b_jobs ?b \<noteq> []"
    by (simp_all add: add_job_on_def new_batch_def)
  ultimately show ?thesis using batch_end_reported_once [of ?b] by auto
qed

end
