(* ===== verification/Scheduler.thy ===== *)
theory Scheduler
  imports Command_Table Batch Bt_Deserialize
begin

text \<open>
  The proxy thread's scheduling of worker threads: the run descriptions handed to workers, the
  queues of batch jobs, reply jobs and commands that wait for a worker, the messages of the
  workers, tagged threads and timers (\<^verbatim>\<open>src/arqmamq/worker.cpp\<close>,
  \<^verbatim>\<open>jobs.cpp\<close>, \<open>proxy_process_queue\<close> of \<^verbatim>\<open>proxy.cpp\<close> and
  \<open>run_info::load\<close> of \<^verbatim>\<open>arqmamq.cpp\<close>).
\<close>

section \<open>What workers run\<close>

text \<open>
  The functions the proxy schedules: one given by the user, or one of the closures the
  library builds over a user callback.
\<close>

datatype job_fn =
    UserFn nat
  | ConnectFn nat ConnectionID
  | FailFn nat ConnectionID bytes
  | ReplyFn nat bool "bytes list"
  | SendFailFn nat "int option"
  | SendFullFn nat

text \<open>A completion function: of the user, or the one \<open>_queue_timer_job\<close> sets.\<close>

datatype completion_fn = UserCompletion nat | TimerCompletion int

type_synonym ptr = nat
type_synonym job_batch = "(job_fn, nat, nat, completion_fn) batch"

text \<open>A \<open>batch_job\<close>: the batch and the number of the job, -1 for the completion.\<close>

type_synonym batch_job = "ptr \<times> int"

datatype runnable = RunCommand "(callback \<times> bool) option" | RunBatch "ptr option" | RunFunction job_fn

record run_info =
  is_batch_job :: bool
  is_reply_job :: bool
  is_tagged_thread_job :: bool
  is_injected :: bool
  ri_cat :: "bytes option"
  ri_command :: bytes
  ri_conn :: ConnectionID
  ri_access :: Access
  ri_remote :: bytes
  ri_data_parts :: "bytes list"
  batch_jobno :: int
  to_run :: runnable
  thread_joinable :: bool
  worker_id :: nat
  worker_routing_id :: bytes

definition new_run_info :: "nat \<Rightarrow> bytes \<Rightarrow> run_info" where
  "new_run_info wid routing =
     \<lparr>is_batch_job = False, is_reply_job = False, is_tagged_thread_job = False, is_injected = False,
      ri_cat = None, ri_command = [], ri_conn = conn_of_id 0, ri_access = default_Access, ri_remote = [],
      ri_data_parts = [], batch_jobno = 0, to_run = RunCommand None, thread_joinable = False,
      worker_id = wid, worker_routing_id = routing\<rparr>"

text \<open>A command or an injected function that waits for a worker.\<close>

datatype pending_callback = PendingCommand "callback \<times> bool" | PendingFunction job_fn

record pending_command =
  pc_cat :: bytes
  pc_command :: bytes
  pc_data_parts :: "bytes list"
  pc_callback :: pending_callback
  pc_conn :: ConnectionID
  pc_access :: Access
  pc_remote :: bytes

definition run_reset :: "run_info \<Rightarrow> run_info" where
  "run_reset run = run\<lparr>is_batch_job := False, is_reply_job := False, is_tagged_thread_job := False, is_injected := False\<rparr>"

definition load_command ::
  "bytes \<Rightarrow> bytes \<Rightarrow> ConnectionID \<Rightarrow> Access \<Rightarrow> bytes \<Rightarrow> bytes list \<Rightarrow> callback \<times> bool \<Rightarrow> run_info \<Rightarrow> run_info" where
  "load_command cat cmd conn access remote parts cb run =
     (run_reset run)\<lparr>ri_cat := Some cat, ri_command := cmd, ri_conn := conn, ri_access := access,
        ri_remote := remote, ri_data_parts := parts, to_run := RunCommand (Some cb)\<rparr>"

definition load_injected :: "bytes \<Rightarrow> bytes \<Rightarrow> bytes \<Rightarrow> job_fn \<Rightarrow> run_info \<Rightarrow> run_info" where
  "load_injected cat cmd remote f run =
     (run_reset run)\<lparr>is_injected := True, ri_cat := Some cat, ri_command := cmd, ri_conn := conn_of_id 0,
        ri_access := default_Access, ri_remote := remote, to_run := RunFunction f\<rparr>"

definition load_pending :: "pending_command \<Rightarrow> run_info \<Rightarrow> run_info" where
  "load_pending p =
     (case pc_callback p of
        PendingFunction f \<Rightarrow> load_injected (pc_cat p) (pc_command p) (pc_remote p) f
      | PendingCommand cb \<Rightarrow>
          load_command (pc_cat p) (pc_command p) (pc_conn p) (pc_access p) (pc_remote p) (pc_data_parts p) cb)"

definition load_batch_job :: "batch_job \<Rightarrow> bool \<Rightarrow> int \<Rightarrow> run_info \<Rightarrow> run_info" where
  "load_batch_job bj reply_job tagged_thread run =
     (run_reset run)\<lparr>is_batch_job := True, is_reply_job := reply_job, is_tagged_thread_job := 0 < tagged_thread,
        batch_jobno := snd bj, to_run := RunBatch (Some (fst bj))\<rparr>"

section \<open>State\<close>

record timer_data =
  td_function :: job_fn
  td_squelch :: bool
  td_running :: bool
  td_thread :: int

text \<open>What the proxy does to the worker threads, in order.\<close>

datatype worker_event =
    Spawn nat
  | Spawn_tagged nat bytes
  | Send_worker bytes bytes
  | Joined bytes
  | In_proxy completion_fn "(nat, nat) job_result list"
  | Call_in_proxy job_fn

text \<open>
  \<open>batch_heap\<close> is the memory the \<open>Batch\<close> objects live in: a pointer that is not there is
  dangling. \<open>workers_capacity\<close> is what \<^verbatim>\<open>workers.reserve\<close> asked for.
  \<open>timer_heap\<close> lists the timers zmq runs, with their intervals. Queues grow at their end.
\<close>

record sched = registry +
  general_workers :: int
  max_workers :: int
  workers :: "run_info list"
  workers_capacity :: nat
  idle_workers :: "nat list"
  tagged_workers :: "(run_info \<times> bool \<times> batch_job list) list"
  batch_heap :: "(ptr \<times> job_batch) list"
  batches :: "ptr list"
  batch_jobs :: "batch_job list"
  reply_jobs :: "batch_job list"
  batch_jobs_active :: int
  reply_jobs_active :: int
  batch_jobs_reserved :: int
  reply_jobs_reserved :: int
  pending_commands :: "pending_command list"
  proxy_skip_one_poll :: bool
  timers_created :: bool
  timer_heap :: "(int \<times> int) list"
  timer_jobs :: "(int \<times> timer_data) list"
  timer_zmq_id :: "(int \<times> int) list"
  worker_events :: "worker_event list"

definition active_workers :: "sched \<Rightarrow> int" where
  "active_workers s = int (length (workers s)) - int (length (idle_workers s))"

text \<open>
  A reference to a category: categories are never removed, so the default below stands for
  none that the program has.
\<close>

definition the_cat :: "sched \<Rightarrow> bytes \<Rightarrow> category" where
  "the_cat s name = (case map_of (categories s) name of Some c \<Rightarrow> c | None \<Rightarrow> new_category default_Access 0 0)"

definition upd_cat :: "bytes \<Rightarrow> (category \<Rightarrow> category) \<Rightarrow> sched \<Rightarrow> sched" where
  "upd_cat name f s = s\<lparr>categories := map (\<lambda>(n, c). (n, if n = name then f c else c)) (categories s)\<rparr>"

definition emit :: "worker_event \<Rightarrow> sched \<Rightarrow> sched" where
  "emit e s = s\<lparr>worker_events := worker_events s @ [e]\<rparr>"

section \<open>Running workers\<close>

definition get_idle_worker :: "sched \<Rightarrow> nat \<times> sched" where
  "get_idle_worker s =
     (if idle_workers s = [] then
        let wid = length (workers s)
        in (wid, s\<lparr>workers := workers s @ [new_run_info wid (CHR ''w'' # show_nat wid)]\<rparr>)
      else (last (idle_workers s), s\<lparr>idle_workers := butlast (idle_workers s)\<rparr>))"

text \<open>
  \<open>proxy_run_worker\<close> starts the thread of the run description, or tells the thread to run;
  it returns the description as it is left.
\<close>

definition proxy_run_worker :: "run_info \<Rightarrow> sched \<Rightarrow> run_info \<times> sched" where
  "proxy_run_worker run s =
     (if \<not> thread_joinable run then (run\<lparr>thread_joinable := True\<rparr>, emit (Spawn (worker_id run)) s)
      else (run, emit (Send_worker (worker_routing_id run) ''RUN'') s))"

text \<open>\<^verbatim>\<open>proxy_run_worker(get_idle_worker().load(...))\<close>, the way every job of the general pool starts.\<close>

definition start_worker :: "(run_info \<Rightarrow> run_info) \<Rightarrow> sched \<Rightarrow> sched" where
  "start_worker load s =
     (let (wid, s) = get_idle_worker s;
          (run, s) = proxy_run_worker (load (workers s ! wid)) s
      in s\<lparr>workers := (workers s)[wid := run]\<rparr>)"

text \<open>The queue and the counters of the two kinds of jobs \<open>proxy_run_batch_jobs\<close> is called for.\<close>

definition active_jobs :: "bool \<Rightarrow> sched \<Rightarrow> int" where
  "active_jobs reply s = (if reply then reply_jobs_active s else batch_jobs_active s)"

definition reserved_jobs :: "bool \<Rightarrow> sched \<Rightarrow> int" where
  "reserved_jobs reply s = (if reply then reply_jobs_reserved s else batch_jobs_reserved s)"

definition queued_jobs :: "bool \<Rightarrow> sched \<Rightarrow> batch_job list" where
  "queued_jobs reply s = (if reply then reply_jobs s else batch_jobs s)"

definition add_active_jobs :: "bool \<Rightarrow> int \<Rightarrow> sched \<Rightarrow> sched" where
  "add_active_jobs reply d s =
     (if reply then s\<lparr>reply_jobs_active := reply_jobs_active s + d\<rparr>
      else s\<lparr>batch_jobs_active := batch_jobs_active s + d\<rparr>)"

definition set_queued_jobs :: "bool \<Rightarrow> batch_job list \<Rightarrow> sched \<Rightarrow> sched" where
  "set_queued_jobs reply js s = (if reply then s\<lparr>reply_jobs := js\<rparr> else s\<lparr>batch_jobs := js\<rparr>)"

text \<open>One round of the loop of \<open>proxy_run_batch_jobs\<close>, which takes the job \<open>j\<close> before \<open>js\<close>.\<close>

definition start_job :: "bool \<Rightarrow> batch_job \<Rightarrow> batch_job list \<Rightarrow> sched \<Rightarrow> sched" where
  "start_job reply j js s =
     add_active_jobs reply 1 (set_queued_jobs reply js (start_worker (load_batch_job j reply 0) s))"

fun run_batch_jobs_loop :: "bool \<Rightarrow> batch_job list \<Rightarrow> sched \<Rightarrow> sched" where
  "run_batch_jobs_loop reply [] s = s"
| "run_batch_jobs_loop reply (j # js) s =
     (if active_workers s < max_workers s
         \<and> (active_jobs reply s < reserved_jobs reply s \<or> active_workers s < general_workers s)
      then run_batch_jobs_loop reply js (start_job reply j js s)
      else s)"

definition proxy_run_batch_jobs :: "bool \<Rightarrow> sched \<Rightarrow> sched" where
  "proxy_run_batch_jobs reply s = run_batch_jobs_loop reply (queued_jobs reply s) s"

text \<open>The idle tagged threads take the first job of their queues.\<close>

fun run_tagged_loop :: "(run_info \<times> bool \<times> batch_job list) list \<Rightarrow> sched
    \<Rightarrow> (run_info \<times> bool \<times> batch_job list) list \<times> sched" where
  "run_tagged_loop [] s = ([], s)"
| "run_tagged_loop ((run, busy, queue) # ts) s =
     (let ((run, busy, queue), s) =
            (if \<not> busy \<and> queue \<noteq> [] then
               let (run, s) = proxy_run_worker (load_batch_job (hd queue) False (int (worker_id run)) run) s
               in ((run, True, tl queue), s)
             else ((run, busy, queue), s));
          (ts, s) = run_tagged_loop ts s
      in ((run, busy, queue) # ts, s))"

definition run_tagged_workers :: "sched \<Rightarrow> sched" where
  "run_tagged_workers s = (let (ts, s) = run_tagged_loop (tagged_workers s) s in s\<lparr>tagged_workers := ts\<rparr>)"

text \<open>Waiting commands: the loop returns those that stay in the list.\<close>

definition slot_free :: "bytes \<Rightarrow> sched \<Rightarrow> bool" where
  "slot_free cat s \<longleftrightarrow> active_threads (the_cat s cat) < reserved_threads (the_cat s cat)
     \<or> active_workers s < general_workers s"

definition start_pending :: "pending_command \<Rightarrow> sched \<Rightarrow> sched" where
  "start_pending p s =
     upd_cat (pc_cat p) (\<lambda>c. c\<lparr>active_threads := active_threads c + 1\<rparr>)
       (upd_cat (pc_cat p) (\<lambda>c. c\<lparr>queued := queued c - 1\<rparr>) (start_worker (load_pending p) s))"

fun run_pending_loop :: "pending_command list \<Rightarrow> sched \<Rightarrow> pending_command list \<times> sched" where
  "run_pending_loop [] s = ([], s)"
| "run_pending_loop (p # ps) s =
     (if active_workers s < max_workers s then
        if slot_free (pc_cat p) s then run_pending_loop ps (start_pending p s)
        else let (kept, s) = run_pending_loop ps s in (p # kept, s)
      else (p # ps, s))"

definition run_pending_commands :: "sched \<Rightarrow> sched" where
  "run_pending_commands s =
     (let (kept, s) = run_pending_loop (pending_commands s) s in s\<lparr>pending_commands := kept\<rparr>)"

definition proxy_process_queue :: "sched \<Rightarrow> sched" where
  "proxy_process_queue s =
     (if max_workers s = 0 then s
      else
        let s = run_tagged_workers s;
            s = proxy_run_batch_jobs False s;
            s = proxy_run_batch_jobs True s
        in run_pending_commands s)"

text \<open>
  The end of \<open>proxy_to_worker\<close> and all of \<open>proxy_inject_task\<close>: run the command when a
  reserved or general place is free, else queue it, unless the queue of the category is full.
\<close>

definition queue_full :: "bytes \<Rightarrow> sched \<Rightarrow> bool" where
  "queue_full cat s \<longleftrightarrow> 0 \<le> max_queue (the_cat s cat) \<and> max_queue (the_cat s cat) \<le> queued (the_cat s cat)"

definition run_or_queue :: "pending_command \<Rightarrow> sched \<Rightarrow> sched" where
  "run_or_queue p s =
     (if \<not> slot_free (pc_cat p) s then
        if queue_full (pc_cat p) s then s
        else upd_cat (pc_cat p) (\<lambda>c. c\<lparr>queued := queued c + 1\<rparr>)
               (s\<lparr>pending_commands := pending_commands s @ [p]\<rparr>)
      else upd_cat (pc_cat p) (\<lambda>c. c\<lparr>active_threads := active_threads c + 1\<rparr>) (start_worker (load_pending p) s))"

record injected_task =
  it_cat :: bytes
  it_command :: bytes
  it_remote :: bytes
  it_callback :: job_fn

definition proxy_inject_task :: "injected_task \<Rightarrow> sched \<Rightarrow> sched" where
  "proxy_inject_task task =
     run_or_queue \<lparr>pc_cat = it_cat task, pc_command = it_command task, pc_data_parts = [],
        pc_callback = PendingFunction (it_callback task), pc_conn = conn_of_id 0,
        pc_access = default_Access, pc_remote = it_remote task\<rparr>"

section \<open>Messages of workers\<close>

text \<open>
  Memory of the \<open>Batch\<close> objects: \<^verbatim>\<open>new\<close> takes an address above all those in use,
  \<^verbatim>\<open>delete\<close> frees one.
\<close>

definition fresh_ptr :: "(ptr \<times> 'b) list \<Rightarrow> ptr" where
  "fresh_ptr h = Suc (foldr max (map fst h) 0)"

definition new_object :: "job_batch \<Rightarrow> sched \<Rightarrow> ptr \<times> sched" where
  "new_object b s = (let p = fresh_ptr (batch_heap s) in (p, s\<lparr>batch_heap := batch_heap s @ [(p, b)]\<rparr>))"

definition set_object :: "ptr \<Rightarrow> job_batch \<Rightarrow> sched \<Rightarrow> sched" where
  "set_object p b s = s\<lparr>batch_heap := map (\<lambda>(q, c). (q, if q = p then b else c)) (batch_heap s)\<rparr>"

definition insert_batch :: "ptr \<Rightarrow> sched \<Rightarrow> sched" where
  "insert_batch p s = (if p \<in> set (batches s) then s else s\<lparr>batches := batches s @ [p]\<rparr>)"

definition delete_batch :: "ptr \<Rightarrow> sched \<Rightarrow> sched" where
  "delete_batch p s = s\<lparr>batches := filter (\<lambda>q. q \<noteq> p) (batches s), batch_heap := filter (\<lambda>(q, _). q \<noteq> p) (batch_heap s)\<rparr>"

text \<open>A worker by its place: in \<open>workers\<close>, or in \<open>tagged_workers\<close> (whose numbers start at 1).\<close>

datatype worker_ref = General nat | Tagged nat

fun ref_ok :: "worker_ref \<Rightarrow> sched \<Rightarrow> bool" where
  "ref_ok (General i) s \<longleftrightarrow> i < length (workers s)"
| "ref_ok (Tagged i) s \<longleftrightarrow> 0 < i \<and> i \<le> length (tagged_workers s)"

fun run_of :: "worker_ref \<Rightarrow> sched \<Rightarrow> run_info" where
  "run_of (General i) s = workers s ! i"
| "run_of (Tagged i) s = fst (tagged_workers s ! (i - 1))"

fun set_run :: "worker_ref \<Rightarrow> run_info \<Rightarrow> sched \<Rightarrow> sched" where
  "set_run (General i) r s = s\<lparr>workers := (workers s)[i := r]\<rparr>"
| "set_run (Tagged i) r s =
     s\<lparr>tagged_workers := (tagged_workers s)[i - 1 := (r, snd (tagged_workers s ! (i - 1)))]\<rparr>"

text \<open>Append to the queue of a tagged thread; a thread that does not exist is out of bounds.\<close>

definition push_tagged :: "nat \<Rightarrow> batch_job \<Rightarrow> sched \<Rightarrow> sched result" where
  "push_tagged i j s =
     (if 0 < i \<and> i \<le> length (tagged_workers s) then
        Inr (s\<lparr>tagged_workers := (tagged_workers s)[i - 1 :=
          (case tagged_workers s ! (i - 1) of (r, busy, queue) \<Rightarrow> (r, busy, queue @ [j]))]\<rparr>)
      else Inl Undefined_behaviour)"

definition push_job :: "bool \<Rightarrow> batch_job \<Rightarrow> sched \<Rightarrow> sched" where
  "push_job reply j s = set_queued_jobs reply (queued_jobs reply s @ [j]) s"

text \<open>
  Running a completion function in the proxy thread: that of a timer, which finds its timer
  and marks it as not running, or one of the user's. What it throws is caught and logged.
\<close>

definition call_completion :: "completion_fn \<Rightarrow> (nat, nat) job_result list \<Rightarrow> sched \<Rightarrow> sched" where
  "call_completion c results s =
     (let s = emit (In_proxy c results) s in
      case c of
        UserCompletion _ \<Rightarrow> s
      | TimerCompletion tid \<Rightarrow>
          s\<lparr>timer_jobs := map (\<lambda>(i, t). (i, if i = tid then t\<lparr>td_running := False\<rparr> else t)) (timer_jobs s)\<rparr>)"

text \<open>The bookkeeping of \<open>RAN\<close> before the state of the batch is looked at.\<close>

definition worker_returned :: "worker_ref \<Rightarrow> sched \<Rightarrow> sched" where
  "worker_returned w s =
     (case w of
        Tagged i \<Rightarrow> s\<lparr>tagged_workers := (tagged_workers s)[i - 1 :=
          (case tagged_workers s ! (i - 1) of (r, _, queue) \<Rightarrow> (r, False, queue))]\<rparr>
      | General _ \<Rightarrow> add_active_jobs (is_reply_job (run_of w s)) (- 1) s)"

text \<open>
  What follows the end of the job \<open>jobno\<close> of a batch: whether the batch is to be cleared,
  and the new state. To finish a job of a freed batch, or to free it again, is undefined.
\<close>

definition batch_job_done :: "worker_ref \<Rightarrow> ptr \<Rightarrow> sched \<Rightarrow> (bool \<times> sched) result" where
  "batch_job_done w p s =
     (case map_of (batch_heap s) p of
        None \<Rightarrow> Inl Undefined_behaviour
      | Some b \<Rightarrow>
          if batch_jobno (run_of w s) = -1 then Inr (True, s) else
          let (st, b) = job_finished b; s = set_object p b s in
          case bs_state st of
            batch_running \<Rightarrow> Inr (False, s)
          | batch_done \<Rightarrow> Inr (True, s)
          | batch_complete \<Rightarrow>
              if bs_thread st = -1 then
                (case job_completion b of
                   Inl _ \<Rightarrow> Inr (True, s)
                 | Inr ((c, results), b) \<Rightarrow> Inr (True, call_completion c results (set_object p b s)))
              else if 0 < bs_thread st then
                bind_result (push_tagged (nat (bs_thread st)) (p, -1) s) (\<lambda>s. Inr (False, s))
              else Inr (False, push_job (is_reply_job (run_of w s)) (p, -1) s))"

definition worker_ran_batch :: "worker_ref \<Rightarrow> sched \<Rightarrow> sched result" where
  "worker_ran_batch w s =
     (case to_run (run_of w s) of
        RunBatch (Some p) \<Rightarrow>
          bind_result (batch_job_done w p (worker_returned w s)) (\<lambda>(clear, s).
            Inr (if clear then
                   let s = delete_batch p s in set_run w ((run_of w s)\<lparr>to_run := RunBatch None\<rparr>) s
                 else s))
      | RunBatch None \<Rightarrow> Inl Undefined_behaviour
      | _ \<Rightarrow> Inl Bad_variant_access)"

definition worker_ran_command :: "worker_ref \<Rightarrow> sched \<Rightarrow> sched result" where
  "worker_ran_command w s =
     (case ri_cat (run_of w s) of
        None \<Rightarrow> Inl Undefined_behaviour
      | Some cat \<Rightarrow> Inr (upd_cat cat (\<lambda>c. c\<lparr>active_threads := active_threads c - 1\<rparr>) s))"

definition worker_ran :: "worker_ref \<Rightarrow> bytes \<Rightarrow> sched \<Rightarrow> sched result" where
  "worker_ran w route s =
     bind_result (if is_batch_job (run_of w s) then worker_ran_batch w s else worker_ran_command w s) (\<lambda>s.
       Inr (if max_workers s = 0 then emit (Send_worker route ''QUIT'') s
            else case w of
              Tagged _ \<Rightarrow> s
            | General i \<Rightarrow> s\<lparr>idle_workers := idle_workers s @ [i]\<rparr>))"

text \<open>
  \<open>proxy_worker_message\<close>. The number in the route is read as 64 bits and stored in an
  \<^verbatim>\<open>unsigned int\<close>. Joining a thread that is not joinable throws.
\<close>

definition route_worker :: "bytes \<Rightarrow> (worker_ref \<times> bool) result" where
  "route_worker route =
     (if length route < 2 then Inl Undefined_behaviour
      else bind_result (extract_unsigned (tl route)) (\<lambda>(n, rest).
        let wid = unat (ucast n :: 32 word)
        in Inr (if hd route = CHR ''t'' then Tagged wid else General wid, rest = [])))"

definition proxy_worker_message :: "bytes list \<Rightarrow> sched \<Rightarrow> sched result" where
  "proxy_worker_message parts s =
     (case parts of
        [route, cmd] \<Rightarrow>
          bind_result (route_worker route) (\<lambda>(w, whole).
            if \<not> whole \<or> \<not> ref_ok w s then Inr s
            else if cmd = ''RAN'' then worker_ran w route s
            else if cmd = ''QUITTING'' then
              if thread_joinable (run_of w s)
              then Inr (set_run w ((run_of w s)\<lparr>thread_joinable := False\<rparr>) (emit (Joined route) s))
              else Inl System_error
            else Inr s)
      | _ \<Rightarrow> Inr s)"

section \<open>Batches and timers\<close>

text \<open>The jobs of a batch are queued in order, each for the thread it is bound to.\<close>

fun queue_batch_jobs :: "ptr \<Rightarrow> int \<Rightarrow> int list \<Rightarrow> sched \<Rightarrow> sched result" where
  "queue_batch_jobs p i [] s = Inr s"
| "queue_batch_jobs p i (t # ts) s =
     bind_result (if 0 < t then push_tagged (nat t) (p, i) s else Inr (push_job False (p, i) s))
       (queue_batch_jobs p (i + 1) ts)"

definition proxy_batch :: "ptr \<Rightarrow> sched \<Rightarrow> sched result" where
  "proxy_batch p s =
     (case map_of (batch_heap s) p of
        None \<Rightarrow> Inl Undefined_behaviour
      | Some b \<Rightarrow>
          let s = insert_batch p s; (jobs, tagged) = batch_size b in
          bind_result
            (if \<not> tagged then queue_batch_jobs p 0 (replicate jobs 0) s
             else queue_batch_jobs p 0 (batch_threads b) s)
            (\<lambda>s. Inr (s\<lparr>proxy_skip_one_poll := True\<rparr>)))"

definition proxy_schedule_reply_job :: "job_fn \<Rightarrow> sched \<Rightarrow> sched" where
  "proxy_schedule_reply_job f s =
     (let (p, s) = new_object (add_job_on f 0 new_batch) s;
          s = insert_batch p s;
          s = push_job True (p, 0) s
      in s\<lparr>proxy_skip_one_poll := True\<rparr>)"

text \<open>
  \<open>job()\<close>: the new batch and the control message that hands it to the proxy. The argument
  \<open>thread\<close> is the identifier of the tagged thread, if one is given.
\<close>

definition job :: "job_fn \<Rightarrow> int option \<Rightarrow> sched \<Rightarrow> (ptr \<times> sched) result" where
  "job f thread s =
     (if thread = Some (-1) then Inl Logic_error
      else bind_result (add_job f thread new_batch) (\<lambda>b. Inr (new_object b s)))"

text \<open>\<open>proxy_timer\<close>, with the identifier \<^verbatim>\<open>zmq_timers_add\<close> returned.\<close>

definition proxy_timer_add :: "int \<Rightarrow> int \<Rightarrow> job_fn \<Rightarrow> int \<Rightarrow> bool \<Rightarrow> int \<Rightarrow> sched \<Rightarrow> sched result" where
  "proxy_timer_add zmq_timer_id tid f interval squelch thread s =
     (let s = s\<lparr>timers_created := True\<rparr> in
      if zmq_timer_id = -1 then Inl Zmq_error
      else Inr (s\<lparr>timer_heap := AList.update zmq_timer_id interval (timer_heap s),
                  timer_jobs := AList.update zmq_timer_id
                    \<lparr>td_function = f, td_squelch = squelch, td_running = False, td_thread = thread\<rparr> (timer_jobs s),
                  timer_zmq_id := AList.update tid zmq_timer_id (timer_zmq_id s)\<rparr>))"

definition proxy_timer_del :: "int \<Rightarrow> sched \<Rightarrow> sched" where
  "proxy_timer_del tid s =
     (if \<not> timers_created s then s
      else case map_of (timer_zmq_id s) tid of
        None \<Rightarrow> s
      | Some z \<Rightarrow> s\<lparr>timer_heap := filter (\<lambda>(i, _). i \<noteq> z) (timer_heap s),
                     timer_zmq_id := filter (\<lambda>(i, _). i \<noteq> tid) (timer_zmq_id s)\<rparr>)"

definition queue_timer_job :: "int \<Rightarrow> sched \<Rightarrow> sched result" where
  "queue_timer_job timer_id s =
     (case map_of (timer_jobs s) timer_id of
        None \<Rightarrow> Inr s
      | Some t \<Rightarrow>
          if td_squelch t \<and> td_running t then Inr s
          else if td_thread t = -1 then Inr (emit (Call_in_proxy (td_function t)) s)
          else
            let b = add_job_on (td_function t) (td_thread t) new_batch;
                (b, s) =
                  (if td_squelch t then
                     (b\<lparr>b_complete := Some (TimerCompletion timer_id), complete_in_thread := run_in_proxy\<rparr>,
                      s\<lparr>timer_jobs := AList.update timer_id (t\<lparr>td_running := True\<rparr>) (timer_jobs s)\<rparr>)
                   else (b, s));
                (p, s) = new_object b s;
                s = insert_batch p s
            in if 0 < td_thread t then push_tagged (nat (td_thread t)) (p, 0) s
               else Inr (push_job False (p, 0) s))"

section \<open>Configuration and start\<close>

definition set_batch_threads :: "int \<Rightarrow> sched \<Rightarrow> sched result" where
  "set_batch_threads threads s =
     (if proxy_joinable s then Inl Logic_error
      else if threads < -1 then Inl Out_of_range
      else Inr (s\<lparr>batch_jobs_reserved := threads\<rparr>))"

definition set_reply_threads :: "int \<Rightarrow> sched \<Rightarrow> sched result" where
  "set_reply_threads threads s =
     (if proxy_joinable s then Inl Logic_error
      else if threads < -1 then Inl Out_of_range
      else Inr (s\<lparr>reply_jobs_reserved := threads\<rparr>))"

definition set_general_threads :: "int \<Rightarrow> sched \<Rightarrow> sched result" where
  "set_general_threads threads s =
     (if proxy_joinable s then Inl Logic_error
      else if threads < 1 then Inl Out_of_range
      else Inr (s\<lparr>general_workers := threads\<rparr>))"

definition add_tagged_thread :: "bytes \<Rightarrow> sched \<Rightarrow> (int \<times> sched) result" where
  "add_tagged_thread name s =
     (if proxy_joinable s then Inl Logic_error
      else if name = ''_proxy'' \<or> name = [] \<or> char_of (0 :: nat) \<in> set name then Inl Logic_error
      else
        let wid = length (tagged_workers s) + 1;
            run = (new_run_info wid (CHR ''t'' # show_nat wid))\<lparr>thread_joinable := True\<rparr>
        in Inr (int wid, emit (Spawn_tagged wid name) (s\<lparr>tagged_workers := tagged_workers s @ [(run, False, [])]\<rparr>)))"

text \<open>The worker counts the proxy computes when it starts.\<close>

definition proxy_reserve_workers :: "sched \<Rightarrow> sched result" where
  "proxy_reserve_workers s =
     (let s = (if batch_jobs_reserved s < 0 then s\<lparr>batch_jobs_reserved := (general_workers s + 1) div 2\<rparr> else s);
          s = (if reply_jobs_reserved s < 0 then s\<lparr>reply_jobs_reserved := (general_workers s + 7) div 8\<rparr> else s);
          n = general_workers s + batch_jobs_reserved s + reply_jobs_reserved s
              + sum_list (map (\<lambda>(_, c). int (reserved_threads c)) (categories s));
          s = s\<lparr>max_workers := n, workers_capacity := nat n\<rparr>
      in if workers s \<noteq> [] then Inl Logic_error else Inr s)"

text \<open>\<open>QUIT\<close>: no new work is started, and the idle threads are told to end.\<close>

definition proxy_control_quit :: "sched \<Rightarrow> sched" where
  "proxy_control_quit s =
     (let events = map (\<lambda>i. Send_worker (worker_routing_id (workers s ! i)) ''QUIT'') (idle_workers s)
                   @ map (\<lambda>(r, _, _). Send_worker (worker_routing_id r) ''QUIT'')
                       (filter (\<lambda>(_, busy, _). \<not> busy) (tagged_workers s))
      in s\<lparr>max_workers := 0, idle_workers := [], worker_events := worker_events s @ events\<rparr>)"

end
