(* ===== verification/Net_State.thy ===== *)
theory Net_State
  imports Scheduler Bt_Deserialize
begin

text \<open>
  The network side of the proxy's state: its settings, sockets, peers, listening addresses,
  pending connects and requests (\<^verbatim>\<open>src/arqmamq/arqmamq.h\<close>), the options it sets on its
  sockets (\<^verbatim>\<open>connections.cpp\<close>) and the messages it sends
  (\<^verbatim>\<open>arqmamq-internal.h\<close>). What zmq answers to a send or a connect is an argument of
  the operations that ask it.
\<close>

section \<open>Settings and sockets\<close>

text \<open>Times are in milliseconds.\<close>

record settings =
  HANDSHAKE_TIME :: int
  EPHEMERAL_ROUTING_ID :: bool
  MAX_MSG_SIZE :: int
  RECONNECT_INTERVAL :: int
  RECONNECT_INTERVAL_MAX :: int
  CLOSE_LINGER :: int
  CONN_HEARTBEAT :: int
  CONN_HEARTBEAT_TIMEOUT :: int
  SOCKET_UID :: int
  SOCKET_GID :: int

definition default_settings :: settings where
  "default_settings =
     \<lparr>HANDSHAKE_TIME = 10000, EPHEMERAL_ROUTING_ID = False, MAX_MSG_SIZE = 1 * 1024 * 1024,
      RECONNECT_INTERVAL = 250, RECONNECT_INTERVAL_MAX = 5000, CLOSE_LINGER = 5000,
      CONN_HEARTBEAT = 15000, CONN_HEARTBEAT_TIMEOUT = 30000, SOCKET_UID = -1, SOCKET_GID = -1\<rparr>"

definition DEFAULT_SEND_KEEP_ALIVE :: int where "DEFAULT_SEND_KEEP_ALIVE = 30000"
definition DEFAULT_CONNECT_SN_KEEP_ALIVE :: int where "DEFAULT_CONNECT_SN_KEEP_ALIVE = 300000"
definition REMOTE_CONNECT_TIMEOUT :: int where "REMOTE_CONNECT_TIMEOUT = 10000"
definition DEFAULT_REQUEST_TIMEOUT :: int where "DEFAULT_REQUEST_TIMEOUT = 15000"

datatype socket_type = ROUTER | DEALER

datatype sockopt =
    reconnect_ivl | reconnect_ivl_max | handshake_ivl | maxmsgsize | heartbeat_ivl | heartbeat_timeout
  | curve_server | curve_serverkey | curve_publickey | curve_secretkey | routing_id | zap_domain
  | router_handover | router_mandatory | so_linger

datatype optval = OptInt int | OptBool bool | OptBytes bytes

text \<open>A socket: its type, the options set on it, and the address it is bound or connected to.\<close>

record socket_t =
  so_type :: socket_type
  so_opts :: "(sockopt \<times> optval) list"
  so_endpoint :: bytes

definition new_socket :: "socket_type \<Rightarrow> socket_t" where
  "new_socket t = \<lparr>so_type = t, so_opts = [], so_endpoint = []\<rparr>"

definition so_set :: "sockopt \<Rightarrow> optval \<Rightarrow> socket_t \<Rightarrow> socket_t" where
  "so_set opt v sock = sock\<lparr>so_opts := AList.update opt v (so_opts sock)\<rparr>"

definition so_get :: "sockopt \<Rightarrow> socket_t \<Rightarrow> optval option" where
  "so_get opt sock = map_of (so_opts sock) opt"

section \<open>State\<close>

record bind_data =
  bd_curve :: bool
  bd_index :: nat
  bd_allow :: "bytes \<Rightarrow> bytes \<Rightarrow> bool \<Rightarrow> AuthLevel"

definition new_bind_data :: "bool \<Rightarrow> (bytes \<Rightarrow> bytes \<Rightarrow> bool \<Rightarrow> AuthLevel) \<Rightarrow> bind_data" where
  "new_bind_data curve allow = \<lparr>bd_curve = curve, bd_index = 0, bd_allow = allow\<rparr>"

record peer_info =
  p_pubkey :: bytes
  p_service_node :: bool
  p_auth_level :: AuthLevel
  p_conn_index :: nat
  p_route :: bytes
  p_last_activity :: int
  p_idle_expiry :: int

definition new_peer_info :: "nat \<Rightarrow> peer_info" where
  "new_peer_info i =
     \<lparr>p_pubkey = [], p_service_node = False, p_auth_level = AuthLevel_none, p_conn_index = i, p_route = [],
      p_last_activity = 0, p_idle_expiry = 0\<rparr>"

definition p_outgoing :: "peer_info \<Rightarrow> bool" where
  "p_outgoing p \<longleftrightarrow> p_route p = []"

definition p_activity :: "int \<Rightarrow> peer_info \<Rightarrow> peer_info" where
  "p_activity now p = p\<lparr>p_last_activity := now\<rparr>"

record pending_connect =
  pn_index :: nat
  pn_id :: int
  pn_time :: int
  pn_success :: nat
  pn_failure :: nat

text \<open>
  An object that a thread has allocated and whose address it passes to the proxy in a control
  message: the callbacks of the user, a task, or a set of public keys.
\<close>

datatype obj =
    ReplyCallbackObj nat
  | ConnectSuccessObj nat
  | ConnectFailureObj nat
  | QueueFailureObj nat
  | QueueFullObj nat
  | FunctionObj job_fn
  | TaskObj injected_task
  | PubkeySetObj "bytes list"

text \<open>
  The multimap \<open>peers\<close>, the maps and the sets are lists in iteration order. \<open>objects\<close> is the
  memory of the objects above; \<open>control_queue\<close> holds the control messages that have been sent
  to the proxy and not yet received, \<open>control_replies\<close> what the proxy has answered to them on its
  command socket, \<open>sent\<close> the messages it has sent on its connections, each with the
  index its socket had then, and \<open>closed\<close> the sockets it has closed.
\<close>

record net =
  n_sched :: sched
  n_settings :: settings
  n_pubkey :: bytes
  n_privkey :: bytes
  local_service_node :: bool
  sn_lookup :: "bytes \<Rightarrow> bytes"
  bind_sockets :: "(bytes \<times> bind_data) list"
  peers :: "(ConnectionID \<times> peer_info) list"
  conn_index_to_id :: "ConnectionID list"
  incoming_conn_index :: "(ConnectionID \<times> nat) list"
  next_conn_id :: int
  next_timer_id :: int
  pending_connects :: "pending_connect list"
  pending_requests :: "(bytes \<times> (int \<times> nat)) list"
  pollitems_stale :: bool
  connections :: "socket_t list"
  active_service_nodes :: "bytes list"
  proxy_shutting_down :: bool
  objects :: "(ptr \<times> obj) list"
  control_queue :: "bytes list list"
  control_replies :: "bytes list list"
  sent :: "(nat \<times> bytes list) list"
  closed :: "socket_t list"

abbreviation upd_sched :: "(sched \<Rightarrow> sched) \<Rightarrow> net \<Rightarrow> net" where
  "upd_sched f s \<equiv> s\<lparr>n_sched := f (n_sched s)\<rparr>"

section \<open>Containers\<close>

text \<open>
  \<open>equal_range\<close> and \<open>find\<close> of the multimap, by the equality of the keys; changing and erasing
  the element an iterator stands at, which is the first one that satisfies a test.
\<close>

definition equal_range :: "ConnectionID \<Rightarrow> (ConnectionID \<times> 'a) list \<Rightarrow> (ConnectionID \<times> 'a) list" where
  "equal_range c ps = filter (\<lambda>kp. cid_eq (fst kp) c) ps"

definition find_key :: "ConnectionID \<Rightarrow> (ConnectionID \<times> 'a) list \<Rightarrow> 'a option" where
  "find_key c ps = map_option snd (find (\<lambda>kp. cid_eq (fst kp) c) ps)"

fun change_first :: "('a \<Rightarrow> bool) \<Rightarrow> ('a \<Rightarrow> 'a) \<Rightarrow> 'a list \<Rightarrow> 'a list" where
  "change_first P f [] = []"
| "change_first P f (x # xs) = (if P x then f x # xs else x # change_first P f xs)"

fun erase_first :: "('a \<Rightarrow> bool) \<Rightarrow> 'a list \<Rightarrow> 'a list" where
  "erase_first P [] = []"
| "erase_first P (x # xs) = (if P x then xs else x # erase_first P xs)"

definition remove_nth :: "nat \<Rightarrow> 'a list \<Rightarrow> 'a list" where
  "remove_nth i xs = take i xs @ drop (Suc i) xs"

section \<open>Options of sockets\<close>

definition setup_external_socket :: "net \<Rightarrow> socket_t \<Rightarrow> socket_t" where
  "setup_external_socket s sock =
     (let cfg = n_settings s;
          sock = so_set reconnect_ivl (OptInt (RECONNECT_INTERVAL cfg)) sock;
          sock = so_set reconnect_ivl_max (OptInt (RECONNECT_INTERVAL_MAX cfg)) sock;
          sock = so_set handshake_ivl (OptInt (HANDSHAKE_TIME cfg)) sock;
          sock = so_set maxmsgsize (OptInt (MAX_MSG_SIZE cfg)) sock
      in if 0 < CONN_HEARTBEAT cfg then
           let sock = so_set heartbeat_ivl (OptInt (CONN_HEARTBEAT cfg)) sock
           in if 0 < CONN_HEARTBEAT_TIMEOUT cfg
              then so_set heartbeat_timeout (OptInt (CONN_HEARTBEAT_TIMEOUT cfg)) sock else sock
         else sock)"

definition setup_outgoing_socket :: "net \<Rightarrow> bytes \<Rightarrow> bool \<Rightarrow> socket_t \<Rightarrow> socket_t" where
  "setup_outgoing_socket s remote_pubkey use_ephemeral_routing_id sock =
     (let sock = setup_external_socket s sock;
          sock = (if remote_pubkey \<noteq> [] then
                    so_set curve_secretkey (OptBytes (n_privkey s))
                      (so_set curve_publickey (OptBytes (n_pubkey s))
                        (so_set curve_serverkey (OptBytes remote_pubkey) sock))
                  else sock)
      in if \<not> use_ephemeral_routing_id then so_set routing_id (OptBytes (CHR ''L'' # n_pubkey s)) sock
         else sock)"

lemma so_type_set [simp]: "so_type (so_set opt v sock) = so_type sock"
  by (simp add: so_set_def)

lemma so_type_setup [simp]:
  "so_type (setup_external_socket s sock) = so_type sock"
  "so_type (setup_outgoing_socket s pk eph sock) = so_type sock"
  by (simp_all add: setup_outgoing_socket_def setup_external_socket_def Let_def)

section \<open>Sending\<close>

text \<open>The answer of zmq to one send: done, would block, or an error with its number.\<close>

datatype send_result = Sent | Would_block | Send_error int

definition EHOSTUNREACH :: int where "EHOSTUNREACH = 113"

text \<open>
  \<open>send_message_parts\<close>, with the answers of zmq as a function of the number of the part, its
  bytes and whether more parts follow.
\<close>

fun send_message_parts_from :: "(nat \<Rightarrow> bytes \<Rightarrow> bool \<Rightarrow> send_result) \<Rightarrow> nat \<Rightarrow> bytes list \<Rightarrow> send_result" where
  "send_message_parts_from zmq_send i [] = Sent"
| "send_message_parts_from zmq_send i (msg # msgs) =
     (case zmq_send i msg (msgs \<noteq> []) of
        Sent \<Rightarrow> send_message_parts_from zmq_send (Suc i) msgs
      | r \<Rightarrow> r)"

definition send_message_parts :: "(nat \<Rightarrow> bytes \<Rightarrow> bool \<Rightarrow> send_result) \<Rightarrow> bytes list \<Rightarrow> send_result" where
  "send_message_parts zmq_send parts = send_message_parts_from zmq_send 0 parts"

text \<open>
  The parts \<open>send_routed_message\<close> and \<open>send_direct_message\<close> send. They test whether there is
  data after they have moved it into its frame, so the frame of the data is never among them.
\<close>

definition routed_message_parts :: "bytes \<Rightarrow> bytes \<Rightarrow> bytes \<Rightarrow> bytes list" where
  "routed_message_parts route msg data =
     (let msgs = [route, msg, data]; data_moved = [] :: bytes
      in if data_moved = [] then butlast msgs else msgs)"

definition direct_message_parts :: "bytes \<Rightarrow> bytes \<Rightarrow> bytes list" where
  "direct_message_parts msg data =
     (let msgs = [msg, data]; data_moved = [] :: bytes
      in if data_moved = [] then butlast msgs else msgs)"

text \<open>\<open>send_control\<close> and \<open>route_control\<close>: the parts they send.\<close>

definition send_control :: "bytes \<Rightarrow> bytes \<Rightarrow> bytes list" where
  "send_control cmd data = (if data = [] then [cmd] else [cmd, data])"

definition route_control :: "bytes \<Rightarrow> bytes \<Rightarrow> bytes \<Rightarrow> bytes list" where
  "route_control identity cmd data = identity # send_control cmd data"

definition record_sent :: "nat \<Rightarrow> bytes list \<Rightarrow> net \<Rightarrow> net" where
  "record_sent i parts s = s\<lparr>sent := sent s @ [(i, parts)]\<rparr>"

section \<open>Objects in control messages\<close>

definition serialize_object :: "obj \<Rightarrow> net \<Rightarrow> ptr \<times> net" where
  "serialize_object x s = (let p = fresh_ptr (objects s) in (p, s\<lparr>objects := objects s @ [(p, x)]\<rparr>))"

text \<open>
  \<open>deserialize_object<T>\<close> moves the object out and frees it. The argument \<open>as\<close> says whether an
  object is a \<open>T\<close>; a pointer to nothing, or to an object of another type, is undefined.
\<close>

definition deserialize_object :: "(obj \<Rightarrow> 'a option) \<Rightarrow> ptr \<Rightarrow> net \<Rightarrow> ('a \<times> net) result" where
  "deserialize_object as p s =
     (case Option.bind (map_of (objects s) p) as of
        None \<Rightarrow> Inl Undefined_behaviour
      | Some x \<Rightarrow> Inr (x, s\<lparr>objects := filter (\<lambda>(q, _). q \<noteq> p) (objects s)\<rparr>))"

text \<open>\<open>bt_deserialize<T>(view)\<close> of an integral type, which ignores what follows the integer.\<close>

definition bt_deserialize_integral :: "int_type \<Rightarrow> bytes \<Rightarrow> int result" where
  "bt_deserialize_integral T data = bind_result (bt_deserialize_int T data) (\<lambda>(i, _). Inr i)"

text \<open>A job that the proxy gives itself: \<open>job()\<close> sends the address of its batch as a control message.\<close>

definition proxy_job :: "job_fn \<Rightarrow> net \<Rightarrow> net result" where
  "proxy_job f s =
     (if proxy_shutting_down s then Inl Runtime_error
      else bind_result (job f None (n_sched s)) (\<lambda>(p, sc).
        Inr (s\<lparr>n_sched := sc, control_queue := control_queue s @ [send_control ''BATCH'' (bt_serialize_int (int p))]\<rparr>)))"

end
