(* ===== verification/Conn_Index.thy ===== *)
theory Conn_Index
  imports Net_State
begin

text \<open>
  Closing a connection (\<^verbatim>\<open>src/arqmamq/connections.cpp\<close>). Sockets are named by their index
  in the vector \<open>connections\<close>, and four other containers hold such indices; closing a socket
  shifts the ones after it, so every stored index has to follow.
\<close>

section \<open>Updating stored indices\<close>

fun update_connection_indices :: "('a \<Rightarrow> nat) \<Rightarrow> (nat \<Rightarrow> 'a \<Rightarrow> 'a) \<Rightarrow> nat \<Rightarrow> 'a list \<Rightarrow> 'a list" where
  "update_connection_indices get put index [] = []"
| "update_connection_indices get put index (x # xs) =
     (if index = get x then update_connection_indices get put index xs
      else (if index < get x then put (get x - 1) x else x) # update_connection_indices get put index xs)"

text \<open>
  A container whose elements hold an index that can be read and written, as the \<open>get_index\<close>
  argument of the template allows. What the update promises: the elements of the closed
  socket are gone, and every other element names the socket it named before.
\<close>

locale indexed =
  fixes get :: "'a \<Rightarrow> nat" and put :: "nat \<Rightarrow> 'a \<Rightarrow> 'a"
  assumes get_put [simp]: "get (put i x) = i"
begin

definition moved :: "nat \<Rightarrow> 'a \<Rightarrow> 'a" where
  "moved index x = (if index < get x then put (get x - 1) x else x)"

lemma update_eq: "update_connection_indices get put index xs = map (moved index) (filter (\<lambda>x. get x \<noteq> index) xs)"
  by (induction xs) (auto simp: moved_def)

lemma get_moved: "get x \<noteq> index \<Longrightarrow> get (moved index x) = (if index < get x then get x - 1 else get x)"
  by (simp add: moved_def)

lemma get_moved_less: "get x < n \<Longrightarrow> get x \<noteq> index \<Longrightarrow> index < n \<Longrightarrow> get (moved index x) < n - 1"
  by (auto simp: get_moved)

lemma same_socket:
  assumes "get x < length socks" "get x \<noteq> index"
  shows "remove_nth index socks ! get (moved index x) = socks ! get x"
  using assms by (auto simp: get_moved remove_nth_def nth_append min_def)

lemma moved_inj: "get x \<noteq> index \<Longrightarrow> get y \<noteq> index \<Longrightarrow> get (moved index x) = get (moved index y) \<longleftrightarrow> get x = get y"
  by (auto simp: get_moved)

text \<open>A property of the named socket holds of every element afterwards if it did before.\<close>

lemma update_all:
  assumes "\<forall>x\<in>set xs. get x < length socks \<and> P x (socks ! get x)" "index < length socks"
    and "\<And>x. P x (socks ! get x) \<Longrightarrow> P (moved index x) (socks ! get x)"
  shows "\<forall>x\<in>set (update_connection_indices get put index xs).
    get x < length (remove_nth index socks) \<and> P x (remove_nth index socks ! get x)"
proof -
  have len: "length (remove_nth index socks) = length socks - 1" using assms(2) by (simp add: remove_nth_def)
  show ?thesis unfolding update_eq
    using assms(1,3) get_moved_less [OF _ _ assms(2)] by (auto simp: len same_socket)
qed

end

abbreviation peer_index :: "ConnectionID \<times> peer_info \<Rightarrow> nat" where
  "peer_index kp \<equiv> p_conn_index (snd kp)"

abbreviation put_peer_index :: "nat \<Rightarrow> ConnectionID \<times> peer_info \<Rightarrow> ConnectionID \<times> peer_info" where
  "put_peer_index i kp \<equiv> (fst kp, (snd kp)\<lparr>p_conn_index := i\<rparr>)"

interpretation peer_ix: indexed peer_index put_peer_index
  by unfold_locales simp

interpretation connect_ix: indexed pn_index "\<lambda>i pc. pc\<lparr>pn_index := i\<rparr>"
  by unfold_locales simp

interpretation bind_ix: indexed "\<lambda>b. bd_index (snd b)" "\<lambda>i b. (fst b, (snd b)\<lparr>bd_index := i\<rparr>)"
  by unfold_locales simp

interpretation incoming_ix: indexed snd "\<lambda>i ci. (fst ci, i)"
  by unfold_locales simp

section \<open>Closing\<close>

definition proxy_close_connection :: "nat \<Rightarrow> int \<Rightarrow> net \<Rightarrow> net result" where
  "proxy_close_connection index linger s =
     (if index < length (connections s) \<and> index < length (conn_index_to_id s) then
        let sock = so_set so_linger (OptInt (if 0 < linger then linger else 0)) (connections s ! index)
        in Inr (s\<lparr>pollitems_stale := True,
             connections := remove_nth index (connections s),
             closed := closed s @ [sock],
             peers := update_connection_indices peer_index put_peer_index index (peers s),
             pending_connects := update_connection_indices pn_index (\<lambda>i pc. pc\<lparr>pn_index := i\<rparr>) index (pending_connects s),
             bind_sockets := update_connection_indices (\<lambda>b. bd_index (snd b)) (\<lambda>i b. (fst b, (snd b)\<lparr>bd_index := i\<rparr>))
               index (bind_sockets s),
             incoming_conn_index := update_connection_indices snd (\<lambda>i ci. (fst ci, i)) index (incoming_conn_index s),
             conn_index_to_id := remove_nth index (conn_index_to_id s)\<rparr>)
      else Inl Undefined_behaviour)"

section \<open>The invariant of the indices\<close>

text \<open>
  Every stored index is one of a socket of the right kind: the outgoing peers and the pending
  connects name sockets that were connected, the incoming peers, the listening addresses and
  the entries of \<open>incoming_conn_index\<close> name sockets that listen. Outgoing peers have sockets
  of their own, which \<open>conn_index_to_id\<close> knows under the key of the peer.
\<close>

definition peer_ok :: "socket_t list \<Rightarrow> ConnectionID list \<Rightarrow> ConnectionID \<times> peer_info \<Rightarrow> bool" where
  "peer_ok socks ids kp \<longleftrightarrow> peer_index kp < length socks
     \<and> so_type (socks ! peer_index kp) = (if p_outgoing (snd kp) then DEALER else ROUTER)
     \<and> (p_outgoing (snd kp) \<longrightarrow> ids ! peer_index kp = fst kp)"

definition names :: "socket_type \<Rightarrow> socket_t list \<Rightarrow> nat \<Rightarrow> bool" where
  "names t socks i \<longleftrightarrow> i < length socks \<and> so_type (socks ! i) = t"

definition out_indices :: "(ConnectionID \<times> peer_info) list \<Rightarrow> nat list" where
  "out_indices ps = map peer_index (filter (\<lambda>kp. p_outgoing (snd kp)) ps)"

definition index_inv :: "net \<Rightarrow> bool" where
  "index_inv s \<longleftrightarrow> length (conn_index_to_id s) = length (connections s)
     \<and> (\<forall>kp\<in>set (peers s). peer_ok (connections s) (conn_index_to_id s) kp)
     \<and> distinct (out_indices (peers s))
     \<and> (\<forall>pc\<in>set (pending_connects s). names DEALER (connections s) (pn_index pc))
     \<and> (\<forall>b\<in>set (bind_sockets s). names ROUTER (connections s) (bd_index (snd b)))
     \<and> (\<forall>ci\<in>set (incoming_conn_index s). names ROUTER (connections s) (snd ci))"

lemma remove_nth_pair: "length xs = length ys \<Longrightarrow> zip (remove_nth i xs) (remove_nth i ys) = remove_nth i (zip xs ys)"
  by (simp add: remove_nth_def take_zip drop_zip zip_append)

lemma length_remove_nth: "i < length xs \<Longrightarrow> length (remove_nth i xs) = length xs - 1"
  by (simp add: remove_nth_def)

lemma names_moved:
  assumes "\<forall>x\<in>set xs. names t socks (get x)" "index < length socks" "indexed get put"
  shows "\<forall>x\<in>set (update_connection_indices get put index xs). names t (remove_nth index socks) (get x)"
  using indexed.update_all [OF assms(3), of xs socks "\<lambda>x sock. so_type sock = t" index] assms(1,2)
  by (simp add: names_def)

lemma p_outgoing_moved [simp]: "p_outgoing (snd (peer_ix.moved i kp)) = p_outgoing (snd kp)" "fst (peer_ix.moved i kp) = fst kp"
  by (simp_all add: peer_ix.moved_def p_outgoing_def)

lemma out_indices_update:
  "out_indices (update_connection_indices peer_index put_peer_index i ps)
     = map (\<lambda>j. if i < j then j - 1 else j) (filter (\<lambda>j. j \<noteq> i) (out_indices ps))"
  by (induction ps) (auto simp: out_indices_def p_outgoing_def)

lemma peer_ok_moved:
  assumes "\<forall>kp\<in>set ps. peer_ok socks ids kp" "length ids = length socks" "i < length socks"
  shows "\<forall>kp\<in>set (update_connection_indices peer_index put_peer_index i ps). peer_ok (remove_nth i socks) (remove_nth i ids) kp"
proof
  fix kp assume "kp \<in> set (update_connection_indices peer_index put_peer_index i ps)"
  then obtain kp0 where kp0: "kp0 \<in> set ps" "peer_index kp0 \<noteq> i" "kp = peer_ix.moved i kp0"
    by (auto simp: peer_ix.update_eq)
  with assms(1) have "peer_ok socks ids kp0" by blast
  with kp0 assms(2,3) show "peer_ok (remove_nth i socks) (remove_nth i ids) kp"
    using peer_ix.same_socket [of kp0 socks i] peer_ix.same_socket [of kp0 ids i] peer_ix.get_moved_less [of kp0 "length socks" i]
    by (simp add: peer_ok_def length_remove_nth)
qed

text \<open>Closing a connection that exists succeeds and keeps the invariant.\<close>

lemma index_inv_close:
  assumes "index_inv s" "i < length (connections s)"
  obtains s' where "proxy_close_connection i linger s = Inr s'" "index_inv s'"
proof -
  from assms(1) have inv: "length (conn_index_to_id s) = length (connections s)"
      "\<forall>kp\<in>set (peers s). peer_ok (connections s) (conn_index_to_id s) kp" "distinct (out_indices (peers s))"
      "\<forall>pc\<in>set (pending_connects s). names DEALER (connections s) (pn_index pc)"
      "\<forall>b\<in>set (bind_sockets s). names ROUTER (connections s) (bd_index (snd b))"
      "\<forall>ci\<in>set (incoming_conn_index s). names ROUTER (connections s) (snd ci)"
    by (simp_all add: index_inv_def)
  define s' where "s' = projr (proxy_close_connection i linger s)"
  have s': "proxy_close_connection i linger s = Inr s'"
    using assms(2) inv(1) by (simp add: proxy_close_connection_def Let_def s'_def)
  have "distinct (out_indices (update_connection_indices peer_index put_peer_index i (peers s)))"
    using inv(3) unfolding out_indices_update by (auto simp: distinct_map inj_on_def)
  then have "index_inv s'"
    using assms(2) inv(1) peer_ok_moved [OF inv(2,1) assms(2)] names_moved [OF inv(4) assms(2) connect_ix.indexed_axioms]
      names_moved [OF inv(5) assms(2) bind_ix.indexed_axioms] names_moved [OF inv(6) assms(2) incoming_ix.indexed_axioms]
    unfolding s'_def by (simp add: proxy_close_connection_def Let_def index_inv_def length_remove_nth)
  with s' show thesis by (rule that)
qed

end
