(* ===== verification/Base32z.thy ===== *)
theory Base32z
  imports Bit_Codec
begin

text \<open>
  \<^verbatim>\<open>src/arqmamq/base32z.h\<close>: the lookup tables, \<open>to_base32z\<close>, \<open>is_base32z\<close> and
  \<open>from_base32z\<close>. The loops carry the unfinished group of bits in \<open>r\<close> (\<open>cur\<close>, \<^verbatim>\<open>curr\<close> in the source) and
  its size in \<open>bits\<close>, as the C++ does; both are proved to compute the reference encoding
  of \<open>Bit_Codec\<close> for groups of five bits.
\<close>

section \<open>Lookup tables\<close>

definition to_b32z_lut :: "char list" where
  "to_b32z_lut = ''ybndrfg8ejkmcpqxot1uwisza345h769''"

definition from_b32z_lut :: "nat \<Rightarrow> nat" where
  "from_b32z_lut =
     foldl (\<lambda>t c. let x = byte_val (to_b32z_lut ! c); t1 = t(x := c)
                  in if 97 \<le> x \<and> x \<le> 122 then t1(x - 97 + 65 := c) else t1)
       (\<lambda>_. 0) [0..<32]"

definition from_b32z :: "char \<Rightarrow> nat" where
  "from_b32z c = from_b32z_lut (byte_val c)"

definition to_b32z :: "nat \<Rightarrow> char" where
  "to_b32z b = to_b32z_lut ! b"

section \<open>Conversions\<close>

text \<open>
  The loop of \<open>to_base32z\<close> as the sequence of table indices it looks up: after a byte is
  shifted in, five bits can always be consumed, and a second five when that leaves at least
  five.
\<close>

fun to_base32z_loop :: "nat \<Rightarrow> nat \<Rightarrow> bytes \<Rightarrow> nat list" where
  "to_base32z_loop r bits [] = (if 0 < bits then [push_bit (5 - bits) r] else [])"
| "to_base32z_loop r bits (c # cs) =
     (let r = uint_fast16 (push_bit 8 r OR byte_val c);
          bits = bits + 3;
          d1 = drop_bit bits r;
          r = r AND mask bits
      in if 5 \<le> bits then
           let bits = bits - 5;
               d2 = drop_bit bits r;
               r = r AND mask bits
           in d1 # d2 # to_base32z_loop r bits cs
         else d1 # to_base32z_loop r bits cs)"

definition to_base32z :: "bytes \<Rightarrow> bytes" where
  "to_base32z s = map to_b32z (to_base32z_loop 0 0 s)"

definition is_base32z :: "bytes \<Rightarrow> bool" where
  "is_base32z s =
     list_all (\<lambda>c. \<not> (from_b32z c = 0 \<and> \<not> (c = CHR ''y'' \<or> c = CHR ''Y''))) s"

fun from_base32z_loop :: "nat \<Rightarrow> nat \<Rightarrow> bytes \<Rightarrow> bytes" where
  "from_base32z_loop cur bits [] = []"
| "from_base32z_loop cur bits (c # cs) =
     (let cur = uint_fast16 (push_bit 5 cur OR from_b32z c)
      in if 3 \<le> bits then
           let bits = bits - 3
           in char_of (drop_bit bits cur)
              # from_base32z_loop (cur AND mask bits) bits cs
         else from_base32z_loop cur (bits + 5) cs)"

definition from_base32z :: "bytes \<Rightarrow> bytes" where
  "from_base32z s = from_base32z_loop 0 0 s"

section \<open>The tables\<close>

text \<open>The table after its loop: both cases of a letter map to the same value.\<close>

lemma upt_32: "[0..<32] = [0, 1, 2, 3, 4, 5, 6, 7, 8, 9, 10, 11, 12, 13, 14, 15, 16, 17, 18, 19, 20, 21, 22, 23, 24, 25, 26, 27, 28, 29, 30, 31]"
  by (simp add: upt_rec)

lemma from_b32z_lut_eq:
  "from_b32z_lut =
     (\<lambda>_. 0)(
       121 := 0, 89 := 0, 98 := 1, 66 := 1, 110 := 2, 78 := 2, 100 := 3, 68 := 3,
       114 := 4, 82 := 4, 102 := 5, 70 := 5, 103 := 6, 71 := 6, 56 := 7, 101 := 8,
       69 := 8, 106 := 9, 74 := 9, 107 := 10, 75 := 10, 109 := 11, 77 := 11, 99 := 12,
       67 := 12, 112 := 13, 80 := 13, 113 := 14, 81 := 14, 120 := 15, 88 := 15, 111 := 16,
       79 := 16, 116 := 17, 84 := 17, 49 := 18, 117 := 19, 85 := 19, 119 := 20, 87 := 20,
       105 := 21, 73 := 21, 115 := 22, 83 := 22, 122 := 23, 90 := 23, 97 := 24, 65 := 24,
       51 := 25, 52 := 26, 53 := 27, 104 := 28, 72 := 28, 55 := 29, 54 := 30, 57 := 31)"
  by (simp add: from_b32z_lut_def to_b32z_lut_def upt_32 Let_def)

lemma from_b32z_alphabet: "map from_b32z to_b32z_lut = [0..<32]"
  by (simp add: from_b32z_def from_b32z_lut_eq to_b32z_lut_def upt_32)

lemma from_b32z_upper_alphabet: "map from_b32z ''YBNDRFG8EJKMCPQXOT1UWISZA345H769'' = [0..<32]"
  by (simp add: from_b32z_def from_b32z_lut_eq upt_32)

lemma from_b32z_slash: "from_b32z (CHR ''/'') = 0"
  by (simp add: from_b32z_def from_b32z_lut_eq)

lemma length_to_b32z_lut [simp]: "length to_b32z_lut = 32"
  by (simp add: to_b32z_lut_def)

lemma from_to_b32z [simp]: "d < 32 \<Longrightarrow> from_b32z (to_b32z d) = d"
  using arg_cong [OF from_b32z_alphabet, of "\<lambda>xs. xs ! d"] by (simp add: to_b32z_def)

lemma from_b32z_lut_less: "from_b32z_lut n < 32"
proof -
  let ?f = "\<lambda>t c. let x = byte_val (to_b32z_lut ! c); t1 = t(x := c)
                  in if 97 \<le> x \<and> x \<le> 122 then t1(x - 97 + 65 := c) else t1"
  have "foldl ?f t xs n < 32" if "\<And>m. t m < 32" "set xs \<subseteq> {..<32}" for t and xs :: "nat list"
    using that by (induction xs arbitrary: t) (auto simp: Let_def)
  from this [of "\<lambda>_. 0" "[0..<32]"] show ?thesis by (simp add: from_b32z_lut_def lessThan_atLeast0)
qed

lemma from_b32z_less: "from_b32z c < 32"
  by (simp add: from_b32z_def from_b32z_lut_less)

lemma to_b32z_valid:
  assumes "d < 32"
  shows "\<not> (from_b32z (to_b32z d) = 0 \<and> \<not> (to_b32z d = CHR ''y'' \<or> to_b32z d = CHR ''Y''))"
proof (cases "d = 0")
  case True
  then show ?thesis by (simp add: to_b32z_def to_b32z_lut_def)
qed (use assms in simp)

section \<open>Encoding\<close>

lemma to_base32z_loop_bits:
  "length rs < 5 \<Longrightarrow> to_base32z_loop (val_of rs) (length rs) s
     = map val_of (chunks 5 (pad_bits 5 (rs @ byte_bits s)))"
proof (induction s arbitrary: rs)
  case Nil
  then show ?case
    by (cases "rs = []") (simp_all add: pad_bits_short chunks_exact push_bit_val_of)
next
  case (Cons c s)
  obtain a b where ab: "rs @ bits_of 8 (byte_val c) = a @ b" "length a = 5" "length b = length rs + 3"
    using split_at [of 5 "rs @ bits_of 8 (byte_val c)"] by auto
  have r: "uint_fast16 (push_bit 8 (val_of rs) OR byte_val c) = val_of (a @ b)"
    using Cons.prems ab by (simp add: push_or_val_of take_bit_val_of flip: ab(1))
  have goal: "rs @ byte_bits (c # s) = a @ b @ byte_bits s"
    using ab(1) by simp
  show ?case
  proof (cases "5 \<le> length b")
    case True
    then obtain b1 b2 where b: "b = b1 @ b2" "length b1 = 5" "length b2 = length rs - 2"
      using split_at [of 5 b] ab(3) by auto
    have "to_base32z_loop (val_of b2) (length b2) s = map val_of (chunks 5 (pad_bits 5 (b2 @ byte_bits s)))"
      by (rule Cons.IH) (use b Cons.prems in simp)
    moreover have "length rs + 3 - 5 = length b2" using b by simp
    ultimately show ?thesis
      unfolding goal to_base32z_loop.simps r Let_def
      using True ab(2,3) b by (simp add: drop_bit_val_of mask_val_of pad_bits_append)
  next
    case False
    have "to_base32z_loop (val_of b) (length b) s = map val_of (chunks 5 (pad_bits 5 (b @ byte_bits s)))"
      by (rule Cons.IH) (use False in simp)
    then show ?thesis
      unfolding goal to_base32z_loop.simps r Let_def
      using False ab(2,3) by (simp add: drop_bit_val_of mask_val_of pad_bits_append)
  qed
qed

lemma to_base32z_digits: "to_base32z s = map to_b32z (encode_digits 5 s)"
  using to_base32z_loop_bits [of "[]" s] by (simp add: to_base32z_def encode_digits_def)

lemma is_base32z_to_base32z [simp]: "is_base32z (to_base32z s)"
  using encode_digits_less [of _ 5 s] to_b32z_valid
  by (fastforce simp: is_base32z_def to_base32z_digits list_all_iff)

section \<open>Decoding\<close>

lemma from_base32z_loop_bits:
  "length rs < 8 \<Longrightarrow> from_base32z_loop (val_of rs) (length rs) t
     = map (\<lambda>bs. char_of (val_of bs)) (chunks 8 (rs @ concat (map (bits_of 5) (map from_b32z t))))"
proof (induction t arbitrary: rs)
  case (Cons c t)
  let ?ws = "rs @ bits_of 5 (from_b32z c)"
  have r: "uint_fast16 (push_bit 5 (val_of rs) OR from_b32z c) = val_of ?ws"
    using Cons.prems from_b32z_less [of c] by (simp add: push_or_val_of take_bit_val_of)
  have goal: "rs @ concat (map (bits_of 5) (map from_b32z (c # t)))
      = ?ws @ concat (map (bits_of 5) (map from_b32z t))"
    by simp
  show ?case
  proof (cases "3 \<le> length rs")
    case True
    then obtain a b where ab: "?ws = a @ b" "length a = 8" "length b = length rs - 3"
      using split_at [of 8 ?ws] by auto
    have "from_base32z_loop (val_of b) (length b) t
        = map (\<lambda>bs. char_of (val_of bs)) (chunks 8 (b @ concat (map (bits_of 5) (map from_b32z t))))"
      by (rule Cons.IH) (use ab Cons.prems in simp)
    then show ?thesis
      unfolding goal ab(1) from_base32z_loop.simps r Let_def
      using True ab(2,3) by (simp add: drop_bit_val_of mask_val_of)
  next
    case False
    have "from_base32z_loop (val_of ?ws) (length ?ws) t
        = map (\<lambda>bs. char_of (val_of bs)) (chunks 8 (?ws @ concat (map (bits_of 5) (map from_b32z t))))"
      by (rule Cons.IH) (use False in simp)
    then show ?thesis
      unfolding goal from_base32z_loop.simps r Let_def using False by simp
  qed
qed simp

lemma from_base32z_digits: "from_base32z t = decode_digits 5 (map from_b32z t)"
  using from_base32z_loop_bits [of "[]" t] by (simp add: from_base32z_def decode_digits_def)

interpretation base32z: text_codec 5 to_b32z from_b32z "\<lambda>_. True" is_base32z to_base32z "\<lambda>t. Inr (from_base32z t)"
  by unfold_locales (simp_all add: to_base32z_digits from_base32z_digits flip: to_base32z_digits)

lemma from_base32z_to_base32z [simp]: "from_base32z (to_base32z s) = s"
  using base32z.dec_enc by simp

lemma length_to_base32z: "length (to_base32z s) = (8 * length s + 4) div 5"
  using base32z.length_significant_enc [of s] by simp

lemma length_from_base32z: "length (from_base32z t) = 5 * length t div 8"
  by (simp add: from_base32z_digits length_decode_digits)

end
