(* ===== verification/Base64.thy ===== *)
theory Base64
  imports Bit_Codec
begin

text \<open>
  \<^verbatim>\<open>src/arqmamq/base64.h\<close>: the lookup tables, \<open>to_base64\<close> with its padding,
  \<open>is_base64\<close> and \<open>from_base64\<close>, over groups of six bits.
\<close>

section \<open>Lookup tables\<close>

definition from_b64_lut :: "nat \<Rightarrow> nat" where
  "from_b64_lut =
     (let t0 = (\<lambda>_. 0);
          t1 = foldl (\<lambda>t c. t(65 + c := c)) t0 [0..<26];
          t2 = foldl (\<lambda>t c. t(97 + c := 26 + c)) t1 [0..<26];
          t3 = foldl (\<lambda>t c. t(48 + c := 52 + c)) t2 [0..<10]
      in t3(byte_val (CHR ''+'') := 62, byte_val (CHR ''/'') := 63))"

definition to_b64_lut :: "nat \<Rightarrow> char" where
  "to_b64_lut =
     (let t0 = (\<lambda>_. char_of (0 :: nat));
          t1 = foldl (\<lambda>t c. t(c := char_of (65 + c))) t0 [0..<26];
          t2 = foldl (\<lambda>t c. t(26 + c := char_of (97 + c))) t1 [0..<26];
          t3 = foldl (\<lambda>t c. t(52 + c := char_of (48 + c))) t2 [0..<10]
      in t3(62 := CHR ''+'', 63 := CHR ''/''))"

definition from_b64 :: "char \<Rightarrow> nat" where
  "from_b64 c = from_b64_lut (byte_val c)"

definition to_b64 :: "nat \<Rightarrow> char" where
  "to_b64 b = to_b64_lut b"

section \<open>Conversions\<close>

text \<open>
  The loop of \<open>to_base64\<close>: the table indices it looks up, and the number of \<open>=\<close> it
  writes after them.
\<close>

fun to_base64_loop :: "nat \<Rightarrow> nat \<Rightarrow> bytes \<Rightarrow> nat list \<times> nat" where
  "to_base64_loop r bits [] =
     (if bits = 2 then ([push_bit 4 r], 2)
      else if bits = 4 then ([push_bit 2 r], 1)
      else ([], 0))"
| "to_base64_loop r bits (c # cs) =
     (let r = uint_fast16 (push_bit 8 r OR byte_val c);
          bits = bits + 2;
          d1 = drop_bit bits r;
          r = r AND mask bits
      in if bits = 6 then
           let (ds, n) = to_base64_loop 0 0 cs in (d1 # r # ds, n)
         else
           let (ds, n) = to_base64_loop r bits cs in (d1 # ds, n))"

definition to_base64 :: "bytes \<Rightarrow> bytes" where
  "to_base64 s = (let (ds, n) = to_base64_loop 0 0 s in map to_b64 ds @ replicate n (CHR ''=''))"

text \<open>
  The iterator arithmetic at the start of \<open>is_base64\<close>: on a non-empty range whose length
  is a multiple of four, one trailing \<open>=\<close> is dropped and then, if there is another before
  it, that one too.
\<close>

definition strip_b64_padding :: "bytes \<Rightarrow> bytes" where
  "strip_b64_padding s =
     (if s \<noteq> [] \<and> length s mod 4 = 0 then
        if last s = CHR ''='' then
          if last (butlast s) = CHR ''='' then butlast (butlast s) else butlast s
        else s
      else s)"

definition is_base64 :: "bytes \<Rightarrow> bool" where
  "is_base64 s = list_all (\<lambda>c. \<not> (from_b64 c = 0 \<and> c \<noteq> CHR ''A'')) (strip_b64_padding s)"

fun from_base64_loop :: "nat \<Rightarrow> nat \<Rightarrow> bytes \<Rightarrow> bytes" where
  "from_base64_loop cur bits [] = []"
| "from_base64_loop cur bits (c # cs) =
     (if c = CHR ''='' then from_base64_loop cur bits cs
      else
        let cur = uint_fast16 (push_bit 6 cur OR from_b64 c)
        in if bits = 0 then from_base64_loop cur 6 cs
           else
             let bits = bits - 2
             in char_of (drop_bit bits cur)
                # from_base64_loop (cur AND mask bits) bits cs)"

definition from_base64 :: "bytes \<Rightarrow> bytes" where
  "from_base64 s = from_base64_loop 0 0 s"

section \<open>The tables\<close>

lemma to_b64_eq:
  "to_b64 d =
     (if d = 63 then CHR ''/'' else if d = 62 then CHR ''+''
      else if 52 \<le> d \<and> d < 62 then char_of (d - 4)
      else if 26 \<le> d \<and> d < 52 then char_of (d + 71)
      else if d < 26 then char_of (d + 65) else char_of (0 :: nat))"
  using foldl_update_range [of 0 "\<lambda>c. char_of (65 + c)" "\<lambda>_. char_of (0 :: nat)" 26]
  by (simp add: to_b64_def to_b64_lut_def foldl_update_range)

lemma from_b64_eq:
  "from_b64 c =
     (let n = byte_val c
      in if n = 47 then 63 else if n = 43 then 62
         else if 48 \<le> n \<and> n < 58 then n + 4
         else if 97 \<le> n \<and> n < 123 then n - 71
         else if 65 \<le> n \<and> n < 91 then n - 65 else 0)"
  by (simp add: from_b64_def from_b64_lut_def foldl_update_range Let_def)

lemma from_to_b64 [simp]: "d < 64 \<Longrightarrow> from_b64 (to_b64 d) = d"
  by (auto simp: to_b64_eq from_b64_eq Let_def)

lemma to_b64_zero: "to_b64 0 = CHR ''A''"
  by (simp add: to_b64_eq char_of_def bit_0)

lemma from_b64_eq_sign [simp]: "from_b64 (CHR ''='') = 0"
  by (simp add: from_b64_eq)

lemma to_b64_ne_pad [simp]: "d < 64 \<Longrightarrow> to_b64 d \<noteq> CHR ''=''"
proof
  assume "d < 64" and pad: "to_b64 d = CHR ''=''"
  then have "d = 0" using from_to_b64 [of d] by simp
  with pad show False by (simp add: to_b64_zero)
qed

lemma from_b64_less: "from_b64 c < 64"
  by (auto simp: from_b64_eq Let_def)

lemma to_b64_valid: "d < 64 \<Longrightarrow> \<not> (from_b64 (to_b64 d) = 0 \<and> to_b64 d \<noteq> CHR ''A'')"
  by (cases "d = 0") (simp_all add: to_b64_zero)

section \<open>Encoding\<close>

definition b64_pad_count :: "nat \<Rightarrow> nat" where
  "b64_pad_count n = (if n mod 6 = 2 then 2 else if n mod 6 = 4 then 1 else 0)"

lemma to_base64_loop_bits:
  "length rs \<in> {0, 2, 4} \<Longrightarrow> to_base64_loop (val_of rs) (length rs) s
     = (map val_of (chunks 6 (pad_bits 6 (rs @ byte_bits s))), b64_pad_count (length rs + 8 * length s))"
proof (induction s arbitrary: rs)
  case Nil
  then show ?case
    by (cases "rs = []") (auto simp: pad_bits_short chunks_exact push_bit_val_of b64_pad_count_def)
next
  case (Cons c s)
  obtain a b where ab: "rs @ bits_of 8 (byte_val c) = a @ b" "length a = 6" "length b = length rs + 2"
    using split_at [of 6 "rs @ bits_of 8 (byte_val c)"] by auto
  have r: "uint_fast16 (push_bit 8 (val_of rs) OR byte_val c) = val_of (a @ b)"
    using Cons.prems ab by (auto simp: push_or_val_of take_bit_val_of simp flip: ab(1))
  have goal: "rs @ byte_bits (c # s) = a @ b @ byte_bits s"
    using ab(1) by simp
  show ?case
  proof (cases "length b = 6")
    case True
    have "to_base64_loop 0 0 s
        = (map val_of (chunks 6 (pad_bits 6 (byte_bits s))), b64_pad_count (8 * length s))"
      using Cons.IH [of "[]"] by simp
    moreover have "(4 + (8 + 8 * length s)) mod 6 = 8 * length s mod 6" by presburger
    ultimately show ?thesis
      unfolding goal to_base64_loop.simps r Let_def
      using True ab(2,3)
      by (simp add: drop_bit_val_of mask_val_of pad_bits_append b64_pad_count_def)
  next
    case False
    have IH: "to_base64_loop (val_of b) (length b) s
        = (map val_of (chunks 6 (pad_bits 6 (b @ byte_bits s))), b64_pad_count (length b + 8 * length s))"
      by (rule Cons.IH) (use False ab(3) Cons.prems in auto)
    have "length rs + 8 * length (c # s) = length b + 8 * length s + 6" using ab(3) by simp
    then have "b64_pad_count (length rs + 8 * length (c # s)) = b64_pad_count (length b + 8 * length s)"
      by (simp only: b64_pad_count_def mod_add_self2)
    with IH show ?thesis
      unfolding goal to_base64_loop.simps r Let_def
      using False ab(2,3) by (simp add: drop_bit_val_of mask_val_of pad_bits_append)
  qed
qed

lemma to_base64_digits:
  "to_base64 s = map to_b64 (encode_digits 6 s) @ replicate (b64_pad_count (8 * length s)) (CHR ''='')"
  using to_base64_loop_bits [of "[]" s] by (simp add: to_base64_def encode_digits_def)

lemma encode_digits_6: "d \<in> set (encode_digits 6 s) \<Longrightarrow> d < 64"
  using encode_digits_less [of d 6 s] by simp

lemma filter_to_base64: "filter (\<lambda>c. c \<noteq> CHR ''='') (to_base64 s) = map to_b64 (encode_digits 6 s)"
proof -
  have "c \<noteq> CHR ''=''" if "c \<in> set (map to_b64 (encode_digits 6 s))" for c
    using that by (auto dest: encode_digits_6)
  then have "filter (\<lambda>c. c \<noteq> CHR ''='') (map to_b64 (encode_digits 6 s)) = map to_b64 (encode_digits 6 s)"
    by (simp only: filter_id_conv) blast
  then show ?thesis by (simp add: to_base64_digits)
qed

lemma length_to_base64: "length (to_base64 s) = (length s + 2) div 3 * 4"
proof -
  define q r where "q = length s div 3" and "r = length s mod 3"
  then have s: "length s = 3 * q + r" and "r < 3" by simp_all
  then consider "length s = 3 * q" | "length s = 3 * q + 1" | "length s = 3 * q + 2" by linarith
  then have "(8 * length s + 5) div 6 + b64_pad_count (8 * length s) = (length s + 2) div 3 * 4"
    by cases (simp_all add: b64_pad_count_def, presburger+)
  then show ?thesis by (simp add: to_base64_digits length_encode_digits)
qed

lemma strip_b64_padding_encoded:
  assumes "n \<le> 2" "(length ds + n) mod 4 = 0" "n = 0 \<or> ds \<noteq> []" "\<And>c. c \<in> set ds \<Longrightarrow> c \<noteq> CHR ''=''"
  shows "strip_b64_padding (ds @ replicate n (CHR ''='')) = ds"
proof -
  consider "n = 0" | "n = 1" | "n = 2" using assms(1) by linarith
  then show ?thesis
  proof cases
    case 1
    then show ?thesis using assms(4) [of "last ds"] by (simp add: strip_b64_padding_def)
  next
    case 2
    then show ?thesis using assms(2-3) assms(4) [of "last ds"] by (simp add: strip_b64_padding_def)
  next
    case 3
    then have "replicate n (CHR ''='') = [CHR ''='', CHR ''='']" by (simp add: numeral_2_eq_2)
    then show ?thesis using assms(2) 3 by (simp add: strip_b64_padding_def butlast_append)
  qed
qed

lemma is_base64_to_base64 [simp]: "is_base64 (to_base64 s)"
proof -
  let ?ds = "map to_b64 (encode_digits 6 s)" and ?n = "b64_pad_count (8 * length s)"
  have ds: "c \<noteq> CHR ''='' \<and> \<not> (from_b64 c = 0 \<and> c \<noteq> CHR ''A'')" if c: "c \<in> set ?ds" for c
  proof -
    obtain d where "d < 64" "c = to_b64 d" using c encode_digits_6 unfolding set_map by blast
    then show ?thesis using to_b64_valid [of d] to_b64_ne_pad [of d] by (simp only: simp_thms)
  qed
  have "length ?ds + ?n = (length s + 2) div 3 * 4"
    using length_to_base64 [of s] unfolding to_base64_digits length_append length_replicate .
  then have "(length ?ds + ?n) mod 4 = 0" by (simp only: mod_mult_self2_is_0)
  moreover have "?n = 0 \<or> ?ds \<noteq> []"
  proof (cases "s = []")
    case True
    then show ?thesis by (simp add: b64_pad_count_def)
  next
    case False
    then have "1 \<le> length s" by (simp add: Suc_le_eq)
    then have "1 \<le> length (encode_digits 6 s)" by (simp add: length_encode_digits)
    then show ?thesis by auto
  qed
  moreover have "?n \<le> 2" by (simp add: b64_pad_count_def)
  ultimately have "strip_b64_padding (to_base64 s) = ?ds"
    unfolding to_base64_digits using ds by (intro strip_b64_padding_encoded) blast+
  with ds show ?thesis unfolding is_base64_def list_all_iff by metis
qed

section \<open>Decoding\<close>

lemma from_base64_loop_bits:
  "length rs \<in> {0, 2, 4, 6} \<Longrightarrow> from_base64_loop (val_of rs) (length rs) t
     = map (\<lambda>bs. char_of (val_of bs))
         (chunks 8 (rs @ concat (map (bits_of 6) (map from_b64 (filter (\<lambda>c. c \<noteq> CHR ''='') t)))))"
proof (induction t arbitrary: rs)
  case Nil
  then show ?case by (auto simp: chunks_short)
next
  case (Cons c t)
  let ?rest = "concat (map (bits_of 6) (map from_b64 (filter (\<lambda>c. c \<noteq> CHR ''='') t)))"
  let ?ws = "rs @ bits_of 6 (from_b64 c)"
  show ?case
  proof (cases "c = CHR ''=''")
    case True
    with Cons show ?thesis by simp
  next
    case c: False
    have r: "uint_fast16 (push_bit 6 (val_of rs) OR from_b64 c) = val_of ?ws"
      using Cons.prems from_b64_less [of c] by (auto simp: push_or_val_of take_bit_val_of)
    have goal: "rs @ concat (map (bits_of 6) (map from_b64 (filter (\<lambda>c. c \<noteq> CHR ''='') (c # t)))) = ?ws @ ?rest"
      using c by simp
    show ?thesis
    proof (cases "length rs = 0")
      case True
      have "from_base64_loop (val_of ?ws) (length ?ws) t = map (\<lambda>bs. char_of (val_of bs)) (chunks 8 (?ws @ ?rest))"
        by (rule Cons.IH) (use True in simp)
      then show ?thesis
        unfolding goal from_base64_loop.simps r Let_def using True c by simp
    next
      case False
      then obtain a b where ab: "?ws = a @ b" "length a = 8" "length b = length rs - 2"
        using split_at [of 8 ?ws] Cons.prems by auto
      have "from_base64_loop (val_of b) (length b) t = map (\<lambda>bs. char_of (val_of bs)) (chunks 8 (b @ ?rest))"
        by (rule Cons.IH) (use ab Cons.prems False in auto)
      then show ?thesis
        unfolding goal ab(1) from_base64_loop.simps r Let_def
        using False c ab(2,3) by (simp add: drop_bit_val_of mask_val_of)
    qed
  qed
qed

lemma from_base64_digits:
  "from_base64 t = decode_digits 6 (map from_b64 (filter (\<lambda>c. c \<noteq> CHR ''='') t))"
  using from_base64_loop_bits [of "[]" t] by (simp add: from_base64_def decode_digits_def)

interpretation base64: text_codec 6 to_b64 from_b64 "\<lambda>c. c \<noteq> CHR ''=''" is_base64 to_base64 "\<lambda>t. Inr (from_base64 t)"
  by unfold_locales (simp_all add: filter_to_base64 from_base64_digits)

lemma from_base64_to_base64 [simp]: "from_base64 (to_base64 s) = s"
  using base64.dec_enc by simp

end
