(* ===== verification/Decimal.thy ===== *)
theory Decimal
  imports Prelude
begin

text \<open>
  Reading decimal digits: the number a string of digits denotes, and its inverse relation to
  printing.
\<close>

section \<open>Decimal numbers\<close>

definition digits_from :: "nat \<Rightarrow> bytes \<Rightarrow> nat" where
  "digits_from a s = foldl (\<lambda>a c. a * 10 + digit_val c) a s"

abbreviation digits_val :: "bytes \<Rightarrow> nat" where
  "digits_val s \<equiv> digits_from 0 s"

lemma digits_from_Nil [simp]: "digits_from a [] = a"
  by (simp add: digits_from_def)

lemma digits_from_Cons [simp]: "digits_from a (c # s) = digits_from (a * 10 + digit_val c) s"
  by (simp add: digits_from_def)

lemma digits_from_snoc [simp]: "digits_from a (s @ [c]) = digits_from a s * 10 + digit_val c"
  by (simp add: digits_from_def)

lemma digits_from_ge: "a \<le> digits_from a s"
proof (induction s arbitrary: a)
  case (Cons c s)
  have "a \<le> a * 10 + digit_val c" by simp
  also have "\<dots> \<le> digits_from (a * 10 + digit_val c) s" by (rule Cons.IH)
  finally show ?case by simp
qed simp

lemma digits_val_show_nat [simp]: "digits_val (show_nat n) = n"
proof (induction n rule: show_nat.induct)
  case (1 n)
  then show ?case by (cases "n < 10") (simp_all add: show_nat_small show_nat_step)
qed

lemma takeWhile_show_nat:
  "r = [] \<or> \<not> is_digit (hd r) \<Longrightarrow> takeWhile is_digit (show_nat n @ r) = show_nat n \<and> dropWhile is_digit (show_nat n @ r) = r"
  using show_nat_digits [of _ n]
  by (cases r) (auto simp: takeWhile_append2 dropWhile_append2)

end
