(* ===== verification/Address.thy ===== *)
theory Address
  imports Hex Base32z Base64 Decimal
begin

text \<open>
  \<^verbatim>\<open>src/arqmamq/address.h\<close> and \<^verbatim>\<open>address.cpp\<close>: the parsed form of a connection address, the
  parser (the constructor from a string), the printers \<open>full_address\<close>, \<open>zmq_address\<close> and
  \<open>qr_address\<close>, and the equality of addresses.
\<close>

section \<open>Addresses\<close>

datatype proto = Tcp | Tcp_curve | Ipc | Ipc_curve

datatype encoding = Enc_hex | Enc_base32z | Enc_base64 | Enc_BASE32Z

record address =
  a_protocol :: proto
  a_host :: bytes
  a_port :: "16 word"
  a_socket :: bytes
  a_pubkey :: bytes

definition default_address :: address where
  "default_address = \<lparr>a_protocol = Tcp, a_host = [], a_port = 0, a_socket = [], a_pubkey = []\<rparr>"

definition is_curve :: "address \<Rightarrow> bool" where
  "is_curve a = (a_protocol a = Tcp_curve \<or> a_protocol a = Ipc_curve)"

definition is_tcp :: "address \<Rightarrow> bool" where
  "is_tcp a = (a_protocol a = Tcp \<or> a_protocol a = Tcp_curve)"

definition is_ipc :: "address \<Rightarrow> bool" where
  "is_ipc a = (\<not> is_tcp a)"

section \<open>Parsing\<close>

definition enc_length :: "encoding \<Rightarrow> nat" where
  "enc_length enc = (if enc = Enc_hex then 64 else if enc = Enc_base64 then 43 else 52)"

text \<open>\<open>decode_pubkey\<close>: the key and the rest of the view.\<close>

definition decode_pubkey :: "bytes \<Rightarrow> bool \<Rightarrow> (bytes \<times> bytes) result" where
  "decode_pubkey inp qr =
     (if 64 \<le> length inp \<and> is_hex (take 64 inp) then
        bind_result (from_hex (take 64 inp)) (\<lambda>pubkey. Inr (pubkey, drop 64 inp))
      else if 52 \<le> length inp \<and> is_base32z (take 52 inp) then
        Inr (from_base32z (take 52 inp), drop 52 inp)
      else if \<not> qr \<and> 43 \<le> length inp \<and> is_base64 (take 43 inp) then
        let rest = drop 43 inp
        in Inr (from_base64 (take 43 inp), if rest \<noteq> [] \<and> hd rest = CHR ''='' then tl rest else rest)
      else Inl Invalid_argument)"

definition ipv6_chars :: bytes where
  "ipv6_chars = '':.1234567890abcdefABCDEF''"

definition lower_case :: "char \<Rightarrow> char" where
  "lower_case c = (if CHR ''A'' \<le> c \<and> c \<le> CHR ''Z'' then char_of (byte_val c - 65 + 97) else c)"

definition upper_case :: "char \<Rightarrow> char" where
  "upper_case c = (if CHR ''a'' \<le> c \<and> c \<le> CHR ''z'' then char_of (byte_val c - 97 + 65) else c)"

text \<open>
  The host part of \<open>parse_tcp\<close>: a bracketed IPv6 address (with \<open>$\<close> for the brackets in the QR
  form), or everything before the first colon.
\<close>

definition parse_host :: "bytes \<Rightarrow> bool \<Rightarrow> (bytes \<times> bytes) result" where
  "parse_host addr qr =
     (if addr = [] then Inl Undefined_behaviour
      else if hd addr = CHR ''['' \<or> qr \<and> hd addr = CHR ''$'' then
        let inner = takeWhile (\<lambda>c. c \<in> set ipv6_chars) (tl addr);
            rest = dropWhile (\<lambda>c. c \<in> set ipv6_chars) (tl addr)
        in if rest = [] then Inl Invalid_argument
           else if \<not> (hd rest = CHR '']'' \<or> qr \<and> hd rest = CHR ''$'') then Inl Invalid_argument
           else
             let open_c = (if qr \<and> hd addr = CHR ''$'' then CHR ''['' else hd addr);
                 close_c = (if qr \<and> hd rest = CHR ''$'' then CHR '']'' else hd rest)
             in Inr (open_c # inner @ [close_c], tl rest)
      else
        let hst = takeWhile (\<lambda>c. c \<noteq> CHR '':'') addr;
            rest = dropWhile (\<lambda>c. c \<noteq> CHR '':'') addr
        in if rest = [] then Inl Invalid_argument
           else if hst = [] then Inl Invalid_argument
           else Inr (hst, rest))"

text \<open>
  \<^verbatim>\<open>std::stoi\<close> on a string of digits: the value, or \<^verbatim>\<open>std::out_of_range\<close> when it is not an
  \<^verbatim>\<open>int\<close>.
\<close>

definition stoi_digits :: "bytes \<Rightarrow> nat result" where
  "stoi_digits s =
     (let n = digits_val s
      in if n \<le> 2147483647 then Inr n else Inl Out_of_range)"

definition parse_port :: "bytes \<Rightarrow> (16 word \<times> bytes) result" where
  "parse_port addr =
     (if length addr < 2 \<or> hd addr \<noteq> CHR '':'' then Inl Invalid_argument
      else
        let addr = tl addr;
            digits = takeWhile is_digit addr;
            rest = dropWhile is_digit addr
        in if digits = [] then Inl Invalid_argument
           else bind_result (stoi_digits digits) (\<lambda>port_int.
             if port_int = 0 then Inl Invalid_argument
             else if port_int > 65535 then Inl Invalid_argument
             else Inr (word_of_nat port_int, rest)))"

text \<open>\<open>parse_tcp\<close>: host, port and public key; it leaves nothing of the view.\<close>

definition parse_tcp :: "bytes \<Rightarrow> bool \<Rightarrow> bool \<Rightarrow> (bytes \<times> 16 word \<times> bytes) result" where
  "parse_tcp addr qr expect_pubkey =
     bind_result (parse_host addr qr) (\<lambda>(hst, addr).
       let hst = (if qr then map lower_case hst else hst)
       in bind_result (parse_port addr) (\<lambda>(prt, addr).
            if expect_pubkey then
              if length addr < 1 + enc_length (if qr then Enc_base32z else Enc_base64) \<or> hd addr \<noteq> CHR ''/''
              then Inl Invalid_argument
              else bind_result (decode_pubkey (tl addr) qr) (\<lambda>(pk, addr).
                if addr \<noteq> [] then Inl Invalid_argument else Inr (hst, prt, pk))
            else if addr \<noteq> [] then Inl Invalid_argument
            else Inr (hst, prt, [])))"

text \<open>\<open>parse_unix\<close>: socket path and public key; it consumes the whole view.\<close>

definition parse_unix :: "bytes \<Rightarrow> bool \<Rightarrow> (bytes \<times> bytes) result" where
  "parse_unix addr expect_pubkey =
     (if expect_pubkey then
        let n = length addr;
            b64_len = (if 0 < n \<and> last addr = CHR ''='' then 44 else 43)
        in if 64 < n \<and> addr ! (n - 65) = CHR ''/'' \<and> is_hex (drop (n - 64) addr) then
             bind_result (from_hex (drop (n - 64) addr)) (\<lambda>pk. Inr (take (n - 65) addr, pk))
           else if 52 < n \<and> addr ! (n - 53) = CHR ''/'' \<and> is_base32z (drop (n - 52) addr) then
             Inr (take (n - 53) addr, from_base32z (drop (n - 52) addr))
           else if b64_len < n \<and> addr ! (n - b64_len - 1) = CHR ''/'' \<and> is_base64 (drop (n - b64_len) addr) then
             Inr (take (n - b64_len - 1) addr, from_base64 (drop (n - b64_len) addr))
           else Inl Invalid_argument
      else Inr (addr, []))"

text \<open>\<^verbatim>\<open>std::string_view::find\<close> of a non-empty pattern.\<close>

fun find_sub :: "bytes \<Rightarrow> bytes \<Rightarrow> nat option" where
  "find_sub pat [] = None"
| "find_sub pat (c # s) =
     (if take (length pat) (c # s) = pat then Some 0 else map_option Suc (find_sub pat s))"

definition qr_char :: "char \<Rightarrow> bool" where
  "qr_char c = (CHR ''A'' \<le> c \<and> c \<le> CHR ''Z'' \<or> is_digit c \<or> c \<in> set ''$:/.-'')"

definition parse_proto :: "bytes \<Rightarrow> (proto \<times> bool) result" where
  "parse_proto pro =
     (if pro = ''tcp'' then Inr (Tcp, False)
      else if pro = ''tcp+curve'' \<or> pro = ''curve'' then Inr (Tcp_curve, False)
      else if pro = ''ipc'' then Inr (Ipc, False)
      else if pro = ''ipc+curve'' then Inr (Ipc_curve, False)
      else if pro = ''TCP'' then Inr (Tcp, True)
      else if pro = ''CURVE'' then Inr (Tcp_curve, True)
      else Inl Invalid_argument)"

text \<open>The end of the constructor, once the protocol is known.\<close>

definition parse_value :: "proto \<Rightarrow> bool \<Rightarrow> bytes \<Rightarrow> address result" where
  "parse_value protocol qr addr =
     (let a = default_address\<lparr>a_protocol := protocol\<rparr>
      in if is_tcp a then
           bind_result (parse_tcp addr qr (is_curve a)) (\<lambda>(hst, prt, pk).
             Inr (a\<lparr>a_host := hst, a_port := prt, a_pubkey := pk\<rparr>))
         else
           bind_result (parse_unix addr (is_curve a)) (\<lambda>(path, pk).
             Inr (a\<lparr>a_socket := path, a_pubkey := pk\<rparr>)))"

definition address_of :: "bytes \<Rightarrow> address result" where
  "address_of addr =
     (case find_sub ''://'' addr of
        None \<Rightarrow> Inl Invalid_argument
      | Some protoend \<Rightarrow>
          if protoend = 0 then Inl Invalid_argument
          else
            let pro = take protoend addr;
                addr = drop (protoend + 3) addr
            in if addr = [] then Inl Invalid_argument
               else bind_result (parse_proto pro) (\<lambda>(protocol, qr).
                 if qr \<and> \<not> list_all qr_char addr then Inl Invalid_argument
                 else parse_value protocol qr addr))"

definition set_pubkey :: "bytes \<Rightarrow> address \<Rightarrow> address result" where
  "set_pubkey pk a =
     (if length pk = 0 then
        if a_protocol a = Tcp_curve then Inr (a\<lparr>a_protocol := Tcp, a_pubkey := pk\<rparr>)
        else if a_protocol a = Tcp_curve then Inr (a\<lparr>a_protocol := Ipc, a_pubkey := pk\<rparr>)
        else Inr (a\<lparr>a_pubkey := pk\<rparr>)
      else if length pk = 32 then
        if a_protocol a = Tcp then Inr (a\<lparr>a_protocol := Tcp_curve, a_pubkey := pk\<rparr>)
        else if a_protocol a = Ipc then Inr (a\<lparr>a_protocol := Ipc_curve, a_pubkey := pk\<rparr>)
        else Inr (a\<lparr>a_pubkey := pk\<rparr>)
      else Inl Invalid_argument)"

definition address_of_pubkey :: "bytes \<Rightarrow> bytes \<Rightarrow> address result" where
  "address_of_pubkey addr pk = bind_result (address_of addr) (set_pubkey pk)"

section \<open>Printing\<close>

definition encode_pubkey :: "encoding \<Rightarrow> address \<Rightarrow> bytes" where
  "encode_pubkey enc a =
     (case enc of
        Enc_hex \<Rightarrow> to_hex (a_pubkey a)
      | Enc_base32z \<Rightarrow> to_base32z (a_pubkey a)
      | Enc_BASE32Z \<Rightarrow> map upper_case (to_base32z (a_pubkey a))
      | Enc_base64 \<Rightarrow>
          let pk = to_base64 (a_pubkey a)
          in if length pk = 44 \<and> last pk = CHR ''='' then take 43 pk else pk)"

definition full_address :: "encoding \<Rightarrow> address \<Rightarrow> bytes" where
  "full_address enc a =
     (let pk = (if is_curve a then encode_pubkey enc a else [])
      in case a_protocol a of
           Tcp \<Rightarrow> ''tcp://'' @ a_host a @ '':'' @ show_nat (unat (a_port a))
         | Tcp_curve \<Rightarrow> ''curve://'' @ a_host a @ '':'' @ show_nat (unat (a_port a)) @ ''/'' @ pk
         | Ipc \<Rightarrow> ''ipc://'' @ a_socket a
         | Ipc_curve \<Rightarrow> ''ipc+curve://'' @ a_socket a @ ''/'' @ pk)"

definition zmq_address :: "address \<Rightarrow> bytes" where
  "zmq_address a =
     (if is_tcp a then ''tcp://'' @ a_host a @ '':'' @ show_nat (unat (a_port a))
      else ''ipc://'' @ a_socket a)"

definition qr_host :: "bytes \<Rightarrow> bytes" where
  "qr_host hst =
     (let uc = map upper_case hst
      in if hd uc = CHR ''['' \<and> last uc = CHR '']'' then (uc[0 := CHR ''$''])[length uc - 1 := CHR ''$''] else uc)"

definition qr_address :: "address \<Rightarrow> bytes result" where
  "qr_address a =
     (if a_protocol a \<noteq> Tcp \<and> a_protocol a \<noteq> Tcp_curve then Inl Logic_error
      else if a_host a = [] then Inl Logic_error
      else Inr ((if is_curve a then ''CURVE://'' else ''TCP://'') @ qr_host (a_host a) @ '':'' @
             show_nat (unat (a_port a)) @ (if is_curve a then ''/'' @ encode_pubkey Enc_BASE32Z a else [])))"

section \<open>Equality and factories\<close>

definition address_eq :: "address \<Rightarrow> address \<Rightarrow> bool" where
  "address_eq a other =
     (if a_protocol a \<noteq> a_protocol other then False
      else if is_tcp a \<and> (a_host a \<noteq> a_host other \<or> a_port a \<noteq> a_port other) then False
      else if is_ipc a \<and> a_socket a \<noteq> a_socket other then False
      else if is_curve a \<and> a_pubkey a \<noteq> a_pubkey other then False
      else True)"

definition make_tcp :: "bytes \<Rightarrow> 16 word \<Rightarrow> address" where
  "make_tcp hst prt = default_address\<lparr>a_protocol := Tcp, a_host := hst, a_port := prt\<rparr>"

definition make_tcp_curve :: "bytes \<Rightarrow> 16 word \<Rightarrow> bytes \<Rightarrow> address" where
  "make_tcp_curve hst prt pk =
     default_address\<lparr>a_protocol := Tcp_curve, a_host := hst, a_port := prt, a_pubkey := pk\<rparr>"

definition make_ipc :: "bytes \<Rightarrow> address" where
  "make_ipc path = default_address\<lparr>a_protocol := Ipc, a_socket := path\<rparr>"

definition make_ipc_curve :: "bytes \<Rightarrow> bytes \<Rightarrow> address" where
  "make_ipc_curve path pk = default_address\<lparr>a_protocol := Ipc_curve, a_socket := path, a_pubkey := pk\<rparr>"

section \<open>Well-formed addresses\<close>

text \<open>
  The hosts the parser can return: bracketed IPv6 characters, or a non-empty name without a
  colon.
\<close>

definition host_ok :: "bytes \<Rightarrow> bool" where
  "host_ok h = (h \<noteq> [] \<and>
     (if hd h = CHR ''['' then 2 \<le> length h \<and> last h = CHR '']'' \<and> set (butlast (tl h)) \<subseteq> set ipv6_chars
      else CHR '':'' \<notin> set h))"

definition address_ok :: "address \<Rightarrow> bool" where
  "address_ok a =
     ((is_tcp a \<longrightarrow> host_ok (a_host a) \<and> a_port a \<noteq> 0) \<and>
      (a_protocol a = Ipc \<longrightarrow> a_socket a \<noteq> []) \<and>
      (is_curve a \<longrightarrow> length (a_pubkey a) = 32))"

lemmas address_simps = is_tcp_def is_ipc_def is_curve_def default_address_def

section \<open>Public keys\<close>

lemma to_base64_32:
  assumes "length pk = 32"
  shows "to_base64 pk = map to_b64 (encode_digits 6 pk) @ ''=''" "length (encode_digits 6 pk) = 43"
  using assms by (simp_all add: to_base64_digits b64_pad_count_def length_encode_digits)

lemma encode_base64_32:
  "length (a_pubkey a) = 32 \<Longrightarrow> encode_pubkey Enc_base64 a = map to_b64 (encode_digits 6 (a_pubkey a))"
  using to_base64_32 [of "a_pubkey a"] by (simp add: encode_pubkey_def)

lemma length_encode_pubkey:
  "length (a_pubkey a) = 32 \<Longrightarrow> length (encode_pubkey enc a) = enc_length enc"
proof (cases enc)
  case Enc_base64
  assume "length (a_pubkey a) = 32"
  then show ?thesis using Enc_base64 to_base64_32(2) by (simp add: encode_base64_32 enc_length_def)
qed (simp_all add: encode_pubkey_def enc_length_def length_to_base32z)

lemma from_base64_unpadded: "from_base64 (map to_b64 (encode_digits 6 pk)) = pk"
proof -
  have "filter (\<lambda>c. c \<noteq> CHR ''='') (map to_b64 (encode_digits 6 pk)) = map to_b64 (encode_digits 6 pk)"
    using filter_to_base64 [of pk] by (simp add: to_base64_digits)
  then have "from_base64 (map to_b64 (encode_digits 6 pk)) = from_base64 (to_base64 pk)"
    unfolding from_base64_digits filter_to_base64 by simp
  then show ?thesis by simp
qed

lemma is_base64_unpadded:
  "is_base64 (map to_b64 (encode_digits 6 pk))" if "length (encode_digits 6 pk) mod 4 \<noteq> 0"
proof -
  have "strip_b64_padding (map to_b64 (encode_digits 6 pk)) = map to_b64 (encode_digits 6 pk)"
    using that by (simp add: strip_b64_padding_def)
  then show ?thesis
    using to_b64_valid encode_digits_6 [of _ pk] by (auto simp: is_base64_def list_all_iff simp del: from_to_b64)
qed

lemma upper_alphabet: "map upper_case to_b32z_lut = ''YBNDRFG8EJKMCPQXOT1UWISZA345H769''"
  by (simp add: upper_case_def to_b32z_lut_def less_eq_char_def char_of_def bit_0)

lemma from_upper_b32z:
  assumes "d < 32"
  shows "from_b32z (upper_case (to_b32z d)) = d"
    and "\<not> (d = 0 \<and> \<not> upper_case (to_b32z d) \<in> {CHR ''y'', CHR ''Y''})"
proof -
  have u: "upper_case (to_b32z d) = ''YBNDRFG8EJKMCPQXOT1UWISZA345H769'' ! d"
    using assms arg_cong [OF upper_alphabet, of "\<lambda>s. s ! d"] by (simp add: to_b32z_def)
  moreover have "from_b32z (''YBNDRFG8EJKMCPQXOT1UWISZA345H769'' ! d) = d"
    using assms arg_cong [OF from_b32z_upper_alphabet, of "\<lambda>xs. xs ! d"] by (simp del: list.map)
  ultimately show "from_b32z (upper_case (to_b32z d)) = d" by simp
  show "\<not> (d = 0 \<and> \<not> upper_case (to_b32z d) \<in> {CHR ''y'', CHR ''Y''})" using u by auto
qed

lemma encode_digits_5: "d \<in> set (encode_digits 5 s) \<Longrightarrow> d < 32"
  using encode_digits_less [of d 5 s] by simp

lemma to_base32z_upper:
  "is_base32z (map upper_case (to_base32z pk))" "from_base32z (map upper_case (to_base32z pk)) = pk"
proof -
  have same: "map from_b32z (map upper_case (to_base32z pk)) = map from_b32z (to_base32z pk)"
    using from_upper_b32z(1) encode_digits_5 [of _ pk] by (simp add: to_base32z_digits)
  have "\<not> (from_b32z c = 0 \<and> \<not> (c = CHR ''y'' \<or> c = CHR ''Y''))" if "c \<in> set (map upper_case (to_base32z pk))" for c
  proof -
    from that obtain d where "d \<in> set (encode_digits 5 pk)" "c = upper_case (to_b32z d)"
      unfolding to_base32z_digits set_map by blast
    then show ?thesis using from_upper_b32z encode_digits_5 by auto
  qed
  then show "is_base32z (map upper_case (to_base32z pk))" unfolding is_base32z_def list_all_iff by blast
  have "from_base32z (map upper_case (to_base32z pk)) = from_base32z (to_base32z pk)"
    unfolding from_base32z_digits same ..
  then show "from_base32z (map upper_case (to_base32z pk)) = pk" by simp
qed

lemma decode_encode_pubkey:
  assumes "length (a_pubkey a) = 32" "\<not> (qr \<and> enc = Enc_base64)"
  shows "decode_pubkey (encode_pubkey enc a) qr = Inr (a_pubkey a, [])"
proof (cases enc)
  case Enc_hex
  with assms(1) show ?thesis by (simp add: decode_pubkey_def encode_pubkey_def)
next
  case Enc_base32z
  with assms(1) show ?thesis by (simp add: decode_pubkey_def encode_pubkey_def length_to_base32z)
next
  case Enc_BASE32Z
  with assms(1) show ?thesis
    using to_base32z_upper [of "a_pubkey a"] by (simp add: decode_pubkey_def encode_pubkey_def length_to_base32z)
next
  case Enc_base64
  have len: "length (encode_digits 6 (a_pubkey a)) = 43" using assms(1) by (rule to_base64_32(2))
  then have "is_base64 (map to_b64 (encode_digits 6 (a_pubkey a)))" by (intro is_base64_unpadded) simp
  with len assms Enc_base64 show ?thesis
    by (simp add: decode_pubkey_def encode_base64_32 from_base64_unpadded)
qed

section \<open>Parsing what was printed\<close>

lemma parse_host_round: "host_ok h \<Longrightarrow> parse_host (h @ CHR '':'' # r) False = Inr (h, CHR '':'' # r)"
proof (cases "hd h = CHR ''[''")
  case True
  assume ok: "host_ok h"
  with True obtain m where h: "h = CHR ''['' # m @ '']''" and m: "set m \<subseteq> set ipv6_chars"
    by (cases h; cases "tl h" rule: rev_cases) (auto simp: host_ok_def)
  have "CHR '']'' \<notin> set ipv6_chars" by (simp add: ipv6_chars_def)
  with m have "takeWhile (\<lambda>c. c \<in> set ipv6_chars) (m @ CHR '']'' # t) = m"
    "dropWhile (\<lambda>c. c \<in> set ipv6_chars) (m @ CHR '']'' # t) = CHR '']'' # t" for t
    by (auto simp: takeWhile_append2 dropWhile_append2 subset_iff)
  with h show ?thesis by (simp add: parse_host_def Let_def)
next
  case False
  assume "host_ok h"
  with False have "h \<noteq> []" "CHR '':'' \<notin> set h" by (auto simp: host_ok_def)
  then have "takeWhile (\<lambda>c. c \<noteq> CHR '':'') (h @ CHR '':'' # r) = h"
    "dropWhile (\<lambda>c. c \<noteq> CHR '':'') (h @ CHR '':'' # r) = CHR '':'' # r"
    by (subst takeWhile_append2 dropWhile_append2; auto)+
  with False \<open>h \<noteq> []\<close> show ?thesis by (simp add: parse_host_def Let_def)
qed

lemma stoi_show_nat: "n \<le> 2147483647 \<Longrightarrow> stoi_digits (show_nat n) = Inr n"
  by (simp add: stoi_digits_def)

lemma parse_port_round:
  assumes "w \<noteq> 0" "r = [] \<or> \<not> is_digit (hd r)"
  shows "parse_port (CHR '':'' # show_nat (unat w) @ r) = Inr (w, r)"
proof -
  have less: "unat w < 65536" by (rule order_less_le_trans [OF unsigned_less]) simp
  moreover have "unat w \<noteq> 0" using assms(1) by (simp add: unat_eq_0)
  moreover have "\<not> length (CHR '':'' # show_nat (unat w) @ r) < 2" by (cases "show_nat (unat w)") auto
  ultimately show ?thesis
    using takeWhile_show_nat [OF assms(2), of "unat w"]
    by (simp add: parse_port_def Let_def stoi_show_nat)
qed

lemma find_proto: "CHR '':'' \<notin> set pro \<Longrightarrow> find_sub ''://'' (pro @ ''://'' @ s) = Some (length pro)"
  by (induction pro) auto

lemma slash_not_digit:
  "CHR ''/'' \<in> set t \<Longrightarrow> \<not> is_hex t" "CHR ''/'' \<in> set t \<Longrightarrow> \<not> is_base32z t"
proof -
  have "\<not> is_hex_digit (CHR ''/'')" by (simp add: is_hex_digit_iff less_eq_char_def)
  then show "CHR ''/'' \<in> set t \<Longrightarrow> \<not> is_hex t" by (auto simp: is_hex_def list_all_iff)
  show "CHR ''/'' \<in> set t \<Longrightarrow> \<not> is_base32z t"
    using from_b32z_slash by (auto simp: is_base32z_def list_all_iff)
qed

lemma parse_unix_round:
  assumes pk: "length (a_pubkey a) = 32"
  shows "parse_unix (sock @ CHR ''/'' # encode_pubkey enc a) True = Inr (sock, a_pubkey a)"
proof -
  let ?e = "encode_pubkey enc a"
  let ?addr = "sock @ CHR ''/'' # ?e"
  have n: "length ?addr = length sock + 1 + enc_length enc"
    using length_encode_pubkey [OF pk] by simp
  have slash: "CHR ''/'' \<in> set (drop k ?addr)" if "k \<le> length sock" for k
    using that by simp
  have key: "drop (length sock + 1) ?addr = ?e" "?addr ! length sock = CHR ''/''" "take (length sock) ?addr = sock"
    by simp_all
  show ?thesis
  proof (cases enc)
    case Enc_hex
    with n key pk show ?thesis
      by (simp add: parse_unix_def enc_length_def encode_pubkey_def Let_def)
  next
    case Enc_base64
    have len: "length (encode_digits 6 (a_pubkey a)) = 43" using pk by (rule to_base64_32(2))
    then have "is_base64 ?e" using pk Enc_base64 by (simp add: encode_base64_32 is_base64_unpadded)
    moreover have "from_base64 ?e = a_pubkey a" using pk Enc_base64 by (simp add: encode_base64_32 from_base64_unpadded)
    moreover have "last ?addr \<noteq> CHR ''=''"
    proof -
      have "encode_digits 6 (a_pubkey a) \<noteq> []" using len by auto
      moreover from this have "last (encode_digits 6 (a_pubkey a)) < 64" using encode_digits_6 last_in_set by blast
      ultimately show ?thesis using pk Enc_base64 by (simp add: encode_base64_32 last_map)
    qed
    ultimately show ?thesis
      using n key slash_not_digit slash [of "length sock + 44 - 64"] slash [of "length sock + 44 - 52"] Enc_base64
      by (simp add: parse_unix_def enc_length_def Let_def)
  next
    case Enc_base32z
    then have "is_base32z ?e" "from_base32z ?e = a_pubkey a" by (simp_all add: encode_pubkey_def)
    with Enc_base32z n key slash_not_digit(1) slash [of "length sock + 53 - 64"] show ?thesis
      by (simp add: parse_unix_def enc_length_def Let_def)
  next
    case Enc_BASE32Z
    then have "is_base32z ?e" "from_base32z ?e = a_pubkey a"
      using to_base32z_upper by (simp_all add: encode_pubkey_def)
    with Enc_BASE32Z n key slash_not_digit(1) slash [of "length sock + 53 - 64"] show ?thesis
      by (simp add: parse_unix_def enc_length_def Let_def)
  qed
qed

lemma address_of_proto:
  assumes "CHR '':'' \<notin> set pro" "pro \<noteq> []" "addr \<noteq> []"
  shows "address_of (pro @ ''://'' @ addr) =
     bind_result (parse_proto pro) (\<lambda>(protocol, qr).
       if qr \<and> \<not> list_all qr_char addr then Inl Invalid_argument else parse_value protocol qr addr)"
  using assms unfolding address_of_def find_proto [OF assms(1)] by simp

lemma parse_tcp_round:
  assumes "host_ok h" "w \<noteq> 0"
  shows "parse_tcp (h @ '':'' @ show_nat (unat w)) False False = Inr (h, w, [])"
    and "length (a_pubkey a) = 32 \<Longrightarrow>
      parse_tcp (h @ '':'' @ show_nat (unat w) @ ''/'' @ encode_pubkey enc a) False True = Inr (h, w, a_pubkey a)"
proof -
  show "parse_tcp (h @ '':'' @ show_nat (unat w)) False False = Inr (h, w, [])"
    using parse_host_round [OF assms(1)] parse_port_round [OF assms(2), of "[]"]
    by (simp add: parse_tcp_def)
  assume pk: "length (a_pubkey a) = 32"
  have "\<not> is_digit (CHR ''/'')" by (simp add: is_digit_iff)
  then have "parse_port (CHR '':'' # show_nat (unat w) @ CHR ''/'' # encode_pubkey enc a) = Inr (w, CHR ''/'' # encode_pubkey enc a)"
    using assms(2) by (intro parse_port_round) simp_all
  moreover have "43 \<le> enc_length enc" by (simp add: enc_length_def)
  ultimately show "parse_tcp (h @ '':'' @ show_nat (unat w) @ ''/'' @ encode_pubkey enc a) False True = Inr (h, w, a_pubkey a)"
    using parse_host_round [OF assms(1)] length_encode_pubkey [OF pk, of enc] decode_encode_pubkey [OF pk, of False enc]
    by (simp add: parse_tcp_def enc_length_def [of Enc_base64])
qed

lemma full_address_round:
  assumes "address_ok a"
  shows "\<exists>b. address_of (full_address enc a) = Inr b \<and> address_eq a b"
proof (cases "a_protocol a")
  case Tcp
  with assms have "host_ok (a_host a)" "a_port a \<noteq> 0" by (simp_all add: address_ok_def address_simps)
  with Tcp parse_tcp_round(1) [of "a_host a" "a_port a"] address_of_proto [of "''tcp''" "a_host a @ '':'' @ show_nat (unat (a_port a))"]
  show ?thesis by (simp add: full_address_def parse_proto_def parse_value_def address_eq_def address_simps Let_def)
next
  case Tcp_curve
  with assms have "host_ok (a_host a)" "a_port a \<noteq> 0" "length (a_pubkey a) = 32"
    by (simp_all add: address_ok_def address_simps)
  with Tcp_curve parse_tcp_round(2) [of "a_host a" "a_port a" a enc]
    address_of_proto [of "''curve''" "a_host a @ '':'' @ show_nat (unat (a_port a)) @ ''/'' @ encode_pubkey enc a"]
  show ?thesis by (simp add: full_address_def parse_proto_def parse_value_def address_eq_def address_simps Let_def)
next
  case Ipc
  with assms address_of_proto [of "''ipc''" "a_socket a"] show ?thesis
    by (simp add: full_address_def parse_proto_def parse_value_def parse_unix_def address_ok_def address_eq_def address_simps Let_def)
next
  case Ipc_curve
  with assms have "length (a_pubkey a) = 32" by (simp add: address_ok_def address_simps)
  with Ipc_curve parse_unix_round [of a "a_socket a" enc]
    address_of_proto [of "''ipc+curve''" "a_socket a @ ''/'' @ encode_pubkey enc a"]
  show ?thesis by (simp add: full_address_def parse_proto_def parse_value_def address_eq_def address_simps Let_def)
qed

section \<open>What the parser returns\<close>

lemma byte_val_lower: "byte_val (lower_case c) = (if 65 \<le> byte_val c \<and> byte_val c \<le> 90 then byte_val c + 32 else byte_val c)"
  by (simp add: lower_case_def less_eq_char_def)

lemma byte_val_upper: "byte_val (upper_case c) = (if 97 \<le> byte_val c \<and> byte_val c \<le> 122 then byte_val c - 32 else byte_val c)"
  by (auto simp: upper_case_def less_eq_char_def)

lemma lower_case_eq:
  assumes "byte_val d < 65 \<or> 90 < byte_val d" "byte_val d < 97 \<or> 122 < byte_val d"
  shows "lower_case c = d \<longleftrightarrow> c = d" "upper_case c = d \<longleftrightarrow> c = d"
  using assms unfolding byte_val_inject [symmetric] byte_val_lower byte_val_upper by auto

lemma lower_case_simps [simp]:
  "lower_case c = CHR ''['' \<longleftrightarrow> c = CHR ''[''" "lower_case c = CHR '']'' \<longleftrightarrow> c = CHR '']''"
  "lower_case c = CHR '':'' \<longleftrightarrow> c = CHR '':''"
  "upper_case c = CHR ''['' \<longleftrightarrow> c = CHR ''[''" "upper_case c = CHR '']'' \<longleftrightarrow> c = CHR '']''"
  "upper_case c = CHR '':'' \<longleftrightarrow> c = CHR '':''" "upper_case c = CHR ''$'' \<longleftrightarrow> c = CHR ''$''"
  by (rule lower_case_eq; simp)+

lemma lower_upper_case [simp]: "lower_case (upper_case c) = lower_case c"
  unfolding byte_val_inject [symmetric] byte_val_lower byte_val_upper by auto

lemma ipv6_case:
  assumes "c \<in> set ipv6_chars"
  shows "lower_case c \<in> set ipv6_chars" "upper_case c \<in> set ipv6_chars" "qr_char (upper_case c)"
proof -
  have "list_all (\<lambda>c. lower_case c \<in> set ipv6_chars \<and> upper_case c \<in> set ipv6_chars \<and> qr_char (upper_case c)) ipv6_chars"
    by code_simp
  with assms show "lower_case c \<in> set ipv6_chars" "upper_case c \<in> set ipv6_chars" "qr_char (upper_case c)"
    unfolding list_all_iff by blast+
qed

lemma host_ok_lower: "host_ok h \<Longrightarrow> host_ok (map lower_case h)"
  using ipv6_case(1)
  by (cases h) (auto simp: host_ok_def hd_map last_map map_butlast [symmetric] image_iff
      eq_commute [of "CHR '':''" "lower_case _"] split: if_splits)

lemma parse_host_ok: "parse_host addr qr = Inr (h, r) \<Longrightarrow> host_ok h"
proof -
  assume parsed: "parse_host addr qr = Inr (h, r)"
  then have "addr \<noteq> []" by (auto simp: parse_host_def)
  show ?thesis
  proof (cases "hd addr = CHR ''['' \<or> qr \<and> hd addr = CHR ''$''")
    case True
    with parsed \<open>addr \<noteq> []\<close> have "h = CHR ''['' # takeWhile (\<lambda>c. c \<in> set ipv6_chars) (tl addr) @ '']''"
      by (auto simp: parse_host_def Let_def split: if_splits)
    then show ?thesis by (auto simp: host_ok_def dest: set_takeWhileD)
  next
    case False
    with parsed \<open>addr \<noteq> []\<close> have "h = takeWhile (\<lambda>c. c \<noteq> CHR '':'') addr" "h \<noteq> []"
      by (auto simp: parse_host_def Let_def split: if_splits)
    with False \<open>addr \<noteq> []\<close> show ?thesis
      by (cases addr) (auto simp: host_ok_def dest: set_takeWhileD split: if_splits)
  qed
qed

lemma parse_port_ok: "parse_port addr = Inr (w, r) \<Longrightarrow> w \<noteq> 0"
proof -
  assume "parse_port addr = Inr (w, r)"
  then obtain n where n: "w = word_of_nat n" "n \<noteq> 0" "n \<le> 65535"
    by (auto simp: parse_port_def Let_def result_simps split: if_splits)
  have "unat (word_of_nat n :: 16 word) = n" using n(3) by (simp add: unat_of_nat)
  with n show ?thesis by auto
qed

lemma is_base64_no_pad:
  "is_base64 t \<Longrightarrow> length t mod 4 \<noteq> 0 \<Longrightarrow> filter (\<lambda>c. c \<noteq> CHR ''='') t = t"
  using from_b64_eq_sign by (auto simp: is_base64_def strip_b64_padding_def list_all_iff filter_id_conv)

lemma length_from_base64:
  "length (from_base64 t) = length (filter (\<lambda>c. c \<noteq> CHR ''='') t) * 6 div 8"
  by (simp add: from_base64_digits length_decode_digits mult.commute)

lemma from_hex_32: "is_hex t \<Longrightarrow> length t = 64 \<Longrightarrow> from_hex t = Inr pk \<Longrightarrow> length pk = 32"
  using length_from_hex by fastforce

lemma decode_pubkey_length: "decode_pubkey inp qr = Inr (pk, r) \<Longrightarrow> length pk = 32"
  using from_hex_32 [of "take 64 inp" pk] is_base64_no_pad [of "take 43 inp"]
  by (auto simp: decode_pubkey_def result_simps length_from_base32z length_from_base64 Let_def split: if_splits)

lemma parse_tcp_ok:
  "parse_tcp addr qr curve = Inr (h, w, pk) \<Longrightarrow> host_ok h \<and> w \<noteq> 0 \<and> (curve \<longrightarrow> length pk = 32)"
  by (auto simp: parse_tcp_def result_simps Let_def split: if_splits
      dest: parse_host_ok host_ok_lower parse_port_ok decode_pubkey_length)

lemma strip_b64_padding_cases:
  assumes "last t = CHR ''=''" "t \<noteq> []" "length t mod 4 = 0"
  obtains u where "t = u @ ''=''" "strip_b64_padding t = u" | u where "t = u @ ''==''" "strip_b64_padding t = u"
proof -
  obtain v where t: "t = v @ ''=''" using assms(1,2) by (metis append_butlast_last_id)
  show thesis
  proof (cases "last v = CHR ''=''")
    case True
    have "v \<noteq> []" using t assms(3) by auto
    with True obtain u where "v = u @ ''=''" by (metis append_butlast_last_id)
    with t assms(3) that(2) show thesis by (simp add: strip_b64_padding_def butlast_append)
  next
    case False
    with t assms(3) that(1) show thesis by (simp add: strip_b64_padding_def)
  qed
qed

lemma length_from_base64_padded:
  assumes "is_base64 t" "length t = 44" "last t = CHR ''=''"
  shows "length (from_base64 t) \<in> {31, 32}"
proof -
  have ok: "filter (\<lambda>c. c \<noteq> CHR ''='') (strip_b64_padding t) = strip_b64_padding t"
    using assms(1) from_b64_eq_sign by (auto simp: is_base64_def list_all_iff filter_id_conv)
  have "t \<noteq> []" "length t mod 4 = 0" using assms(2) by auto
  from strip_b64_padding_cases [OF assms(3) this] show ?thesis
  proof cases
    case (1 u)
    then have "length u = 43" "filter (\<lambda>c. c \<noteq> CHR ''='') t = u" using ok assms(2) by auto
    then show ?thesis by (simp add: length_from_base64)
  next
    case (2 u)
    then have "length u = 42" "filter (\<lambda>c. c \<noteq> CHR ''='') t = u" using ok assms(2) by auto
    then show ?thesis by (simp add: length_from_base64)
  qed
qed

lemma parse_unix_length:
  assumes "parse_unix addr True = Inr (path, pk)"
  shows "length pk \<in> {31, 32}"
proof -
  have b43: "length (from_base64 t) = 32" if "is_base64 t" "length t = 43" for t
    using that is_base64_no_pad [of t] by (simp add: length_from_base64)
  consider "length addr > 64" "is_hex (drop (length addr - 64) addr)" "from_hex (drop (length addr - 64) addr) = Inr pk"
    | "length addr > 52" "pk = from_base32z (drop (length addr - 52) addr)"
    | "length addr > 44" "last addr = CHR ''=''" "is_base64 (drop (length addr - 44) addr)" "pk = from_base64 (drop (length addr - 44) addr)"
    | "length addr > 43" "is_base64 (drop (length addr - 43) addr)" "pk = from_base64 (drop (length addr - 43) addr)"
    using assms unfolding parse_unix_def Let_def
    by (simp add: bind_result_eq_Inr split: if_split_asm)
  then show ?thesis
  proof cases
    case 1
    with from_hex_32 [of "drop (length addr - 64) addr" pk] show ?thesis by simp
  next
    case 2
    then show ?thesis by (simp add: length_from_base32z)
  next
    case 3
    then show ?thesis using length_from_base64_padded [of "drop (length addr - 44) addr"] by simp
  next
    case 4
    then show ?thesis using b43 by simp
  qed
qed

lemma address_of_ok:
  assumes "address_of s = Inr a"
  shows "if a_protocol a = Ipc_curve then length (a_pubkey a) \<in> {31, 32} else address_ok a"
proof -
  from assms obtain n where n: "find_sub ''://'' s = Some n"
    by (cases "find_sub ''://'' s") (simp_all add: address_of_def)
  define addr where "addr = drop (n + 3) s"
  have addr: "addr \<noteq> []" and "bind_result (parse_proto (take n s)) (\<lambda>(protocol, qr).
      if qr \<and> \<not> list_all qr_char addr then Inl Invalid_argument else parse_value protocol qr addr) = Inr a"
    using assms n unfolding address_of_def Let_def addr_def by (simp_all split: if_split_asm)
  then obtain protocol qr where a: "parse_value protocol qr addr = Inr a"
    by (auto simp: bind_result_eq_Inr split: if_split_asm)
  note body = a [unfolded parse_value_def Let_def]
  show ?thesis
  proof (cases protocol)
    case Tcp
    with body parse_tcp_ok [of addr qr False] show ?thesis
      by (auto simp: address_ok_def address_simps bind_result_eq_Inr)
  next
    case Tcp_curve
    with body parse_tcp_ok [of addr qr True] show ?thesis
      by (auto simp: address_ok_def address_simps bind_result_eq_Inr)
  next
    case Ipc
    with body addr show ?thesis by (auto simp: address_ok_def address_simps parse_unix_def)
  next
    case Ipc_curve
    with body parse_unix_length [of addr] show ?thesis by (auto simp: address_simps bind_result_eq_Inr)
  qed
qed

section \<open>The QR form\<close>

text \<open>Hosts that fit the QR alphabet: a bracketed address, or letters, digits, dots and dashes.\<close>

definition qr_host_char :: "char \<Rightarrow> bool" where
  "qr_host_char c = (let n = byte_val c in 48 \<le> n \<and> n \<le> 57 \<or> 65 \<le> n \<and> n \<le> 90 \<or> 97 \<le> n \<and> n \<le> 122 \<or> n = 45 \<or> n = 46)"

definition qr_host_ok :: "bytes \<Rightarrow> bool" where
  "qr_host_ok h = (host_ok h \<and> (hd h \<noteq> CHR ''['' \<longrightarrow> list_all qr_host_char h))"

lemma qr_char_iff:
  "qr_char c \<longleftrightarrow> (let n = byte_val c in 65 \<le> n \<and> n \<le> 90 \<or> 48 \<le> n \<and> n \<le> 57 \<or> n \<in> {36, 58, 47, 46, 45})"
  unfolding qr_char_def is_digit_iff less_eq_char_def Let_def by (simp flip: byte_val_inject)

lemma qr_char_upper: "qr_host_char c \<Longrightarrow> qr_char (upper_case c) \<and> c \<noteq> CHR ''$'' \<and> c \<noteq> CHR '':'' \<and> c \<noteq> CHR ''[''"
  unfolding qr_host_char_def qr_char_iff byte_val_upper Let_def by (auto simp flip: byte_val_inject)

lemma qr_char_digits: "list_all qr_char (show_nat n)"
  using show_nat_digits [of _ n] by (auto simp: list_all_iff is_digit_iff qr_char_iff Let_def)

lemma qr_char_pubkey: "list_all qr_char (encode_pubkey Enc_BASE32Z a)"
proof -
  have "list_all qr_char (map upper_case to_b32z_lut)" unfolding upper_alphabet by code_simp
  moreover have "set (to_base32z pk) \<subseteq> set to_b32z_lut" for pk
    using encode_digits_5 [of _ pk] by (auto simp: to_base32z_digits to_b32z_def)
  ultimately show ?thesis by (auto simp: encode_pubkey_def list_all_iff)
qed

lemma qr_host_parse:
  assumes "qr_host_ok h"
  shows "\<exists>h'. parse_host (qr_host h @ CHR '':'' # r) True = Inr (h', CHR '':'' # r)
           \<and> map lower_case h' = map lower_case h \<and> list_all qr_char (qr_host h) \<and> qr_host h \<noteq> []"
proof (cases "hd h = CHR ''[''")
  case True
  with assms obtain m where h: "h = CHR ''['' # m @ '']''" and m: "set m \<subseteq> set ipv6_chars"
    by (cases h; cases "tl h" rule: rev_cases) (auto simp: host_ok_def qr_host_ok_def)
  have up: "upper_case (CHR ''['') = CHR ''[''" "upper_case (CHR '']'') = CHR '']''" by simp_all
  have qr: "qr_host h = CHR ''$'' # map upper_case m @ ''$''"
    using list_update_length [of "map upper_case m" "CHR '']''" "[]" "CHR ''$''"] by (simp add: qr_host_def h up)
  have dollar: "CHR ''$'' \<notin> set ipv6_chars" "qr_char (CHR ''$'')" by (simp_all add: ipv6_chars_def qr_char_def)
  have up6: "c \<in> set ipv6_chars" if "c \<in> set (map upper_case m)" for c
    using that m ipv6_case(2) by auto
  have split: "takeWhile (\<lambda>c. c \<in> set ipv6_chars) (map upper_case m @ CHR ''$'' # t) = map upper_case m"
    "dropWhile (\<lambda>c. c \<in> set ipv6_chars) (map upper_case m @ CHR ''$'' # t) = CHR ''$'' # t" for t
    by (rule takeWhile_until dropWhile_until; use dollar(1) up6 in blast)+
  have "list_all qr_char (map upper_case m)"
    using m ipv6_case(3) by (auto simp: list_all_iff)
  with split dollar(2) show ?thesis unfolding qr by (simp add: h parse_host_def Let_def comp_def)
next
  case False
  with assms have h: "h \<noteq> []" "list_all qr_host_char h" by (simp_all add: qr_host_ok_def host_ok_def)
  have chars: "qr_char (upper_case c)" "c \<noteq> CHR ''$''" "c \<noteq> CHR '':''" "c \<noteq> CHR ''[''" if "c \<in> set h" for c
    using h(2) that qr_char_upper [of c] by (simp_all add: list_all_iff)
  have hd: "hd (map upper_case h) \<noteq> CHR ''[''" "hd (map upper_case h) \<noteq> CHR ''$''"
    using chars(2,4) [of "hd h"] h(1) by (simp_all add: hd_map)
  then have qr: "qr_host h = map upper_case h" by (simp add: qr_host_def Let_def)
  have colon: "c \<noteq> CHR '':''" if c: "c \<in> set (map upper_case h)" for c
  proof -
    from c obtain d where "d \<in> set h" "c = upper_case d" unfolding set_map by blast
    with chars(3) [of d] show ?thesis by simp
  qed
  have split: "takeWhile (\<lambda>c. c \<noteq> CHR '':'') (map upper_case h @ CHR '':'' # r) = map upper_case h"
    "dropWhile (\<lambda>c. c \<noteq> CHR '':'') (map upper_case h @ CHR '':'' # r) = CHR '':'' # r"
    by (rule takeWhile_until dropWhile_until, erule colon, simp)+
  have "list_all qr_char (map upper_case h)" using chars(1) by (simp add: list_all_iff)
  with split show ?thesis using h(1) hd unfolding qr by (simp add: parse_host_def Let_def hd_append comp_def)
qed

lemma qr_address_round:
  assumes "address_ok a" "is_tcp a" "qr_host_ok (a_host a)"
  shows "\<exists>out b. qr_address a = Inr out \<and> address_of out = Inr b \<and>
           address_eq (a\<lparr>a_host := map lower_case (a_host a)\<rparr>) b"
proof -
  let ?h = "qr_host (a_host a)" and ?p = "show_nat (unat (a_port a))"
  let ?k = "if is_curve a then ''/'' @ encode_pubkey Enc_BASE32Z a else []"
  have port: "a_port a \<noteq> 0" and host: "a_host a \<noteq> []"
    using assms by (auto simp: address_ok_def host_ok_def)
  have out: "qr_address a = Inr ((if is_curve a then ''CURVE'' else ''TCP'') @ ''://'' @ ?h @ '':'' @ ?p @ ?k)"
    using assms(2) host by (auto simp: qr_address_def is_tcp_def)
  obtain h' where h': "parse_host (?h @ CHR '':'' # ?p @ ?k) True = Inr (h', CHR '':'' # ?p @ ?k)"
    "map lower_case h' = map lower_case (a_host a)" "list_all qr_char ?h" "?h \<noteq> []"
    using qr_host_parse [OF assms(3), of "?p @ ?k"] by auto
  have qr: "list_all qr_char (?h @ '':'' @ ?p @ ?k)"
    using h'(3) qr_char_digits [of "unat (a_port a)"] qr_char_pubkey [of a] by (simp add: qr_char_def)
  have "\<not> is_digit (CHR ''/'')" by (simp add: is_digit_iff)
  then have p: "parse_port (CHR '':'' # ?p @ ?k) = Inr (a_port a, ?k)"
    using port by (intro parse_port_round) simp_all
  have "parse_tcp (?h @ '':'' @ ?p @ ?k) True (is_curve a)
      = Inr (map lower_case (a_host a), a_port a, if is_curve a then a_pubkey a else [])"
  proof (cases "is_curve a")
    case True
    then have "length (a_pubkey a) = 32" using assms(1) by (simp add: address_ok_def)
    with True h' p length_encode_pubkey [of a Enc_BASE32Z] decode_encode_pubkey [of a True Enc_BASE32Z] show ?thesis
      by (simp add: parse_tcp_def enc_length_def)
  next
    case False
    with h' p show ?thesis by (simp add: parse_tcp_def)
  qed
  with qr h'(4) address_of_proto [of "''CURVE''" "?h @ '':'' @ ?p @ ?k"] address_of_proto [of "''TCP''" "?h @ '':'' @ ?p @ ?k"]
  show ?thesis
    unfolding out using assms(2)
    by (cases "a_protocol a") (simp_all add: parse_proto_def parse_value_def address_eq_def address_simps Let_def)
qed

section \<open>Properties\<close>

text \<open>
  C11: an address with a valid host, a port and, for the curve protocols, a 32-byte key is
  printed by \<open>full_address\<close>, in any of the four key encodings, to a string that the parser turns
  into an equal address.
\<close>

theorem address_round_trip:
  "address_ok a \<Longrightarrow> \<exists>b. address_of (full_address enc a) = Inr b \<and> address_eq a b"
  by (rule full_address_round)

theorem address_round_trip_witness:
  "\<exists>b. address_of (full_address Enc_base64 (make_ipc_curve ''/tmp/x'' (replicate 32 (CHR ''k'')))) = Inr b \<and>
       address_eq (make_ipc_curve ''/tmp/x'' (replicate 32 (CHR ''k''))) b"
  by (rule address_round_trip) (simp add: address_ok_def make_ipc_curve_def address_simps)



text \<open>
  C32: whatever the parser accepts is a usable address: a TCP address has a well-formed host
  and a non-zero port, and the key of a TCP curve address has 32 bytes. The key of an
  \<open>ipc+curve\<close> address has 31 or 32.
\<close>

theorem parsed_address_ok:
  "address_of s = Inr a \<Longrightarrow>
     (if a_protocol a = Ipc_curve then length (a_pubkey a) \<in> {31, 32} else address_ok a)"
  by (rule address_of_ok)

theorem parsed_address_ok_witness: "address_ok (make_tcp ''h'' 22)"
proof -
  have "address_of ''tcp://h:22'' = Inr (make_tcp ''h'' 22)"
    by (simp add: address_of_def parse_proto_def parse_value_def parse_tcp_def parse_host_def parse_port_def
        stoi_digits_def is_digit_iff digit_val_def make_tcp_def address_simps)
  from parsed_address_ok [OF this] show ?thesis by (simp add: make_tcp_def)
qed


text \<open>
  Removing the key of an address with \<open>set_pubkey\<close> turns \<open>tcp+curve\<close> into \<open>tcp\<close> but
  leaves \<open>ipc+curve\<close> a curve address, with an empty key, because the second test repeats the
  first.
\<close>

theorem set_pubkey_empty:
  "set_pubkey [] (a\<lparr>a_protocol := Tcp_curve\<rparr>) = Inr (a\<lparr>a_protocol := Tcp, a_pubkey := []\<rparr>) \<and>
   set_pubkey [] (a\<lparr>a_protocol := Ipc_curve\<rparr>) = Inr (a\<lparr>a_protocol := Ipc_curve, a_pubkey := []\<rparr>)"
  by (simp add: set_pubkey_def)

text \<open>
  A port too large for an \<open>int\<close> makes the constructor throw \<^verbatim>\<open>std::out_of_range\<close>, while an
  unparsable address is documented to give \<^verbatim>\<open>std::invalid_argument\<close>.
\<close>

theorem huge_port_out_of_range: "address_of ''tcp://h:4294967296'' = Inl Out_of_range"
  by (simp add: address_of_def parse_proto_def parse_value_def parse_tcp_def parse_host_def parse_port_def stoi_digits_def
      is_digit_iff digit_val_def address_simps)

text \<open>
  C34: two well-formed addresses are equal under \<^verbatim>\<open>operator==\<close> exactly when their full
  addresses are the same string.
\<close>

theorem address_eq_iff_same_text:
  assumes "address_ok a" "address_ok b"
  shows "address_eq a b \<longleftrightarrow> full_address enc a = full_address enc b"
proof
  assume "address_eq a b"
  then show "full_address enc a = full_address enc b"
    by (cases "a_protocol a") (auto simp: address_eq_def full_address_def encode_pubkey_def address_simps
        split: if_splits encoding.splits)
next
  assume same: "full_address enc a = full_address enc b"
  from full_address_round [OF assms(1), of enc] full_address_round [OF assms(2), of enc] same
  obtain c where "address_eq a c" "address_eq b c" by auto
  then show "address_eq a b" by (auto simp: address_eq_def address_simps split: if_splits)
qed

theorem address_eq_iff_same_text_witness:
  "address_eq (make_tcp ''h'' 1) ((make_tcp ''h'' 1)\<lparr>a_pubkey := ''ignored''\<rparr>) \<longleftrightarrow>
   full_address Enc_hex (make_tcp ''h'' 1) = full_address Enc_hex ((make_tcp ''h'' 1)\<lparr>a_pubkey := ''ignored''\<rparr>)"
  by (rule address_eq_iff_same_text) (simp_all add: address_ok_def host_ok_def make_tcp_def address_simps)

end
