(* ===== verification/Startup.thy ===== *)
theory Startup
  imports Conn_Index Address
begin

text \<open>
  Constructing the object, adding listeners and starting the proxy
  (\<^verbatim>\<open>src/arqmamq/arqmamq.cpp\<close> and the beginning of \<open>proxy_loop\<close> in
  \<^verbatim>\<open>proxy.cpp\<close>).
\<close>

section \<open>Construction\<close>

text \<open>The members as their declarations initialise them; \<open>hardware_concurrency\<close> is that of \<^verbatim>\<open>std::thread\<close>.\<close>

definition init_sched :: "nat \<Rightarrow> sched" where
  "init_sched hardware_concurrency =
     \<lparr>proxy_joinable = False, categories = [], command_aliases = [],
      general_workers = max 1 (int hardware_concurrency), max_workers = 0, workers = [], workers_capacity = 0,
      idle_workers = [], tagged_workers = [], batch_heap = [], batches = [], batch_jobs = [], reply_jobs = [],
      batch_jobs_active = 0, reply_jobs_active = 0, batch_jobs_reserved = -1, reply_jobs_reserved = -1,
      pending_commands = [], proxy_skip_one_poll = False, timers_created = False, timer_heap = [], timer_jobs = [],
      timer_zmq_id = [], worker_events = []\<rparr>"

definition init_net :: "nat \<Rightarrow> bytes \<Rightarrow> bytes \<Rightarrow> bool \<Rightarrow> (bytes \<Rightarrow> bytes) \<Rightarrow> net" where
  "init_net hardware_concurrency pubkey privkey service_node lookup =
     \<lparr>n_sched = init_sched hardware_concurrency, n_settings = default_settings, n_pubkey = pubkey, n_privkey = privkey,
      local_service_node = service_node, sn_lookup = lookup, bind_sockets = [], peers = [], conn_index_to_id = [],
      incoming_conn_index = [], next_conn_id = 1, next_timer_id = 1, pending_connects = [], pending_requests = [], pollitems_stale = True,
      connections = [], active_service_nodes = [], proxy_shutting_down = False, objects = [], control_queue = [], control_replies = [],
      sent = [], closed = []\<rparr>"

definition crypto_box_PUBLICKEYBYTES :: nat where "crypto_box_PUBLICKEYBYTES = 32"
definition crypto_box_SECRETKEYBYTES :: nat where "crypto_box_SECRETKEYBYTES = 32"

text \<open>
  The constructor. What libsodium does is an argument: whether it initialises, the pair of keys
  it generates, and the public key it computes from a private one.
\<close>

definition ArqmaMQ ::
  "bool \<Rightarrow> bytes \<times> bytes \<Rightarrow> (bytes \<Rightarrow> bytes) \<Rightarrow> nat \<Rightarrow> bytes \<Rightarrow> bytes \<Rightarrow> bool \<Rightarrow> (bytes \<Rightarrow> bytes) \<Rightarrow> net result" where
  "ArqmaMQ sodium_init crypto_box_keypair crypto_scalarmult_base hardware_concurrency pubkey privkey service_node lookup =
     (if \<not> sodium_init then Inl Runtime_error
      else if (pubkey = []) \<noteq> (privkey = []) then Inl Invalid_argument
      else if pubkey = [] then
        if service_node then Inl Invalid_argument
        else Inr (init_net hardware_concurrency (fst crypto_box_keypair) (snd crypto_box_keypair) service_node lookup)
      else if length pubkey \<noteq> crypto_box_PUBLICKEYBYTES then Inl Invalid_argument
      else if length privkey \<noteq> crypto_box_SECRETKEYBYTES then Inl Invalid_argument
      else if crypto_scalarmult_base privkey \<noteq> pubkey then Inl Invalid_argument
      else Inr (init_net hardware_concurrency pubkey privkey service_node lookup))"

definition listen_curve :: "bytes \<Rightarrow> (bytes \<Rightarrow> bytes \<Rightarrow> bool \<Rightarrow> AuthLevel) \<Rightarrow> net \<Rightarrow> net result" where
  "listen_curve bind_addr allow s =
     bind_result (check_not_started (n_sched s)) (\<lambda>_.
       Inr (s\<lparr>bind_sockets := bind_sockets s @ [(bind_addr, new_bind_data True allow)]\<rparr>))"

definition listen_plain :: "bytes \<Rightarrow> (bytes \<Rightarrow> bytes \<Rightarrow> bool \<Rightarrow> AuthLevel) \<Rightarrow> net \<Rightarrow> net result" where
  "listen_plain bind_addr allow s =
     bind_result (check_not_started (n_sched s)) (\<lambda>_.
       Inr (s\<lparr>bind_sockets := bind_sockets s @ [(bind_addr, new_bind_data False allow)]\<rparr>))"

section \<open>The start of the proxy\<close>

definition make_listener :: "nat \<Rightarrow> bind_data \<Rightarrow> net \<Rightarrow> socket_t" where
  "make_listener i b s =
     (let sock = setup_external_socket s (new_socket ROUTER);
          sock = so_set zap_domain (OptBytes (bt_serialize_int (int i))) sock;
          sock = (if bd_curve b then
                    so_set curve_secretkey (OptBytes (n_privkey s))
                      (so_set curve_publickey (OptBytes (n_pubkey s)) (so_set curve_server (OptBool True) sock))
                  else sock)
      in so_set router_mandatory (OptBool True) (so_set router_handover (OptBool True) sock))"

text \<open>The loop over the listening addresses; zmq may refuse to bind one.\<close>

fun bind_listeners :: "(bytes \<Rightarrow> bool) \<Rightarrow> nat \<Rightarrow> nat \<Rightarrow> net \<Rightarrow> net result" where
  "bind_listeners zmq_bind 0 i s = Inr s"
| "bind_listeners zmq_bind (Suc n) i s =
     (let (addr, b) = bind_sockets s ! i in
      if \<not> zmq_bind addr then Inl Zmq_error
      else
        let conn_id = conn_of_id (next_conn_id s);
            idx = length (connections s)
        in bind_listeners zmq_bind n (Suc i)
             (s\<lparr>connections := connections s @ [(make_listener i b s)\<lparr>so_endpoint := addr\<rparr>],
                next_conn_id := next_conn_id s + 1,
                conn_index_to_id := conn_index_to_id s @ [conn_id],
                incoming_conn_index := incoming_conn_index s @ [(conn_id, idx)],
                bind_sockets := (bind_sockets s)[i := (addr, b\<lparr>bd_index := idx\<rparr>)]\<rparr>))"

text \<open>
  The owner of the sockets in the file system is set when one is configured; the addresses
  are parsed for that, and the call of the system may fail.
\<close>

fun own_sockets :: "(bytes \<Rightarrow> bool) \<Rightarrow> (bytes \<times> bind_data) list \<Rightarrow> unit result" where
  "own_sockets chown [] = Inr ()"
| "own_sockets chown ((bind_addr, _) # bs) =
     bind_result (address_of bind_addr) (\<lambda>addr.
       if is_ipc addr \<and> \<not> chown (a_socket addr) then Inl Runtime_error else own_sockets chown bs)"

text \<open>
  Waiting until every tagged thread has announced itself; the messages that arrive on the
  socket of the workers are a list, and \<open>None\<close> means that the proxy still waits at its end.
\<close>

fun wait_starting :: "bytes list \<Rightarrow> bytes list list \<Rightarrow> bytes list list option" where
  "wait_starting waiting_on [] = (if waiting_on = [] then Some [] else None)"
| "wait_starting waiting_on (parts # recv) =
     (if waiting_on = [] then Some (parts # recv)
      else if length parts \<noteq> 2 \<or> parts ! 1 \<noteq> ''STARTING'' then wait_starting waiting_on recv
      else wait_starting (filter (\<lambda>w. w \<noteq> parts ! 0) waiting_on) recv)"

text \<open>
  \<open>proxy_loop\<close> up to its main loop. The clean-up of connections is a timer of zmq, so timers
  exist from here on; the tagged threads have been started by \<open>add_tagged_thread\<close> and are told
  to finish their startup. When they never announce themselves, the proxy does not get so far.
\<close>

definition proxy_begin :: "(bytes \<Rightarrow> bool) \<Rightarrow> (bytes \<Rightarrow> bool) \<Rightarrow> bytes list list \<Rightarrow> net \<Rightarrow> net result" where
  "proxy_begin zmq_bind chown recv s =
     bind_result (proxy_reserve_workers (n_sched s)) (\<lambda>sc.
     bind_result (bind_listeners zmq_bind (length (bind_sockets s)) 0 (s\<lparr>n_sched := sc\<rparr>)) (\<lambda>s.
     bind_result (if SOCKET_GID (n_settings s) \<noteq> -1 \<or> SOCKET_UID (n_settings s) \<noteq> -1 then own_sockets chown (bind_sockets s) else Inr ()) (\<lambda>_.
       let sc = (n_sched s)\<lparr>timers_created := True\<rparr> in
       case wait_starting (map (\<lambda>(run, _, _). worker_routing_id run) (tagged_workers sc)) recv of
         None \<Rightarrow> Inl Out_of_fuel
       | Some _ \<Rightarrow>
           let sc = fold (\<lambda>(run, _, _). emit (Send_worker (worker_routing_id run) ''START'')) (tagged_workers sc) sc
           in Inr (s\<lparr>n_sched := sc, pollitems_stale := True\<rparr>))))"

definition start :: "(bytes \<Rightarrow> bool) \<Rightarrow> (bytes \<Rightarrow> bool) \<Rightarrow> bytes list list \<Rightarrow> net \<Rightarrow> net result" where
  "start zmq_bind chown recv s =
     (if proxy_joinable (n_sched s) then Inl Logic_error
      else if bind_sockets s = [] \<and> local_service_node s then Inl Invalid_argument
      else proxy_begin zmq_bind chown recv (upd_sched (\<lambda>sc. sc\<lparr>proxy_joinable := True\<rparr>) s))"

lemma wait_starting_ends:
  assumes "\<forall>w\<in>set waiting_on. [w, ''STARTING''] \<in> set recv"
  shows "wait_starting waiting_on recv \<noteq> None"
  using assms
proof (induction waiting_on recv rule: wait_starting.induct)
  case (2 waiting_on parts recv)
  show ?case
  proof (cases "length parts \<noteq> 2 \<or> parts ! 1 \<noteq> ''STARTING''")
    case True
    then have "[w, ''STARTING''] \<noteq> parts" for w by auto
    with 2(3) have "\<forall>w\<in>set waiting_on. [w, ''STARTING''] \<in> set recv" by simp
    with 2(1) True show ?thesis by (cases "waiting_on = []") auto
  next
    case False
    then have "parts = [parts ! 0, ''STARTING'']" by (auto simp: length_Suc_conv numeral_2_eq_2)
    then have "\<forall>w\<in>set (filter (\<lambda>w. w \<noteq> parts ! 0) waiting_on). [w, ''STARTING''] \<in> set recv" using 2(3) by (auto simp: nth_Cons')
    with 2(2) False show ?thesis by (cases "waiting_on = []") auto
  qed
qed (auto split: if_splits)

section \<open>The state after the start\<close>

lemma so_type_listener [simp]: "so_type (make_listener i b s) = ROUTER"
  by (simp add: make_listener_def Let_def new_socket_def)

lemma bind_listeners_index:
  "bind_listeners zmq_bind n i s = Inr s' \<Longrightarrow> i + n = length (bind_sockets s) \<Longrightarrow> i = length (connections s)
   \<Longrightarrow> length (conn_index_to_id s) = length (connections s) \<Longrightarrow> peers s = [] \<Longrightarrow> pending_connects s = []
   \<Longrightarrow> (\<forall>b\<in>set (take i (bind_sockets s)). names ROUTER (connections s) (bd_index (snd b)))
   \<Longrightarrow> (\<forall>ci\<in>set (incoming_conn_index s). names ROUTER (connections s) (snd ci))
   \<Longrightarrow> index_inv s' \<and> length (connections s') = length (bind_sockets s') \<and> n_sched s' = n_sched s \<and> peers s' = []
     \<and> pending_connects s' = [] \<and> pending_requests s' = pending_requests s
     \<and> active_service_nodes s' = active_service_nodes s \<and> proxy_shutting_down s' = proxy_shutting_down s"
proof (induction n arbitrary: i s)
  case 0
  then show ?case by (auto simp: index_inv_def out_indices_def)
next
  case (Suc n)
  obtain addr b where b: "bind_sockets s ! i = (addr, b)" by (metis surj_pair)
  let ?sock = "(make_listener i b s)\<lparr>so_endpoint := addr\<rparr>" and ?b = "b\<lparr>bd_index := length (connections s)\<rparr>"
  let ?t = "s\<lparr>connections := connections s @ [?sock], next_conn_id := next_conn_id s + 1,
    conn_index_to_id := conn_index_to_id s @ [conn_of_id (next_conn_id s)],
    incoming_conn_index := incoming_conn_index s @ [(conn_of_id (next_conn_id s), length (connections s))],
    bind_sockets := (bind_sockets s)[i := (addr, ?b)]\<rparr>"
  have run: "bind_listeners zmq_bind n (Suc i) ?t = Inr s'"
    using Suc.prems(1) by (simp add: b Let_def split: if_splits)
  have named: "names ROUTER (connections s @ [?sock]) j" if "names ROUTER (connections s) j \<or> j = length (connections s)" for j
    using that by (auto simp: names_def nth_append)
  have "take (Suc i) ((bind_sockets s)[i := (addr, ?b)]) = take i (bind_sockets s) @ [(addr, ?b)]"
    using Suc.prems(2) by (simp add: take_Suc_conv_app_nth)
  with Suc.prems named have "\<forall>b\<in>set (take (Suc i) (bind_sockets ?t)). names ROUTER (connections ?t) (bd_index (snd b))"
    by (simp add: ball_Un)
  moreover have "\<forall>ci\<in>set (incoming_conn_index ?t). names ROUTER (connections ?t) (snd ci)"
    using Suc.prems(8) named by (simp add: ball_Un)
  ultimately show ?case using Suc.IH [OF run] Suc.prems(2-6) by simp
qed

end
