(* ===== verification/Connections.thy ===== *)
theory Connections
  imports Startup
begin

text \<open>
  Opening, closing and expiring connections (\<^verbatim>\<open>src/arqmamq/connections.cpp\<close>). The
  control messages that ask for them are read in the theory \<open>Control\<close>; the operations here
  take what was read. \<open>now\<close> is the time of the steady clock, \<open>zmq_connect\<close> the answer of zmq
  to a connect: nothing, or the text of the error it throws.
\<close>

section \<open>Connections to service nodes\<close>

definition usable_peer :: "ConnectionID \<Rightarrow> bool \<Rightarrow> bool \<Rightarrow> ConnectionID \<times> peer_info \<Rightarrow> bool" where
  "usable_peer c incoming_only outgoing_only kp \<longleftrightarrow> cid_eq (fst kp) c
     \<and> \<not> (incoming_only \<and> p_route (snd kp) = []) \<and> \<not> (outgoing_only \<and> p_route (snd kp) \<noteq> [])"

text \<open>Using an outgoing connection once more.\<close>

definition reuse_peer :: "int \<Rightarrow> int \<Rightarrow> peer_info \<Rightarrow> peer_info" where
  "reuse_peer now keep_alive p =
     (if p_route p = [] then
        p_activity now (if p_idle_expiry p < keep_alive then p\<lparr>p_idle_expiry := keep_alive\<rparr> else p)
      else p)"

text \<open>
  \<open>proxy_connect_sn\<close> returns the index of the socket to use, if there is one, and the route.
\<close>

definition proxy_connect_sn ::
  "int \<Rightarrow> (bytes \<Rightarrow> bytes option) \<Rightarrow> bytes \<Rightarrow> bytes \<Rightarrow> bool \<Rightarrow> bool \<Rightarrow> bool \<Rightarrow> bool \<Rightarrow> int \<Rightarrow> net
     \<Rightarrow> ((nat option \<times> bytes) \<times> net) result" where
  "proxy_connect_sn now zmq_connect remote connect_hint optional incoming_only outgoing_only use_ephemeral_routing_id keep_alive s =
     bind_result (conn_of_pubkey remote) (\<lambda>remote_cid.
       case find (usable_peer remote_cid incoming_only outgoing_only) (peers s) of
         Some kp \<Rightarrow>
           if peer_index kp < length (connections s) then
             Inr ((Some (peer_index kp), p_route (snd kp)),
                  s\<lparr>peers := change_first (usable_peer remote_cid incoming_only outgoing_only)
                       (\<lambda>kp. (fst kp, reuse_peer now keep_alive (snd kp))) (peers s)\<rparr>)
           else Inl Undefined_behaviour
       | None \<Rightarrow>
           if optional \<or> incoming_only then Inr ((None, []), s)
           else
             let addr = (if connect_hint = [] then sn_lookup s remote else connect_hint) in
             if addr = [] then Inr ((None, []), s)
             else
               let sock = setup_outgoing_socket s remote use_ephemeral_routing_id (new_socket DEALER) in
               case zmq_connect addr of
                 Some what \<Rightarrow> Inr ((None, []), s)
               | None \<Rightarrow>
                   let i = length (connections s);
                       p = p_activity now ((new_peer_info i)\<lparr>p_service_node := True, p_pubkey := remote,
                             p_idle_expiry := keep_alive\<rparr>)
                   in Inr ((Some i, []),
                        s\<lparr>conn_index_to_id := conn_index_to_id s @ [remote_cid],
                          peers := peers s @ [(remote_cid, p)],
                          connections := connections s @ [sock\<lparr>so_endpoint := addr\<rparr>],
                          pollitems_stale := True\<rparr>))"

section \<open>Connections to other remotes\<close>

text \<open>The contents of a \<open>CONNECT_REMOTE\<close> message; a callback of number 0 is an empty function.\<close>

record remote_args =
  ra_auth_level :: AuthLevel
  ra_conn_id :: int
  ra_on_connect :: nat
  ra_on_failure :: nat
  ra_remote :: bytes
  ra_pubkey :: bytes
  ra_timeout :: int
  ra_ephemeral_rid :: bool

definition forever :: int where "forever = 24 * 10 * 365 * 3600000"

definition open_remote ::
  "int \<Rightarrow> (bytes \<Rightarrow> bytes option) \<Rightarrow> (nat \<Rightarrow> bytes \<Rightarrow> bool \<Rightarrow> send_result) \<Rightarrow> remote_args \<Rightarrow> net \<Rightarrow> net result" where
  "open_remote now zmq_connect zmq_send a s =
     (let sock = setup_outgoing_socket s (ra_pubkey a) (ra_ephemeral_rid a) (new_socket DEALER) in
      case zmq_connect (ra_remote a) of
        Some what \<Rightarrow>
          Inr (upd_sched (proxy_schedule_reply_job
            (FailFn (ra_on_failure a) (conn_of_id (ra_conn_id a)) (''connect() failed: '' @ what))) s)
      | None \<Rightarrow>
          let i = length (connections s);
              s = s\<lparr>connections := connections s @ [sock\<lparr>so_endpoint := ra_remote a\<rparr>], pollitems_stale := True\<rparr>
          in bind_result
               (case send_message_parts zmq_send (direct_message_parts ''HI'' []) of
                  Sent \<Rightarrow> Inr (record_sent i (direct_message_parts ''HI'' []) s)
                | Would_block \<Rightarrow> Inr s
                | Send_error _ \<Rightarrow> Inl Zmq_error)
               (\<lambda>s.
                 let conn = \<lparr>cid_id = ra_conn_id a, cid_pk = ra_pubkey a, cid_route = []\<rparr>;
                     p = p_activity now ((new_peer_info i)\<lparr>p_pubkey := ra_pubkey a, p_service_node := False,
                           p_auth_level := ra_auth_level a, p_idle_expiry := forever\<rparr>)
                 in Inr (s\<lparr>pending_connects := pending_connects s
                              @ [\<lparr>pn_index = i, pn_id = ra_conn_id a, pn_time = now + ra_timeout a,
                                  pn_success = ra_on_connect a, pn_failure = ra_on_failure a\<rparr>],
                           conn_index_to_id := conn_index_to_id s @ [conn],
                           peers := peers s @ [(conn, p)]\<rparr>)))"

definition disconnect_from :: "ConnectionID \<Rightarrow> int \<Rightarrow> net \<Rightarrow> net result" where
  "disconnect_from conn linger s =
     (case find (\<lambda>kp. p_outgoing (snd kp)) (equal_range conn (peers s)) of
        Some kp \<Rightarrow> proxy_close_connection (peer_index kp) linger s
      | None \<Rightarrow> Inr s)"

section \<open>Expiry\<close>

text \<open>
  Closing a connection while an iterator stands in \<open>peers\<close>. Besides the peer at hand, it
  erases every other peer that names the same socket, and the iterator may stand at one of
  them: if there is any, the outcome is undefined here. \<open>mine\<close> is the number of the peers at
  hand that are still in the container.
\<close>

definition close_iterating :: "nat \<Rightarrow> nat \<Rightarrow> int \<Rightarrow> net \<Rightarrow> net result" where
  "close_iterating mine i linger s =
     (if mine < length (filter (\<lambda>kp. peer_index kp = i) (peers s)) then Inl Undefined_behaviour
      else proxy_close_connection i linger s)"

definition idle_peer :: "int \<Rightarrow> peer_info \<Rightarrow> bool" where
  "idle_peer now p \<longleftrightarrow> p_outgoing p \<and> p_idle_expiry p < now - p_last_activity p"

text \<open>The loop, with the number of peers it has not looked at yet.\<close>

fun expire_idle_loop :: "int \<Rightarrow> nat \<Rightarrow> net \<Rightarrow> net result" where
  "expire_idle_loop now 0 s = Inr s"
| "expire_idle_loop now (Suc n) s =
     (let info = snd (peers s ! (length (peers s) - Suc n)) in
      if idle_peer now info then
        bind_result (close_iterating 1 (p_conn_index info) (CLOSE_LINGER (n_settings s)) s) (expire_idle_loop now n)
      else expire_idle_loop now n s)"

definition proxy_expire_idle_peers :: "int \<Rightarrow> net \<Rightarrow> net result" where
  "proxy_expire_idle_peers now s = expire_idle_loop now (length (peers s)) s"

text \<open>
  The timeout of pending connects. The entry is erased from the list, which frees it, before
  the index in it is read to close the connection.
\<close>

fun time_out_connects :: "int \<Rightarrow> pending_connect list \<Rightarrow> net \<Rightarrow> net result" where
  "time_out_connects now [] s = Inr s"
| "time_out_connects now (pc # pcs) s =
     (if pn_time pc < now then
        bind_result (proxy_job (FailFn (pn_failure pc) (conn_of_id (pn_id pc)) ''connection attempt timed out'') s) (\<lambda>s.
          Inl Undefined_behaviour)
      else time_out_connects now pcs s)"

fun time_out_requests :: "int \<Rightarrow> (bytes \<times> (int \<times> nat)) list \<Rightarrow> net \<Rightarrow> net result" where
  "time_out_requests now [] s = Inr s"
| "time_out_requests now ((tag, (expiry, callback)) # rs) s =
     (if expiry < now then
        bind_result (proxy_job (ReplyFn callback False [''TIMEOUT'']) s) (\<lambda>s.
          time_out_requests now rs (s\<lparr>pending_requests := erase_first (\<lambda>r. fst r = tag) (pending_requests s)\<rparr>))
      else time_out_requests now rs s)"

definition proxy_conn_cleanup :: "int \<Rightarrow> net \<Rightarrow> net result" where
  "proxy_conn_cleanup now s =
     bind_result (proxy_expire_idle_peers now s) (\<lambda>s.
     bind_result (time_out_connects now (pending_connects s) s) (\<lambda>s.
     time_out_requests now (pending_requests s) s))"

section \<open>The operations keep the indices valid\<close>

lemma index_inv_cong:
  "connections s' = connections s \<Longrightarrow> conn_index_to_id s' = conn_index_to_id s \<Longrightarrow> peers s' = peers s
   \<Longrightarrow> pending_connects s' = pending_connects s \<Longrightarrow> bind_sockets s' = bind_sockets s
   \<Longrightarrow> incoming_conn_index s' = incoming_conn_index s \<Longrightarrow> index_inv s' = index_inv s"
  by (simp add: index_inv_def)

lemma index_inv_other [simp]:
  "index_inv (s\<lparr>n_sched := sc\<rparr>) = index_inv s" "index_inv (s\<lparr>sent := ms\<rparr>) = index_inv s"
  "index_inv (s\<lparr>pending_requests := rs\<rparr>) = index_inv s" "index_inv (s\<lparr>control_queue := cq\<rparr>) = index_inv s"
  "index_inv (s\<lparr>objects := os\<rparr>) = index_inv s" "index_inv (s\<lparr>active_service_nodes := ns\<rparr>) = index_inv s"
  "index_inv (s\<lparr>pollitems_stale := b\<rparr>) = index_inv s" "index_inv (record_sent i parts s) = index_inv s"
  "index_inv (s\<lparr>n_sched := sc, control_queue := cq\<rparr>) = index_inv s"
  by (simp_all add: index_inv_def record_sent_def)

text \<open>Changes of peers that leave their sockets alone, and removal of peers.\<close>

definition same_place :: "ConnectionID \<times> peer_info \<Rightarrow> ConnectionID \<times> peer_info \<Rightarrow> bool" where
  "same_place kp kq \<longleftrightarrow> fst kq = fst kp \<and> peer_index kq = peer_index kp \<and> p_outgoing (snd kq) = p_outgoing (snd kp)"

lemma change_first_places:
  assumes "\<And>kp. same_place kp (f kp)"
  shows "list_all2 same_place ps (change_first P f ps)"
  using assms by (induction ps) (auto simp: same_place_def list_all2_refl intro!: list_all2_refl)

lemma out_indices_places: "list_all2 same_place ps qs \<Longrightarrow> out_indices qs = out_indices ps"
  by (induction rule: list_all2_induct) (auto simp: out_indices_def same_place_def)

lemma index_inv_places:
  assumes "index_inv s" "list_all2 same_place (peers s) qs"
  shows "index_inv (s\<lparr>peers := qs\<rparr>)"
proof -
  have "peer_ok socks ids kq" if "same_place kp kq" "peer_ok socks ids kp" for socks ids kp kq
    using that by (simp add: same_place_def peer_ok_def)
  then have "\<forall>kp\<in>set qs. peer_ok (connections s) (conn_index_to_id s) kp"
    using assms unfolding index_inv_def by (metis in_set_conv_nth list_all2_conv_all_nth)
  with assms out_indices_places [OF assms(2)] show ?thesis by (simp add: index_inv_def)
qed

lemma index_inv_fewer_peers:
  assumes "index_inv s" "set qs \<subseteq> set (peers s)" "distinct (out_indices qs)"
  shows "index_inv (s\<lparr>peers := qs\<rparr>)"
  using assms by (auto simp: index_inv_def)

lemma out_indices_erase_first: "distinct (out_indices ps) \<Longrightarrow> distinct (out_indices (erase_first P ps))"
proof -
  have "set (out_indices (erase_first P ps)) \<subseteq> set (out_indices ps)
    \<and> (distinct (out_indices ps) \<longrightarrow> distinct (out_indices (erase_first P ps)))"
    by (induction ps) (auto simp: out_indices_def subset_iff)
  then show "distinct (out_indices ps) \<Longrightarrow> distinct (out_indices (erase_first P ps))" by blast
qed

lemma set_erase_first: "set (erase_first P xs) \<subseteq> set xs"
  by (induction xs) auto

lemma index_inv_erase_peer: "index_inv s \<Longrightarrow> index_inv (s\<lparr>peers := erase_first P (peers s)\<rparr>)"
  by (intro index_inv_fewer_peers set_erase_first) (simp_all add: index_inv_def out_indices_erase_first)

text \<open>A new connection, with its peer.\<close>

lemma index_inv_open:
  assumes "index_inv s" "so_type sock = DEALER" "peer_index (cid, p) = length (connections s)" "p_outgoing p"
    and "\<forall>pc\<in>set pcs. pn_index pc = length (connections s)"
  shows "index_inv (s\<lparr>connections := connections s @ [sock], conn_index_to_id := conn_index_to_id s @ [cid],
    peers := peers s @ [(cid, p)], pending_connects := pending_connects s @ pcs, pollitems_stale := b\<rparr>)"
proof -
  have ok: "peer_ok (connections s @ [sock]) (conn_index_to_id s @ [cid]) kp"
    if "peer_ok (connections s) (conn_index_to_id s) kp" for kp
    using that assms(1) by (auto simp: peer_ok_def nth_append index_inv_def)
  have named: "names t (connections s @ [sock]) i" if "names t (connections s) i" for t i
    using that by (simp add: names_def nth_append)
  have "peer_index kp < length (connections s)" if "kp \<in> set (peers s)" for kp
    using that assms(1) by (simp add: index_inv_def peer_ok_def)
  then have "length (connections s) \<notin> set (out_indices (peers s))" by (force simp: out_indices_def)
  moreover have "out_indices (peers s @ [(cid, p)]) = out_indices (peers s) @ [length (connections s)]"
    using assms(3,4) by (simp add: out_indices_def)
  moreover have "peer_ok (connections s @ [sock]) (conn_index_to_id s @ [cid]) (cid, p)"
    using assms(1-4) by (simp add: peer_ok_def index_inv_def nth_append)
  moreover have "names DEALER (connections s @ [sock]) (length (connections s))"
    using assms(2) by (simp add: names_def)
  ultimately show ?thesis
    using assms(1,5) ok named unfolding index_inv_def by (simp add: ball_Un)
qed

lemma index_inv_connect_sn:
  assumes "index_inv s" "length remote = 32"
  obtains r s' where
    "proxy_connect_sn now zmq_connect remote hint optional incoming_only outgoing_only eph keep_alive s = Inr (r, s')"
    "index_inv s'" "\<And>i. fst r = Some i \<Longrightarrow> i < length (connections s')"
proof -
  let ?f = "\<lambda>kp. (fst kp, reuse_peer now keep_alive (snd kp))"
  have same: "same_place kp (?f kp)" for kp
    by (simp add: same_place_def reuse_peer_def p_activity_def p_outgoing_def)
  obtain cid where cid: "conn_of_pubkey remote = Inr cid" using assms(2) by (simp add: conn_of_pubkey_def)
  have ok: "peer_index kp < length (connections s)" if "find P (peers s) = Some kp" for kp P
    using that assms(1) by (auto simp: index_inv_def peer_ok_def find_Some_iff)
  have kept: "index_inv (s\<lparr>peers := change_first P ?f (peers s)\<rparr>)" for P
    by (intro index_inv_places assms(1) change_first_places same)
  have opened: "index_inv (s\<lparr>conn_index_to_id := conn_index_to_id s @ [c], peers := peers s @ [(c, p)],
      connections := connections s @ [sock], pollitems_stale := True\<rparr>)"
    if "so_type sock = DEALER" "p_conn_index p = length (connections s)" "p_route p = []" for c p sock
    using index_inv_open [OF assms(1) that(1), of c p "[]" True] that by (simp add: index_inv_def p_outgoing_def)
  have "\<exists>r s'. proxy_connect_sn now zmq_connect remote hint optional incoming_only outgoing_only eph keep_alive s = Inr (r, s')
    \<and> index_inv s' \<and> (\<forall>i. fst r = Some i \<longrightarrow> i < length (connections s'))"
    using assms(1) ok kept opened unfolding proxy_connect_sn_def cid Let_def
    by (simp add: new_socket_def p_activity_def new_peer_info_def split: option.split if_split)
  with that show thesis by blast
qed

lemma index_inv_open_remote:
  assumes "index_inv s" "open_remote now zmq_connect zmq_send a s = Inr s'"
  shows "index_inv s'"
proof (cases "zmq_connect (ra_remote a)")
  case (Some what)
  with assms show ?thesis by (auto simp: open_remote_def)
next
  case None
  let ?i = "length (connections s)"
  let ?conn = "\<lparr>cid_id = ra_conn_id a, cid_pk = ra_pubkey a, cid_route = []\<rparr>"
  let ?p = "p_activity now ((new_peer_info ?i)\<lparr>p_pubkey := ra_pubkey a, p_service_node := False,
    p_auth_level := ra_auth_level a, p_idle_expiry := forever\<rparr>)"
  let ?pc = "\<lparr>pn_index = ?i, pn_id = ra_conn_id a, pn_time = now + ra_timeout a, pn_success = ra_on_connect a,
    pn_failure = ra_on_failure a\<rparr>"
  let ?sock = "(setup_outgoing_socket s (ra_pubkey a) (ra_ephemeral_rid a) (new_socket DEALER))\<lparr>so_endpoint := ra_remote a\<rparr>"
  let ?s = "s\<lparr>connections := connections s @ [?sock], conn_index_to_id := conn_index_to_id s @ [?conn],
    peers := peers s @ [(?conn, ?p)], pending_connects := pending_connects s @ [?pc], pollitems_stale := True\<rparr>"
  have "index_inv ?s"
    by (rule index_inv_open [OF assms(1)]) (simp_all add: new_socket_def p_activity_def new_peer_info_def p_outgoing_def)
  moreover have "connections s' = connections ?s \<and> conn_index_to_id s' = conn_index_to_id ?s \<and> peers s' = peers ?s
    \<and> pending_connects s' = pending_connects ?s \<and> bind_sockets s' = bind_sockets ?s
    \<and> incoming_conn_index s' = incoming_conn_index ?s"
    using assms(2) None
    by (cases "send_message_parts zmq_send (direct_message_parts ''HI'' [])")
      (auto simp: open_remote_def Let_def record_sent_def)
  ultimately show ?thesis using index_inv_cong [of s' ?s] by blast
qed

lemma peer_in_range: "index_inv s \<Longrightarrow> kp \<in> set (peers s) \<Longrightarrow> peer_index kp < length (connections s)"
  by (simp add: index_inv_def peer_ok_def)

lemma index_inv_disconnect:
  assumes "index_inv s"
  obtains s' where "disconnect_from conn linger s = Inr s'" "index_inv s'"
proof (cases "find (\<lambda>kp. p_outgoing (snd kp)) (equal_range conn (peers s))")
  case None
  with assms that [of s] show thesis by (simp add: disconnect_from_def)
next
  case (Some kp)
  then have "kp \<in> set (peers s)" by (auto simp: find_Some_iff equal_range_def in_set_conv_nth dest!: nth_mem)
  from index_inv_close [OF assms peer_in_range [OF assms this]] Some that show thesis
    by (metis disconnect_from_def option.simps(5))
qed

section \<open>Each peer with its socket\<close>

text \<open>
  The abstract view of the peers: each with the socket it is reached through, not with an
  index. Closing a connection removes the peers of that socket from the view and leaves the
  others untouched.
\<close>

type_synonym viewed_peer = "ConnectionID \<times> peer_info \<times> socket_t"

definition view_peer :: "net \<Rightarrow> ConnectionID \<times> peer_info \<Rightarrow> viewed_peer" where
  "view_peer s kp = (fst kp, (snd kp)\<lparr>p_conn_index := 0\<rparr>, connections s ! peer_index kp)"

definition peer_view :: "net \<Rightarrow> viewed_peer list" where
  "peer_view s = map (view_peer s) (peers s)"

lemma view_close:
  assumes "index_inv s" "proxy_close_connection i linger s = Inr s'"
  shows "peers s' = map (peer_ix.moved i) (filter (\<lambda>kp. peer_index kp \<noteq> i) (peers s))"
    "\<And>kp. kp \<in> set (peers s) \<Longrightarrow> peer_index kp \<noteq> i \<Longrightarrow> view_peer s' (peer_ix.moved i kp) = view_peer s kp"
    "peer_view s' = map (view_peer s) (filter (\<lambda>kp. peer_index kp \<noteq> i) (peers s))"
proof -
  have s': "peers s' = update_connection_indices peer_index put_peer_index i (peers s)"
      "connections s' = remove_nth i (connections s)"
    using assms(2) by (auto simp: proxy_close_connection_def Let_def split: if_splits)
  then show peers: "peers s' = map (peer_ix.moved i) (filter (\<lambda>kp. peer_index kp \<noteq> i) (peers s))"
    by (simp add: peer_ix.update_eq)
  show same: "view_peer s' (peer_ix.moved i kp) = view_peer s kp" if "kp \<in> set (peers s)" "peer_index kp \<noteq> i" for kp
    using peer_ix.same_socket [OF peer_in_range [OF assms(1) that(1)] that(2)] s'(2)
    by (simp add: view_peer_def) (simp add: peer_ix.moved_def)
  then show "peer_view s' = map (view_peer s) (filter (\<lambda>kp. peer_index kp \<noteq> i) (peers s))"
    by (simp add: peer_view_def peers)
qed

text \<open>The socket of an outgoing peer is its own.\<close>

lemma own_socket:
  assumes "index_inv s" "peers s = xs @ kp # ys" "p_outgoing (snd kp)"
  shows "\<forall>q\<in>set (xs @ ys). peer_index q \<noteq> peer_index kp"
proof
  fix q assume q: "q \<in> set (xs @ ys)"
  have ok: "peer_ok (connections s) (conn_index_to_id s) q" "peer_ok (connections s) (conn_index_to_id s) kp"
    using assms(1,2) q by (auto simp: index_inv_def)
  show "peer_index q \<noteq> peer_index kp"
  proof (cases "p_outgoing (snd q)")
    case True
    have "distinct (out_indices (xs @ kp # ys))" using assms(1,2) by (simp add: index_inv_def)
    then have "peer_index kp \<notin> set (out_indices (xs @ ys))" using assms(3) by (simp add: out_indices_def)
    moreover have "peer_index q \<in> set (out_indices (xs @ ys))"
      unfolding out_indices_def set_map set_filter using q True by blast
    ultimately show ?thesis by metis
  next
    case False
    with ok assms(3) show ?thesis by (auto simp: peer_ok_def)
  qed
qed

definition idle_viewed :: "int \<Rightarrow> viewed_peer \<Rightarrow> bool" where
  "idle_viewed now v \<longleftrightarrow> idle_peer now (fst (snd v))"

lemma idle_view [simp]: "idle_viewed now (view_peer s kp) = idle_peer now (snd kp)"
  by (simp add: idle_viewed_def view_peer_def idle_peer_def p_outgoing_def)

lemma close_idle:
  assumes "index_inv s" "peers s = xs @ kp # ys" "p_outgoing (snd kp)"
  obtains s' xs' ys' where "close_iterating 1 (peer_index kp) linger s = Inr s'" "index_inv s'"
    "peers s' = xs' @ ys'" "length xs' = length xs" "length ys' = length ys"
    "map (view_peer s') xs' = map (view_peer s) xs" "map (view_peer s') ys' = map (view_peer s) ys"
proof -
  note own = own_socket [OF assms]
  let ?i = "peer_index kp"
  obtain s' where s': "proxy_close_connection ?i linger s = Inr s'" "index_inv s'"
    using index_inv_close [OF assms(1) peer_in_range [OF assms(1)], of kp linger] assms(2) by auto
  have "filter (\<lambda>q. peer_index q = ?i) (peers s) = [kp]" using own by (auto simp: assms(2) filter_empty_conv)
  then have "close_iterating 1 ?i linger s = Inr s'" using s'(1) by (simp add: close_iterating_def)
  moreover have "filter (\<lambda>q. peer_index q \<noteq> ?i) (peers s) = xs @ ys"
    using own by (auto simp: assms(2) intro: filter_True)
  then have "peers s' = map (peer_ix.moved ?i) xs @ map (peer_ix.moved ?i) ys"
    using view_close(1) [OF assms(1) s'(1)] by simp
  moreover have "view_peer s' (peer_ix.moved ?i q) = view_peer s q" if "q \<in> set (xs @ ys)" for q
    using view_close(2) [OF assms(1) s'(1)] own that by (simp add: assms(2))
  ultimately show thesis using that [OF _ s'(2)] by (metis (no_types, lifting) length_map map_map set_append Un_iff comp_apply map_cong)
qed

lemma expire_idle_loop_view:
  "index_inv s \<Longrightarrow> peers s = xs @ ys \<Longrightarrow> length ys = n \<Longrightarrow>
   \<exists>s'. expire_idle_loop now n s = Inr s' \<and> index_inv s'
      \<and> peer_view s' = map (view_peer s) xs @ filter (\<lambda>v. \<not> idle_viewed now v) (map (view_peer s) ys)"
proof (induction n arbitrary: s xs ys)
  case 0
  then show ?case by (simp add: peer_view_def)
next
  case (Suc n)
  then obtain kp zs where ys: "ys = kp # zs" "length zs = n" by (cases ys) auto
  have at: "peers s ! (length (peers s) - Suc n) = kp" using Suc.prems(2,3) ys by (simp add: nth_append)
  show ?case
  proof (cases "idle_peer now (snd kp)")
    case True
    then have "p_outgoing (snd kp)" by (simp add: idle_peer_def)
    with Suc.prems(1,2) ys(1) obtain s1 xs1 zs1 where s1:
      "close_iterating 1 (peer_index kp) (CLOSE_LINGER (n_settings s)) s = Inr s1" "index_inv s1" "peers s1 = xs1 @ zs1"
      "length zs1 = length zs" "map (view_peer s1) xs1 = map (view_peer s) xs" "map (view_peer s1) zs1 = map (view_peer s) zs"
      using close_idle [of s xs kp zs "CLOSE_LINGER (n_settings s)"] by metis
    from Suc.IH [OF s1(2,3)] s1(4-6) ys True at s1(1) show ?thesis by auto
  next
    case False
    with Suc.IH [OF Suc.prems(1), of "xs @ [kp]" zs] Suc.prems(2) ys at show ?thesis by (auto simp: Let_def)
  qed
qed

section \<open>Timeouts\<close>

text \<open>
  The requests that time out: their callbacks are scheduled once each, in order, and they are
  no longer pending.
\<close>

definition expired_request :: "int \<Rightarrow> bytes \<times> (int \<times> nat) \<Rightarrow> bool" where
  "expired_request now r \<longleftrightarrow> fst (snd r) < now"

definition requests_ok :: "net \<Rightarrow> bool" where
  "requests_ok s \<longleftrightarrow> distinct (map fst (pending_requests s))"

text \<open>The jobs waiting in control messages the proxy has sent itself, and how \<open>proxy_job\<close> adds one.\<close>

definition net_job :: "job_fn \<Rightarrow> net \<Rightarrow> net" where
  "net_job f s =
     (let (p, sc) = new_object (add_job_on f 0 new_batch) (n_sched s)
      in s\<lparr>n_sched := sc, control_queue := control_queue s @ [send_control ''BATCH'' (bt_serialize_int (int p))]\<rparr>)"

lemma proxy_job_eq: "\<not> proxy_shutting_down s \<Longrightarrow> proxy_job f s = Inr (net_job f s)"
  by (simp add: proxy_job_def job_def add_job_def batch_check_not_started_def new_batch_def net_job_def split_beta Let_def)

lemma net_job_parts [simp]:
  "proxy_shutting_down (net_job f s) = proxy_shutting_down s" "pending_requests (net_job f s) = pending_requests s"
  "peers (net_job f s) = peers s" "connections (net_job f s) = connections s" "pending_connects (net_job f s) = pending_connects s"
  "index_inv (net_job f s) = index_inv s"
  by (simp_all add: net_job_def split_beta Let_def)

lemma net_job_requests: "net_job f (s\<lparr>pending_requests := rs\<rparr>) = (net_job f s)\<lparr>pending_requests := rs\<rparr>"
  by (simp add: net_job_def split_beta Let_def)

lemma fold_net_job_requests:
  "fold (\<lambda>r. net_job (ReplyFn (snd (snd r)) False [''TIMEOUT''])) es (u\<lparr>pending_requests := q\<rparr>)
     = (fold (\<lambda>r. net_job (ReplyFn (snd (snd r)) False [''TIMEOUT''])) es u)\<lparr>pending_requests := q\<rparr>"
  by (induction es arbitrary: u) (simp_all add: net_job_requests)

lemma erase_first_tag:
  "distinct (map fst (xs @ r # ys)) \<Longrightarrow> erase_first (\<lambda>q. fst q = fst r) (xs @ r # ys) = xs @ ys"
  by (induction xs) auto

lemma time_out_requests_eq:
  assumes "\<not> proxy_shutting_down s" "pending_requests s = ks @ rs" "distinct (map fst (ks @ rs))"
  shows "time_out_requests now rs s
    = Inr ((fold (\<lambda>r. net_job (ReplyFn (snd (snd r)) False [''TIMEOUT''])) (filter (expired_request now) rs) s)
            \<lparr>pending_requests := ks @ filter (\<lambda>r. \<not> expired_request now r) rs\<rparr>)"
  using assms
proof (induction rs arbitrary: ks s)
  case Nil
  then show ?case by simp
next
  case (Cons r rs)
  obtain tag expiry cb where r: "r = (tag, (expiry, cb))" by (metis surj_pair)
  let ?s = "net_job (ReplyFn cb False [''TIMEOUT'']) s"
  show ?case
  proof (cases "expiry < now")
    case True
    have erase: "erase_first (\<lambda>q. fst q = tag) (ks @ r # rs) = ks @ rs"
      using erase_first_tag [of ks r rs] Cons.prems(3) by (simp add: r)
    with Cons.IH [of "?s\<lparr>pending_requests := ks @ rs\<rparr>" ks] Cons.prems True show ?thesis
      by (simp add: r expired_request_def proxy_job_eq erase [unfolded r] fold_net_job_requests)
  next
    case False
    with Cons.IH [of s "ks @ [r]"] Cons.prems show ?thesis by (simp add: r expired_request_def)
  qed
qed

lemma time_out_connects_none: "\<forall>pc\<in>set pcs. \<not> pn_time pc < now \<Longrightarrow> time_out_connects now pcs s = Inr s"
  by (induction pcs) auto

lemma time_out_connects_some:
  "\<exists>pc\<in>set pcs. pn_time pc < now \<Longrightarrow> \<not> proxy_shutting_down s \<Longrightarrow> time_out_connects now pcs s = Inl Undefined_behaviour"
  by (induction pcs) (auto simp: proxy_job_eq)

section \<open>The whole clean-up\<close>

text \<open>What closing connections leaves as it is.\<close>

definition aside :: "net \<Rightarrow> net \<Rightarrow> bool" where
  "aside s s' \<longleftrightarrow> n_sched s' = n_sched s \<and> control_queue s' = control_queue s \<and> pending_requests s' = pending_requests s
     \<and> proxy_shutting_down s' = proxy_shutting_down s \<and> pn_time ` set (pending_connects s') \<subseteq> pn_time ` set (pending_connects s)"

lemma aside_close: "proxy_close_connection i linger s = Inr s' \<Longrightarrow> aside s s'"
  by (auto simp: proxy_close_connection_def Let_def aside_def connect_ix.update_eq connect_ix.moved_def split: if_splits)

lemma aside_expire: "expire_idle_loop now n s = Inr s' \<Longrightarrow> aside s s'"
proof (induction n arbitrary: s)
  case (Suc n)
  show ?case
  proof (cases "idle_peer now (snd (peers s ! (length (peers s) - Suc n)))")
    case True
    with Suc.prems obtain t where "close_iterating 1 (peer_index (peers s ! (length (peers s) - Suc n))) (CLOSE_LINGER (n_settings s)) s = Inr t"
        "expire_idle_loop now n t = Inr s'"
      by (auto simp: Let_def bind_result_def split: sum.splits)
    then show ?thesis using Suc.IH [of t] aside_close [of _ _ s t] by (fastforce simp: close_iterating_def aside_def split: if_splits)
  next
    case False
    with Suc show ?thesis by (simp add: Let_def)
  qed
qed (simp add: aside_def)

lemma fold_net_job_parts [simp]:
  "peer_view (fold (\<lambda>r. net_job (f r)) rs s) = peer_view s" "index_inv (fold (\<lambda>r. net_job (f r)) rs s) = index_inv s"
proof (induction rs arbitrary: s)
  case (Cons r rs)
  case 1
  show ?case using Cons.IH(1) [of "net_job (f r) s"] by (simp add: peer_view_def view_peer_def fun_eq_iff)
  case 2
  show ?case using Cons.IH(2) [of "net_job (f r) s"] by simp
qed simp_all

lemma fold_net_job_cong:
  "n_sched t = n_sched s \<Longrightarrow> control_queue t = control_queue s
   \<Longrightarrow> n_sched (fold (\<lambda>r. net_job (f r)) rs t) = n_sched (fold (\<lambda>r. net_job (f r)) rs s)
     \<and> control_queue (fold (\<lambda>r. net_job (f r)) rs t) = control_queue (fold (\<lambda>r. net_job (f r)) rs s)"
proof (induction rs arbitrary: s t)
  case (Cons r rs)
  then show ?case using Cons.IH [of "net_job (f r) t" "net_job (f r) s"] by (simp add: net_job_def split_beta Let_def)
qed simp


text \<open>Two service nodes, connected at time 0 with keep-alive times of 30 seconds and 5 minutes, and two requests.\<close>

definition sample_outgoing :: net where
  "sample_outgoing = (init_net 4 (replicate 32 CHR ''k'') (replicate 32 CHR ''s'') False (\<lambda>_. []))
     \<lparr>connections := [new_socket DEALER, new_socket DEALER],
      conn_index_to_id := [\<lparr>cid_id = SN_ID, cid_pk = replicate 32 CHR ''a'', cid_route = []\<rparr>,
                           \<lparr>cid_id = SN_ID, cid_pk = replicate 32 CHR ''b'', cid_route = []\<rparr>],
      peers := [(\<lparr>cid_id = SN_ID, cid_pk = replicate 32 CHR ''a'', cid_route = []\<rparr>, (new_peer_info 0)\<lparr>p_idle_expiry := 30000\<rparr>),
                (\<lparr>cid_id = SN_ID, cid_pk = replicate 32 CHR ''b'', cid_route = []\<rparr>, (new_peer_info 1)\<lparr>p_idle_expiry := 300000\<rparr>)],
      active_service_nodes := [replicate 32 CHR ''a'', replicate 32 CHR ''b''],
      pending_requests := [(''tag1'', 5000, 3), (''tag2'', 900000, 4)]\<rparr>"

lemma sample_outgoing_inv: "index_inv sample_outgoing"
  by (simp add: sample_outgoing_def index_inv_def peer_ok_def out_indices_def p_outgoing_def new_peer_info_def new_socket_def
      init_net_def)

lemma sample_outgoing_view:
  "peer_view sample_outgoing =
     [(\<lparr>cid_id = SN_ID, cid_pk = replicate 32 CHR ''a'', cid_route = []\<rparr>, (new_peer_info 0)\<lparr>p_idle_expiry := 30000\<rparr>, new_socket DEALER),
      (\<lparr>cid_id = SN_ID, cid_pk = replicate 32 CHR ''b'', cid_route = []\<rparr>, (new_peer_info 0)\<lparr>p_idle_expiry := 300000\<rparr>, new_socket DEALER)]"
  "pending_requests sample_outgoing = [(''tag1'', 5000, 3), (''tag2'', 900000, 4)]"
  "active_service_nodes sample_outgoing = [replicate 32 CHR ''a'', replicate 32 CHR ''b'']"
  by (simp_all add: peer_view_def view_peer_def sample_outgoing_def new_peer_info_def)




end
