(* ===== verification/Service_Nodes.thy ===== *)
theory Service_Nodes
  imports Connections
begin

text \<open>
  The set of active service nodes (\<^verbatim>\<open>src/arqmamq/auth.cpp\<close>): replacing and updating it, and
  dropping the peers of the nodes that leave. A \<open>pubkey_set\<close> is a list without repetition, in
  iteration order.
\<close>

section \<open>Operations\<close>

text \<open>The loop over the peers of a node that leaves; \<open>n\<close> is the number of peers in the range.\<close>

fun drop_sn_peers :: "nat \<Rightarrow> ConnectionID \<Rightarrow> net \<Rightarrow> net result" where
  "drop_sn_peers 0 c s = Inr s"
| "drop_sn_peers (Suc n) c s =
     (case find (\<lambda>kp. cid_eq (fst kp) c) (peers s) of
        None \<Rightarrow> Inr s
      | Some kp \<Rightarrow>
          let s = s\<lparr>peers := erase_first (\<lambda>kp. cid_eq (fst kp) c) (peers s)\<rparr>
          in bind_result
               (if p_outgoing (snd kp) then close_iterating 0 (peer_index kp) (CLOSE_LINGER (n_settings s)) s else Inr s)
               (drop_sn_peers n c))"

fun remove_active_sns :: "bytes list \<Rightarrow> net \<Rightarrow> net result" where
  "remove_active_sns [] s = Inr s"
| "remove_active_sns (pk # pks) s =
     bind_result (conn_of_pubkey pk) (\<lambda>c.
       let s = s\<lparr>active_service_nodes := filter (\<lambda>q. q \<noteq> pk) (active_service_nodes s)\<rparr>
       in bind_result (drop_sn_peers (length (equal_range c (peers s))) c s) (remove_active_sns pks))"

fun insert_active_sns :: "bytes list \<Rightarrow> net \<Rightarrow> net" where
  "insert_active_sns [] s = s"
| "insert_active_sns (pk # pks) s =
     insert_active_sns pks
       (if pk \<in> set (active_service_nodes s) then s
        else s\<lparr>active_service_nodes := active_service_nodes s @ [pk]\<rparr>)"

definition proxy_update_active_sns_clean :: "bytes list \<Rightarrow> bytes list \<Rightarrow> net \<Rightarrow> net result" where
  "proxy_update_active_sns_clean added removed s =
     bind_result (remove_active_sns removed s) (\<lambda>s. Inr (insert_active_sns added s))"

definition proxy_update_active_sns :: "bytes list \<Rightarrow> bytes list \<Rightarrow> net \<Rightarrow> net result" where
  "proxy_update_active_sns added removed s =
     (let removed = filter (\<lambda>pk. \<not> (length pk \<noteq> 32)
                        \<and> \<not> (pk \<notin> set (active_service_nodes s) \<or> pk \<in> set added)) removed;
          added = filter (\<lambda>pk. \<not> (length pk \<noteq> 32) \<and> pk \<notin> set (active_service_nodes s)) added
      in proxy_update_active_sns_clean added removed s)"

text \<open>The loop that collects the nodes to remove, with its early end.\<close>

fun collect_removed :: "nat \<Rightarrow> nat \<Rightarrow> bytes list \<Rightarrow> bytes list \<Rightarrow> bytes list \<Rightarrow> bytes list" where
  "collect_removed active_size added_size pubkeys removed [] = removed"
| "collect_removed active_size added_size pubkeys removed (pk # pks) =
     (let removed = (if pk \<notin> set pubkeys then removed @ [pk] else removed)
      in if active_size + added_size - length removed = length pubkeys then removed
         else collect_removed active_size added_size pubkeys removed pks)"

definition proxy_set_active_sns :: "bytes list \<Rightarrow> net \<Rightarrow> net result" where
  "proxy_set_active_sns pubkeys s =
     (let pubkeys = filter (\<lambda>pk. \<not> (length pk \<noteq> 32)) pubkeys;
          added = filter (\<lambda>pk. pk \<notin> set (active_service_nodes s)) pubkeys
      in if added = [] \<and> length (active_service_nodes s) = length pubkeys then Inr s
         else
           let removed = collect_removed (length (active_service_nodes s)) (length added) pubkeys []
                 (active_service_nodes s)
           in proxy_update_active_sns_clean added removed s)"

section \<open>Dropping the peers of a node\<close>

lemma find_split:
  "find P xs = Some x \<Longrightarrow> \<exists>ys zs. xs = ys @ x # zs \<and> P x \<and> (\<forall>y\<in>set ys. \<not> P y) \<and> erase_first P xs = ys @ zs"
proof (induction xs)
  case (Cons a xs)
  show ?case
  proof (cases "P a")
    case True
    with Cons.prems show ?thesis by (intro exI [of _ "[]"] exI [of _ xs]) auto
  next
    case False
    with Cons obtain ys zs where "xs = ys @ x # zs" "P x" "\<forall>y\<in>set ys. \<not> P y" "erase_first P xs = ys @ zs" by auto
    with False show ?thesis by (intro exI [of _ "a # ys"] exI [of _ zs]) auto
  qed
qed simp

lemma view_peer_peers [simp]: "view_peer (s\<lparr>peers := ps\<rparr>) = view_peer s"
  by (simp add: view_peer_def fun_eq_iff)

lemma fst_view [simp]: "fst (view_peer s kp) = fst kp"
  by (simp add: view_peer_def)

lemma close_keeps_active:
  "proxy_close_connection i linger s = Inr s' \<Longrightarrow> active_service_nodes s' = active_service_nodes s \<and> n_sched s' = n_sched s"
  by (auto simp: proxy_close_connection_def Let_def split: if_splits)

lemma index_inv_drop_peer:
  assumes "index_inv s" "peers s = xs @ kp # ys"
  shows "index_inv (s\<lparr>peers := xs @ ys\<rparr>)"
proof (rule index_inv_fewer_peers [OF assms(1)])
  have "out_indices (xs @ kp # ys) = out_indices xs @ out_indices [kp] @ out_indices ys"
    "out_indices (xs @ ys) = out_indices xs @ out_indices ys" by (simp_all add: out_indices_def)
  then show "distinct (out_indices (xs @ ys))" using assms by (auto simp: index_inv_def)
qed (auto simp: assms(2))

text \<open>One round of the loop, as a change of the view.\<close>

lemma drop_round:
  assumes "index_inv s" "peers s = xs @ kp # ys"
  defines "t \<equiv> s\<lparr>peers := xs @ ys\<rparr>"
  obtains s' where
    "(if p_outgoing (snd kp) then close_iterating 0 (peer_index kp) linger t else Inr t) = Inr s'" "index_inv s'"
    "peer_view s' = map (view_peer s) (xs @ ys)" "active_service_nodes s' = active_service_nodes s" "n_sched s' = n_sched s"
proof (cases "p_outgoing (snd kp)")
  case False
  have "index_inv t" unfolding t_def by (rule index_inv_drop_peer [OF assms(1,2)])
  with False that show thesis by (simp add: t_def peer_view_def)
next
  case True
  note own = own_socket [OF assms(1,2) True]
  have inv: "index_inv t" unfolding t_def by (rule index_inv_drop_peer [OF assms(1,2)])
  have "peer_index kp < length (connections t)" using peer_in_range [OF assms(1), of kp] assms(2) by (simp add: t_def)
  from index_inv_close [OF inv this, of linger] obtain s' where
    s': "proxy_close_connection (peer_index kp) linger t = Inr s'" "index_inv s'" .
  have only: "filter (\<lambda>q. peer_index q = peer_index kp) (xs @ ys) = []" "filter (\<lambda>q. peer_index q \<noteq> peer_index kp) (xs @ ys) = xs @ ys"
    using own by (simp_all add: filter_empty_conv filter_id_conv)
  have "peer_view s' = map (view_peer s) (xs @ ys)"
    using view_close(3) [OF inv s'(1)] only(2) by (simp add: t_def del: filter_append map_append)
  moreover have "close_iterating 0 (peer_index kp) linger t = Inr s'"
    using s'(1) only(1) by (simp add: close_iterating_def t_def)
  moreover have "active_service_nodes s' = active_service_nodes s \<and> n_sched s' = n_sched s"
    using close_keeps_active [OF s'(1)] by (simp add: t_def)
  ultimately show thesis using that s'(2) True by simp
qed

lemma equal_range_view: "length (equal_range c (peers s)) = length (filter (\<lambda>v. cid_eq (fst v) c) (peer_view s))"
  by (simp add: equal_range_def peer_view_def filter_map comp_def)

lemma drop_sn_peers_view:
  "index_inv s \<Longrightarrow> length (equal_range c (peers s)) \<le> n \<Longrightarrow>
   \<exists>s'. drop_sn_peers n c s = Inr s' \<and> index_inv s' \<and> active_service_nodes s' = active_service_nodes s
      \<and> n_sched s' = n_sched s \<and> peer_view s' = filter (\<lambda>v. \<not> cid_eq (fst v) c) (peer_view s)"
proof (induction n arbitrary: s)
  case 0
  then have "\<forall>v\<in>set (peer_view s). \<not> cid_eq (fst v) c" by (simp add: equal_range_view filter_empty_conv)
  with 0 show ?case by (simp add: filter_id_conv)
next
  case (Suc n)
  show ?case
  proof (cases "find (\<lambda>kp. cid_eq (fst kp) c) (peers s)")
    case None
    then have "\<forall>v\<in>set (peer_view s). \<not> cid_eq (fst v) c" by (auto simp: find_None_iff peer_view_def)
    with None Suc.prems show ?thesis by (simp add: filter_id_conv)
  next
    case (Some kp)
    from find_split [OF this] obtain xs ys where kp: "peers s = xs @ kp # ys" "cid_eq (fst kp) c"
        "erase_first (\<lambda>kp. cid_eq (fst kp) c) (peers s) = xs @ ys" by blast
    obtain t where t: "(if p_outgoing (snd kp) then close_iterating 0 (peer_index kp) (CLOSE_LINGER (n_settings s))
          (s\<lparr>peers := xs @ ys\<rparr>) else Inr (s\<lparr>peers := xs @ ys\<rparr>)) = Inr t" "index_inv t"
        "peer_view t = map (view_peer s) (xs @ ys)" "active_service_nodes t = active_service_nodes s" "n_sched t = n_sched s"
      by (rule drop_round [OF Suc.prems(1) kp(1)])
    have view: "filter (\<lambda>v. \<not> cid_eq (fst v) c) (peer_view t) = filter (\<lambda>v. \<not> cid_eq (fst v) c) (peer_view s)"
      using kp(2) unfolding t(3) by (simp add: peer_view_def kp(1))
    have "length (equal_range c (peers t)) \<le> n"
      using Suc.prems(2) kp(2) unfolding equal_range_view t(3) by (simp add: peer_view_def kp(1))
    moreover have "drop_sn_peers (Suc n) c s = drop_sn_peers n c t"
      using Some t(1) kp(3) by (simp add: Let_def split: if_splits)
    ultimately show ?thesis using Suc.IH [OF t(2)] t(4,5) view by simp
  qed
qed

abbreviation sn_cid :: "bytes \<Rightarrow> ConnectionID" where
  "sn_cid pk \<equiv> \<lparr>cid_id = SN_ID, cid_pk = pk, cid_route = []\<rparr>"

lemma remove_active_sns_view:
  "index_inv s \<Longrightarrow> \<forall>pk\<in>set pks. length pk = 32 \<Longrightarrow>
   \<exists>s'. remove_active_sns pks s = Inr s' \<and> index_inv s' \<and> n_sched s' = n_sched s
      \<and> active_service_nodes s' = filter (\<lambda>pk. pk \<notin> set pks) (active_service_nodes s)
      \<and> peer_view s' = filter (\<lambda>v. \<forall>pk\<in>set pks. \<not> cid_eq (fst v) (sn_cid pk)) (peer_view s)"
proof (induction pks arbitrary: s)
  case (Cons pk pks)
  let ?t = "s\<lparr>active_service_nodes := filter (\<lambda>q. q \<noteq> pk) (active_service_nodes s)\<rparr>"
  have "index_inv ?t" "peer_view ?t = peer_view s" using Cons.prems(1) by (simp_all add: peer_view_def view_peer_def)
  with drop_sn_peers_view [of ?t "sn_cid pk" "length (equal_range (sn_cid pk) (peers ?t))"] obtain u where
    u: "drop_sn_peers (length (equal_range (sn_cid pk) (peers ?t))) (sn_cid pk) ?t = Inr u" "index_inv u"
      "active_service_nodes u = active_service_nodes ?t" "n_sched u = n_sched s"
      "peer_view u = filter (\<lambda>v. \<not> cid_eq (fst v) (sn_cid pk)) (peer_view s)" by auto
  from Cons.IH [OF u(2)] Cons.prems(2) obtain s' where
    s': "remove_active_sns pks u = Inr s'" "index_inv s'" "n_sched s' = n_sched s"
      "active_service_nodes s' = filter (\<lambda>q. q \<notin> set pks) (active_service_nodes u)"
      "peer_view s' = filter (\<lambda>v. \<forall>pk\<in>set pks. \<not> cid_eq (fst v) (sn_cid pk)) (peer_view u)" using u(4) by auto
  have "conn_of_pubkey pk = Inr (sn_cid pk)" using Cons.prems(2) by (simp add: conn_of_pubkey_def)
  then have "remove_active_sns (pk # pks) s = Inr s'" using u(1) s'(1) by (simp add: Let_def)
  moreover have "active_service_nodes s' = filter (\<lambda>q. q \<notin> set (pk # pks)) (active_service_nodes s)"
    using s'(4) u(3) by (simp add: conj_commute)
  moreover have "peer_view s' = filter (\<lambda>v. \<forall>q\<in>set (pk # pks). \<not> cid_eq (fst v) (sn_cid q)) (peer_view s)"
    using s'(5) u(5) by (simp add: conj_commute)
  ultimately show ?case using s'(2,3) by blast
qed simp

lemma insert_active_sns_eq:
  "set (active_service_nodes (insert_active_sns pks s)) = set (active_service_nodes s) \<union> set pks"
  "distinct (active_service_nodes s) \<Longrightarrow> distinct (active_service_nodes (insert_active_sns pks s))"
  "peer_view (insert_active_sns pks s) = peer_view s" "index_inv (insert_active_sns pks s) = index_inv s"
  "n_sched (insert_active_sns pks s) = n_sched s"
  by (induction pks arbitrary: s) (simp_all add: peer_view_def view_peer_def insert_absorb)

section \<open>The new set\<close>

text \<open>The early end of the loop loses no node.\<close>

lemma collect_removed_eq:
  assumes "distinct active" "distinct pubkeys" "added = filter (\<lambda>pk. pk \<notin> set active) pubkeys"
    and "active = ds @ pks" "removed = filter (\<lambda>pk. pk \<notin> set pubkeys) ds"
  shows "set (collect_removed (length active) (length added) pubkeys removed pks) = set active - set pubkeys"
  using assms(4,5)
proof (induction pks arbitrary: ds removed)
  case Nil
  then show ?case by auto
next
  case (Cons pk pks)
  let ?removed = "if pk \<notin> set pubkeys then removed @ [pk] else removed"
  have r: "?removed = filter (\<lambda>pk. pk \<notin> set pubkeys) (ds @ [pk])" using Cons.prems(2) by simp
  show ?case
  proof (cases "length active + length added - length ?removed = length pubkeys")
    case True
    have "distinct added" "distinct ?removed" using assms(1-3) Cons.prems(1) unfolding r by auto
    note counts = distinct_card [OF assms(1)] distinct_card [OF assms(2)] distinct_card [OF this(1)] distinct_card [OF this(2)]
    have sub: "set ?removed \<subseteq> set active - set pubkeys" using Cons.prems unfolding r by auto
    have "card (set pubkeys) = card (set added) + card (set active \<inter> set pubkeys)"
      unfolding assms(3) by (subst card_Un_disjoint [symmetric]) (auto intro!: arg_cong [of _ _ card])
    moreover have "card (set active) = card (set active - set pubkeys) + card (set active \<inter> set pubkeys)"
      by (subst card_Un_disjoint [symmetric]) (auto intro!: arg_cong [of _ _ card])
    moreover have "card (set ?removed) \<le> card (set active - set pubkeys)" by (rule card_mono) (use sub in auto)
    ultimately have "card (set active - set pubkeys) = card (set ?removed)"
      using True unfolding counts by linarith
    with sub have "set ?removed = set active - set pubkeys" by (intro card_subset_eq) auto
    with True show ?thesis by (simp add: Let_def)
  next
    case False
    then have "collect_removed (length active) (length added) pubkeys removed (pk # pks)
        = collect_removed (length active) (length added) pubkeys ?removed pks"
      by (simp only: collect_removed.simps Let_def if_False)
    with Cons.IH [of "ds @ [pk]" ?removed, OF _ r] Cons.prems(1) show ?thesis by simp
  qed
qed

lemma cid_eq_sn: "cid_eq c (sn_cid pk) \<longleftrightarrow> cid_sn c \<and> cid_pk c = pk"
  by (auto simp: cid_eq_def cid_sn_def)

definition sns_ok :: "net \<Rightarrow> bool" where
  "sns_ok s \<longleftrightarrow> distinct (active_service_nodes s) \<and> (\<forall>pk\<in>set (active_service_nodes s). length pk = 32)"

lemma update_clean_view:
  assumes "index_inv s" "sns_ok s" "\<forall>pk\<in>set removed. length pk = 32" "\<forall>pk\<in>set added. length pk = 32"
  shows "\<exists>s'. proxy_update_active_sns_clean added removed s = Inr s' \<and> index_inv s' \<and> sns_ok s' \<and> n_sched s' = n_sched s
    \<and> set (active_service_nodes s') = set (active_service_nodes s) - set removed \<union> set added
    \<and> peer_view s' = filter (\<lambda>v. \<forall>pk\<in>set removed. \<not> cid_eq (fst v) (sn_cid pk)) (peer_view s)"
proof -
  from remove_active_sns_view [OF assms(1,3)] obtain t where
    t: "remove_active_sns removed s = Inr t" "index_inv t" "n_sched t = n_sched s"
      "active_service_nodes t = filter (\<lambda>pk. pk \<notin> set removed) (active_service_nodes s)"
      "peer_view t = filter (\<lambda>v. \<forall>pk\<in>set removed. \<not> cid_eq (fst v) (sn_cid pk)) (peer_view s)" by blast
  have "set (active_service_nodes t) = set (active_service_nodes s) - set removed" using t(4) by auto
  moreover have "sns_ok (insert_active_sns added t)"
    using assms(2,4) t(4) by (auto simp: sns_ok_def insert_active_sns_eq)
  ultimately show ?thesis
    using t by (auto simp: proxy_update_active_sns_clean_def insert_active_sns_eq)
qed

text \<open>
  C13: \<open>proxy_set_active_sns\<close> makes the given keys of 32 bytes, and no others, the active
  service nodes, although it stops looking for removed nodes as soon as the numbers add up.
  It closes the outgoing connections of the nodes that leave and forgets their incoming
  peers; every other peer stays and is still reached through the same socket. It throws
  nothing.
\<close>

theorem set_active_sns_result:
  assumes "index_inv s" "sns_ok s" "distinct pubkeys"
  shows "\<exists>s'. proxy_set_active_sns pubkeys s = Inr s' \<and> index_inv s' \<and> sns_ok s'
    \<and> set (active_service_nodes s') = {pk \<in> set pubkeys. length pk = 32}
    \<and> peer_view s' = filter (\<lambda>v. \<not> (cid_sn (fst v) \<and> cid_pk (fst v) \<in> set (active_service_nodes s)
         \<and> cid_pk (fst v) \<notin> set pubkeys)) (peer_view s)"
proof -
  let ?pubkeys = "filter (\<lambda>pk. \<not> (length pk \<noteq> 32)) pubkeys" and ?active = "active_service_nodes s"
  let ?added = "filter (\<lambda>pk. pk \<notin> set ?active) ?pubkeys"
  let ?removed = "collect_removed (length ?active) (length ?added) ?pubkeys [] ?active"
  have sns: "distinct ?active" "\<forall>pk\<in>set ?active. length pk = 32" using assms(2) by (simp_all add: sns_ok_def)
  have gone: "cid_sn (fst v) \<and> cid_pk (fst v) \<in> set ?active \<and> cid_pk (fst v) \<notin> set pubkeys
      \<longleftrightarrow> (\<exists>pk\<in>set ?active - set ?pubkeys. cid_eq (fst v) (sn_cid pk))" for v :: viewed_peer
    using sns(2) unfolding cid_eq_sn by auto
  show ?thesis
  proof (cases "?added = [] \<and> length ?active = length ?pubkeys")
    case True
    then have "set ?pubkeys \<subseteq> set ?active" by (auto simp: filter_empty_conv)
    moreover have "card (set ?pubkeys) = card (set ?active)"
      using True sns(1) assms(3) by (simp add: distinct_card del: set_filter)
    ultimately have same: "set ?pubkeys = set ?active" by (intro card_subset_eq) auto
    then have "peer_view s = filter (\<lambda>v. \<not> (cid_sn (fst v) \<and> cid_pk (fst v) \<in> set ?active \<and> cid_pk (fst v) \<notin> set pubkeys)) (peer_view s)"
      unfolding gone by (simp add: filter_id_conv)
    with True same assms(1,2) show ?thesis by (auto simp: proxy_set_active_sns_def)
  next
    case False
    have removed: "set ?removed = set ?active - set ?pubkeys"
      by (rule collect_removed_eq [OF sns(1), of _ _ "[]"]) (use assms(3) in simp_all)
    from False have eq: "proxy_set_active_sns pubkeys s = proxy_update_active_sns_clean ?added ?removed s"
      unfolding proxy_set_active_sns_def Let_def by (rule if_not_P)
    have "\<forall>pk\<in>set ?removed. length pk = 32" using sns(2) unfolding removed by blast
    moreover have "\<forall>pk\<in>set ?added. length pk = 32" by simp
    ultimately obtain s' where s': "proxy_update_active_sns_clean ?added ?removed s = Inr s'" "index_inv s'" "sns_ok s'"
      "set (active_service_nodes s') = set ?active - set ?removed \<union> set ?added"
      "peer_view s' = filter (\<lambda>v. \<forall>pk\<in>set ?removed. \<not> cid_eq (fst v) (sn_cid pk)) (peer_view s)"
      using update_clean_view [OF assms(1,2)] by blast
    have "set (active_service_nodes s') = {pk \<in> set pubkeys. length pk = 32}"
      using s'(4) sns(2) unfolding removed by auto
    moreover have "peer_view s' = filter (\<lambda>v. \<not> (cid_sn (fst v) \<and> cid_pk (fst v) \<in> set ?active \<and> cid_pk (fst v) \<notin> set pubkeys)) (peer_view s)"
      using s'(5) unfolding removed gone by simp
    ultimately show ?thesis using eq s'(1-3) by simp
  qed
qed

theorem set_active_sns_result_witness:
  "\<exists>s'. proxy_set_active_sns [replicate 32 CHR ''b'', replicate 32 CHR ''c'', ''short''] sample_outgoing = Inr s'
     \<and> set (active_service_nodes s') = {replicate 32 CHR ''b'', replicate 32 CHR ''c''}
     \<and> map (cid_pk \<circ> fst) (peer_view s') = [replicate 32 CHR ''b'']"
proof -
  let ?keys = "[replicate 32 CHR ''b'', replicate 32 CHR ''c'', ''short'']"
  have keys: "replicate 32 CHR ''a'' \<noteq> replicate 32 CHR ''b''" "replicate 32 CHR ''a'' \<noteq> replicate 32 CHR ''c''"
      "replicate 32 CHR ''b'' \<noteq> replicate 32 CHR ''c''" by simp_all
  have short: "replicate 32 c \<noteq> ''short''" for c by (rule notI) (drule arg_cong [of _ _ length], simp)
  have "sns_ok sample_outgoing" "distinct ?keys"
    using keys short by (simp_all add: sns_ok_def sample_outgoing_view)
  from set_active_sns_result [OF sample_outgoing_inv this] obtain s' where "proxy_set_active_sns ?keys sample_outgoing = Inr s'"
    "set (active_service_nodes s') = {pk \<in> set ?keys. length pk = 32}"
    "peer_view s' = filter (\<lambda>v. \<not> (cid_sn (fst v) \<and> cid_pk (fst v) \<in> set (active_service_nodes sample_outgoing)
         \<and> cid_pk (fst v) \<notin> set ?keys)) (peer_view sample_outgoing)" by blast
  moreover have "{pk \<in> set ?keys. length pk = 32} = {replicate 32 CHR ''b'', replicate 32 CHR ''c''}" by auto
  ultimately show ?thesis
    using keys short by (simp add: sample_outgoing_view cid_sn_def)
qed

end
