(* ===== verification/Client.thy ===== *)
theory Client
  imports Service_Nodes Address
begin

text \<open>
  What the threads of the program ask the proxy to do: the options of \<open>send\<close>, \<open>request\<close>,
  \<open>connect_remote\<close> and \<open>connect_sn\<close> (\<^verbatim>\<open>src/arqmamq/arqmamq.h\<close>) and the control
  messages that these and the other calls send. The objects whose addresses travel in a
  message are put into the memory \<open>objects\<close>.
\<close>

section \<open>Control messages\<close>

text \<open>Assignment to an element of a \<^verbatim>\<open>std::map\<close>.\<close>

fun dict_put :: "bytes \<Rightarrow> 'a \<Rightarrow> (bytes \<times> 'a) list \<Rightarrow> (bytes \<times> 'a) list" where
  "dict_put k v [] = [(k, v)]"
| "dict_put k v ((k', v') # d) =
     (if k < k' then (k, v) # (k', v') # d
      else if k = k' then (k, v) # d
      else (k', v') # dict_put k v d)"

text \<open>
  \<open>get_control_socket\<close> throws in a thread that has no control socket yet once the proxy is
  shutting down; what a thread sends later on a socket it has is never read.
\<close>

definition control_message :: "bytes \<Rightarrow> bytes \<Rightarrow> net \<Rightarrow> net result" where
  "control_message cmd data s =
     (if proxy_shutting_down s then Inl Runtime_error
      else Inr (s\<lparr>control_queue := control_queue s @ [send_control cmd data]\<rparr>))"

definition bt_bool :: "bool \<Rightarrow> bt_value" where
  "bt_bool b = bt_value_of_int bool_type (of_bool b)"

definition bt_ll :: "int \<Rightarrow> bt_value" where
  "bt_ll i = bt_value_of_int int64 i"

definition bt_ptr :: "ptr \<Rightarrow> bt_value" where
  "bt_ptr p = bt_value_of_int uint64 (int p)"

text \<open>Putting an object into memory and its address into a dict.\<close>

definition put_object :: "bytes \<Rightarrow> obj \<Rightarrow> bt_dict \<times> net \<Rightarrow> bt_dict \<times> net" where
  "put_object k x = (\<lambda>(d, s). let (p, s) = serialize_object x s in (dict_put k (bt_ptr p) d, s))"

section \<open>Sending\<close>

text \<open>
  The options of \<open>send\<close>: a further part of the message, a range of parts, and the structs of
  the namespace \<open>send_option\<close>; each may be given in a \<^verbatim>\<open>std::optional\<close>.
\<close>

datatype send_option =
    SendPart bytes
  | SendOpt "send_option option"
  | SendDataParts "bytes list"
  | SendHint bytes
  | SendOptional bool
  | SendIncoming bool
  | SendOutgoing bool
  | SendKeepAlive int
  | SendRequestTimeout int
  | SendQueueFailure nat
  | SendQueueFull nat

fun apply_send_option :: "send_option \<Rightarrow> bt_list \<times> bt_dict \<times> net \<Rightarrow> bt_list \<times> bt_dict \<times> net" where
  "apply_send_option (SendPart arg) (parts, d, s) = (parts @ [BtStringView arg], d, s)"
| "apply_send_option (SendOpt opt) (parts, d, s) =
     (case opt of Some x \<Rightarrow> apply_send_option x (parts, d, s) | None \<Rightarrow> (parts, d, s))"
| "apply_send_option (SendDataParts data) (parts, d, s) = (parts @ map BtString data, d, s)"
| "apply_send_option (SendHint hint) (parts, d, s) = (parts, dict_put ''hint'' (BtString hint) d, s)"
| "apply_send_option (SendOptional b) (parts, d, s) = (parts, dict_put ''optional'' (bt_bool b) d, s)"
| "apply_send_option (SendIncoming b) (parts, d, s) = (parts, dict_put ''incoming'' (bt_bool b) d, s)"
| "apply_send_option (SendOutgoing b) (parts, d, s) = (parts, dict_put ''outgoing'' (bt_bool b) d, s)"
| "apply_send_option (SendKeepAlive t) (parts, d, s) = (parts, dict_put ''keep_alive'' (bt_ll t) d, s)"
| "apply_send_option (SendRequestTimeout t) (parts, d, s) = (parts, dict_put ''request_timeout'' (bt_ll t) d, s)"
| "apply_send_option (SendQueueFailure f) (parts, d, s) = (parts, put_object ''send_fail'' (QueueFailureObj f) (d, s))"
| "apply_send_option (SendQueueFull f) (parts, d, s) = (parts, put_object ''send_full_q'' (QueueFullObj f) (d, s))"

definition build_send :: "ConnectionID \<Rightarrow> bytes \<Rightarrow> send_option list \<Rightarrow> net \<Rightarrow> bt_dict \<times> net" where
  "build_send to cmd opts s =
     (let (parts, d, s) = fold apply_send_option opts ([BtStringView cmd], [], s);
          d = (if cid_sn to then dict_put ''conn_pubkey'' (BtString (cid_pk to)) d
               else dict_put ''conn_route'' (BtString (cid_route to)) (dict_put ''conn_id'' (bt_ll (cid_id to)) d))
      in (dict_put ''send'' (BtList parts) d, s))"

definition send :: "ConnectionID \<Rightarrow> bytes \<Rightarrow> send_option list \<Rightarrow> net \<Rightarrow> net result" where
  "send to cmd opts s =
     (let (d, s) = build_send to cmd opts s
      in control_message ''SEND'' (bt_serialize_value (BtDict d)) s)"

text \<open>\<open>request\<close>, with the random tag as an argument.\<close>

definition request :: "bytes \<Rightarrow> ConnectionID \<Rightarrow> bytes \<Rightarrow> nat \<Rightarrow> send_option list \<Rightarrow> net \<Rightarrow> net result" where
  "request reply_tag to cmd callback opts s =
     (let (d, s) = build_send to cmd (SendPart reply_tag # opts) s;
          d = dict_put ''request'' (bt_bool True) d;
          (d, s) = put_object ''request_callback'' (ReplyCallbackObj callback) (d, s);
          d = dict_put ''request_tag'' (BtStringView reply_tag) d
      in control_message ''SEND'' (bt_serialize_value (BtDict d)) s)"

text \<open>What a handler of a command calls to answer: a message, a reply to a request, a request of its own.\<close>

definition send_back :: "ConnectionID \<Rightarrow> bytes \<Rightarrow> send_option list \<Rightarrow> net \<Rightarrow> net result" where
  "send_back conn cmd args = send conn cmd (SendOptional (\<not> cid_sn conn) # args)"

definition send_reply :: "ConnectionID \<Rightarrow> bytes \<Rightarrow> send_option list \<Rightarrow> net \<Rightarrow> net result" where
  "send_reply conn reply_tag args = send conn ''REPLY'' (SendPart reply_tag # SendOptional (\<not> cid_sn conn) # args)"

definition send_request :: "bytes \<Rightarrow> ConnectionID \<Rightarrow> bytes \<Rightarrow> nat \<Rightarrow> send_option list \<Rightarrow> net \<Rightarrow> net result" where
  "send_request random_tag conn cmd callback args = request random_tag conn cmd callback (SendOptional (\<not> cid_sn conn) # args)"

section \<open>Connecting\<close>

text \<open>The last two are deprecated: a plain duration and a plain string.\<close>

datatype connect_option =
    ConnectAuth AuthLevel
  | ConnectEphemeral bool
  | ConnectTimeout int
  | ConnectKeepAlive int
  | ConnectHint bytes
  | ConnectTime int
  | ConnectString bytes

fun apply_connect_option :: "bool \<Rightarrow> connect_option \<Rightarrow> bt_dict \<Rightarrow> bt_dict" where
  "apply_connect_option remote (ConnectAuth a) d = (if remote then dict_put ''auth_level'' (bt_ll (auth_value a)) d else d)"
| "apply_connect_option remote (ConnectEphemeral b) d = dict_put ''ephemeral_rid'' (bt_bool b) d"
| "apply_connect_option remote (ConnectTimeout t) d = (if remote then dict_put ''timeout'' (bt_ll t) d else d)"
| "apply_connect_option remote (ConnectKeepAlive t) d = (if \<not> remote then dict_put ''keep_alive'' (bt_ll t) d else d)"
| "apply_connect_option remote (ConnectHint h) d = (if \<not> remote then dict_put ''hint'' (BtString h) d else d)"
| "apply_connect_option remote (ConnectTime t) d =
     (if remote then dict_put ''timeout'' (bt_ll t) d else dict_put ''keep_alive'' (bt_ll t) d)"
| "apply_connect_option remote (ConnectString h) d = (if \<not> remote then dict_put ''hint'' (BtStringView h) d else d)"

definition connect_remote :: "address \<Rightarrow> nat \<Rightarrow> nat \<Rightarrow> connect_option list \<Rightarrow> net \<Rightarrow> (ConnectionID \<times> net) result" where
  "connect_remote remote on_connect on_failure options s =
     (let d = fold (apply_connect_option True) options [];
          i = next_conn_id s;
          s = s\<lparr>next_conn_id := i + 1\<rparr>;
          d = dict_put ''conn_id'' (bt_ll i) d;
          (d, s) = put_object ''connect'' (ConnectSuccessObj on_connect) (d, s);
          (d, s) = put_object ''failure'' (ConnectFailureObj on_failure) (d, s);
          d = (if is_curve remote then dict_put ''pubkey'' (BtString (a_pubkey remote)) d else d);
          d = dict_put ''remote'' (BtString (zmq_address remote)) d
      in bind_result (control_message ''CONNECT_REMOTE'' (bt_serialize_value (BtDict d)) s) (\<lambda>s.
           Inr (conn_of_id i, s)))"

text \<open>The two older forms take the address as a string.\<close>

definition connect_remote_string :: "bytes \<Rightarrow> nat \<Rightarrow> nat \<Rightarrow> AuthLevel \<Rightarrow> int \<Rightarrow> net \<Rightarrow> (ConnectionID \<times> net) result" where
  "connect_remote_string remote on_connect on_failure auth_level timeout s =
     bind_result (address_of remote) (\<lambda>a.
       connect_remote a on_connect on_failure [ConnectAuth auth_level, ConnectTimeout timeout] s)"

definition connect_remote_pubkey ::
  "bytes \<Rightarrow> nat \<Rightarrow> nat \<Rightarrow> bytes \<Rightarrow> AuthLevel \<Rightarrow> int \<Rightarrow> net \<Rightarrow> (ConnectionID \<times> net) result" where
  "connect_remote_pubkey remote on_connect on_failure pubkey auth_level timeout s =
     bind_result (address_of remote) (\<lambda>a. bind_result (set_pubkey pubkey a) (\<lambda>a.
       connect_remote a on_connect on_failure [ConnectAuth auth_level, ConnectTimeout timeout] s))"

text \<open>
  \<open>connect_sn\<close> sends the message before it makes the identifier it returns, which throws for
  a key of another size than 32: the state is that after the message, in either case.
\<close>

definition connect_sn :: "bytes \<Rightarrow> connect_option list \<Rightarrow> net \<Rightarrow> (ConnectionID result \<times> net) result" where
  "connect_sn pubkey options s =
     (let d = dict_put ''ephemeral_rid'' (bt_bool (EPHEMERAL_ROUTING_ID (n_settings s)))
                (dict_put ''keep_alive'' (bt_ll DEFAULT_CONNECT_SN_KEEP_ALIVE) []);
          d = fold (apply_connect_option False) options d;
          d = dict_put ''pubkey'' (BtStringView pubkey) d
      in bind_result (control_message ''CONNECT_SN'' (bt_serialize_value (BtDict d)) s) (\<lambda>s.
           Inr (conn_of_pubkey pubkey, s)))"

definition disconnect :: "ConnectionID \<Rightarrow> int \<Rightarrow> net \<Rightarrow> net result" where
  "disconnect conn linger s =
     control_message ''DISCONNECT'' (bt_serialize_value (BtDict
       [(''conn_id'', bt_ll (cid_id conn)), (''linger_ms'', bt_ll linger), (''pubkey'', BtString (cid_pk conn))])) s"

section \<open>Service nodes, timers and tasks\<close>

text \<open>Before the proxy runs these are done at once, afterwards by a control message.\<close>

definition set_active_sns :: "bytes list \<Rightarrow> net \<Rightarrow> net result" where
  "set_active_sns pubkeys s =
     (if proxy_joinable (n_sched s) then
        let (p, s) = serialize_object (PubkeySetObj pubkeys) s
        in control_message ''SET_SNS'' (bt_serialize_int (int p)) s
      else proxy_set_active_sns pubkeys s)"

definition update_active_sns :: "bytes list \<Rightarrow> bytes list \<Rightarrow> net \<Rightarrow> net result" where
  "update_active_sns added removed s =
     (if proxy_joinable (n_sched s) then
        let (p, s) = serialize_object (PubkeySetObj added) s;
            (q, s) = serialize_object (PubkeySetObj removed) s
        in control_message ''UPDATE_SNS'' (bt_serialize_list bt_serialize_int [int p, int q]) s
      else proxy_update_active_sns added removed s)"

definition add_timer :: "int \<Rightarrow> job_fn \<Rightarrow> int \<Rightarrow> bool \<Rightarrow> int option \<Rightarrow> net \<Rightarrow> (int \<times> net) result" where
  "add_timer zmq_timer_id f interval squelch thread s =
     (let th_id = (case thread of Some t \<Rightarrow> t | None \<Rightarrow> 0);
          tid = next_timer_id s;
          s = s\<lparr>next_timer_id := tid + 1\<rparr>
      in bind_result
           (if proxy_joinable (n_sched s) then
              let (p, s) = serialize_object (FunctionObj f) s
              in control_message ''TIMER'' (bt_serialize_value (BtList
                   [bt_ll tid, bt_ptr p, bt_ll interval, bt_bool squelch, bt_ll th_id])) s
            else bind_result (proxy_timer_add zmq_timer_id tid f interval squelch th_id (n_sched s)) (\<lambda>sc.
                   Inr (s\<lparr>n_sched := sc\<rparr>)))
           (\<lambda>s. Inr (tid, s)))"

definition cancel_timer :: "int \<Rightarrow> net \<Rightarrow> net result" where
  "cancel_timer tid s =
     (if proxy_joinable (n_sched s) then control_message ''TIMER_DEL'' (bt_serialize_int tid) s
      else Inr (upd_sched (proxy_timer_del tid) s))"

text \<open>\<open>inject_task\<close>; an empty function, the number 0, is ignored.\<close>

definition inject_task :: "bytes \<Rightarrow> bytes \<Rightarrow> bytes \<Rightarrow> nat \<Rightarrow> net \<Rightarrow> net result" where
  "inject_task cat command remote callback s =
     (if callback = 0 then Inr s
      else if cat \<notin> set (map fst (categories (n_sched s))) then Inl Out_of_range
      else
        let (p, s) = serialize_object (TaskObj \<lparr>it_cat = cat, it_command = command, it_remote = remote,
              it_callback = UserFn callback\<rparr>) s
        in control_message ''INJECT'' (bt_serialize_int (int p)) s)"

section \<open>Batches\<close>

text \<open>Handing a batch to the proxy, and a batch of one job, optionally for a tagged thread.\<close>

definition batch_net :: "job_batch \<Rightarrow> net \<Rightarrow> net result" where
  "batch_net b s =
     (if fst (batch_size b) = 0 then Inl Logic_error
      else
        let (p, sc) = new_object b (n_sched s)
        in control_message ''BATCH'' (bt_serialize_int (int p)) (s\<lparr>n_sched := sc\<rparr>))"

definition job_net :: "job_fn \<Rightarrow> int option \<Rightarrow> net \<Rightarrow> net result" where
  "job_net f thread s =
     bind_result (job f thread (n_sched s)) (\<lambda>(p, sc).
       control_message ''BATCH'' (bt_serialize_int (int p)) (s\<lparr>n_sched := sc\<rparr>))"

section \<open>Random tags\<close>

text \<open>
  \<open>make_random_string\<close>, with the numbers of the generator as an argument; the bytes of a number
  are in the order of a little-endian machine.
\<close>

definition bytes_of_word :: "64 word \<Rightarrow> bytes" where
  "bytes_of_word x = map (\<lambda>i. char_of (unat (drop_bit (8 * i) x) mod 256)) [0..<8]"

function random_loop :: "(nat \<Rightarrow> 64 word) \<Rightarrow> nat \<Rightarrow> bytes \<Rightarrow> bytes" where
  "random_loop rng n rando =
     (if length rando < n
      then random_loop (\<lambda>k. rng (Suc k)) n (rando @ take (min (n - length rando) 8) (bytes_of_word (rng 0)))
      else rando)"
  by auto

termination
  by (relation "measure (\<lambda>(_, n, rando). n - length rando)") (auto simp: bytes_of_word_def)

declare random_loop.simps [simp del]

definition make_random_string :: "(nat \<Rightarrow> 64 word) \<Rightarrow> nat \<Rightarrow> bytes" where
  "make_random_string rng n = random_loop rng n []"

lemma length_random_loop: "length rando \<le> n \<Longrightarrow> length (random_loop rng n rando) = n"
proof (induction rng n rando rule: random_loop.induct)
  case (1 rng n rando)
  then show ?case by (subst random_loop.simps) (auto simp: bytes_of_word_def)
qed

lemma length_make_random_string: "length (make_random_string rng n) = n"
  by (simp add: make_random_string_def length_random_loop)

end
