(* ===== verification/Bt_Contracts.thy ===== *)
theory Bt_Contracts
  imports Bt_Deserialize Decimal
begin

text \<open>
  The contracts of the bt readers and serializers as locales: \<open>bt_reader\<close> (a successful
  read takes a prefix of at least two bytes, and the iteration bounds are never the reason
  of a failure) and \<open>bt_codec\<close> (what was written is read back). They are proved for
  integers and strings, lifted once through lists and dicts, and interpreted on the
  generic value.
\<close>

section \<open>The number readers\<close>

lemma extract_unsigned_loop_value:
  "extract_unsigned_loop u s = Inr (w, r)
     \<Longrightarrow> w = word_of_nat (digits_from (unat u) (takeWhile is_digit s)) \<and> r = dropWhile is_digit s"
proof (induction u s rule: extract_unsigned_loop.induct)
  case (2 uval c s)
  show ?case
  proof (cases "is_digit c")
    case True
    define b where "b = uval * 10 + word_of_nat (digit_val c)"
    have "word_of_nat (digits_from (unat b) t) = (word_of_nat (digits_from (unat uval * 10 + digit_val c) t) :: 64 word)" for t
    proof (induction t rule: rev_induct)
      case Nil
      show ?case by (simp add: b_def)
    qed simp
    with 2 True show ?thesis by (auto simp: Let_def b_def split: if_splits)
  qed (use 2 in auto)
qed simp

lemma extract_unsigned_loop_fits:
  "digits_from (unat u) (takeWhile is_digit s) < 2 ^ 64
     \<Longrightarrow> extract_unsigned_loop u s
           = Inr (word_of_nat (digits_from (unat u) (takeWhile is_digit s)), dropWhile is_digit s)"
proof (induction u s rule: extract_unsigned_loop.induct)
  case (2 uval c s)
  show ?case
  proof (cases "is_digit c")
    case True
    let ?b = "uval * 10 + word_of_nat (digit_val c)"
    have "unat uval * 10 + digit_val c \<le> digits_from (unat uval * 10 + digit_val c) (takeWhile is_digit s)"
      by (rule digits_from_ge)
    also have "\<dots> < 2 ^ 64" using "2.prems" True by simp
    finally have b: "unat ?b = unat uval * 10 + digit_val c"
      by (simp add: unat_word_ariths unat_of_nat mod_simps)
    then have "\<not> ?b < uval" by (simp add: word_less_nat_alt)
    with 2 True b show ?thesis by (simp add: Let_def)
  qed (use 2 in simp)
qed simp

lemma extract_unsigned_show_nat:
  "n < 2 ^ 64 \<Longrightarrow> r = [] \<or> \<not> is_digit (hd r) \<Longrightarrow> extract_unsigned (show_nat n @ r) = Inr (word_of_nat n, r)"
  using extract_unsigned_loop_fits [of 0 "show_nat n @ r"] takeWhile_show_nat [of r n]
  by (simp add: extract_unsigned_def)

lemma extract_unsigned_value:
  "extract_unsigned s = Inr (w, r)
     \<Longrightarrow> w = word_of_nat (digits_val (takeWhile is_digit s)) \<and> r = dropWhile is_digit s \<and> s \<noteq> [] \<and> is_digit (hd s)"
  using extract_unsigned_loop_value [of 0 s w r] by (simp add: extract_unsigned_def split: if_splits)

lemma extract_unsigned_consumes:
  "extract_unsigned s = Inr (w, r) \<Longrightarrow> \<exists>c. s = c @ r \<and> 1 \<le> length c"
proof -
  assume "extract_unsigned s = Inr (w, r)"
  then have r: "r = dropWhile is_digit s" and s: "s \<noteq> []" "is_digit (hd s)"
    using extract_unsigned_value by blast+
  from s have "1 \<le> length (takeWhile is_digit s)" by (cases s) simp_all
  with r show ?thesis by (metis takeWhile_dropWhile_id)
qed

lemma extract_unsigned_loop_fuel [simp]: "extract_unsigned_loop u s \<noteq> Inl Out_of_fuel"
  by (induction u s rule: extract_unsigned_loop.induct) (simp_all add: Let_def)

lemma extract_unsigned_fuel [simp]: "extract_unsigned s \<noteq> Inl Out_of_fuel"
  by (simp add: extract_unsigned_def)

lemma bt_deserialize_string_consumes:
  "bt_deserialize_string s = Inr (v, r) \<Longrightarrow> \<exists>c. s = c @ r \<and> 2 \<le> length c"
proof -
  assume "bt_deserialize_string s = Inr (v, r)"
  then obtain len t where ext: "extract_unsigned s = Inr (len, CHR '':'' # t)" and r: "r = drop (unat len) t"
    by (auto simp: bt_deserialize_string_def result_simps Let_def neq_Nil_conv split: if_splits)
  from ext obtain c where "s = c @ CHR '':'' # t" "1 \<le> length c"
    using extract_unsigned_consumes by blast
  then have "s = (c @ CHR '':'' # take (unat len) t) @ r \<and> 2 \<le> length (c @ CHR '':'' # take (unat len) t)"
    by (simp add: r)
  then show ?thesis by blast
qed

lemma bt_deserialize_string_fuel [simp]: "bt_deserialize_string s \<noteq> Inl Out_of_fuel"
  by (auto simp: bt_deserialize_string_def result_simps Let_def)

lemma bt_deserialize_integer_consumes:
  "bt_deserialize_integer s = Inr (v, r) \<Longrightarrow> \<exists>c. s = c @ r \<and> 3 \<le> length c"
proof -
  assume read: "bt_deserialize_integer s = Inr (v, r)"
  then obtain a t where s: "s = a # t" "t \<noteq> []"
    by (cases s; cases "tl s") (auto simp: bt_deserialize_integer_def split: if_splits)
  define u where "u = (if hd t = CHR ''-'' then tl t else t)"
  obtain m where "extract_unsigned u = Inr (m, CHR ''e'' # r)"
    using read s
    by (cases "hd t = CHR ''-''")
      (auto simp: bt_deserialize_integer_def result_simps Let_def u_def neq_Nil_conv split: if_splits)
  then obtain c where c: "u = c @ CHR ''e'' # r" "1 \<le> length c"
    using extract_unsigned_consumes by blast
  then have "t = (if hd t = CHR ''-'' then [CHR ''-''] else []) @ c @ CHR ''e'' # r"
    using s by (cases t) (auto simp: u_def split: if_splits)
  with s c show ?thesis
    by (intro exI [of _ "a # (if hd t = CHR ''-'' then [CHR ''-''] else []) @ c @ [CHR ''e'']"]) auto
qed

lemma bt_deserialize_integer_fuel [simp]: "bt_deserialize_integer s \<noteq> Inl Out_of_fuel"
  by (auto simp: bt_deserialize_integer_def result_simps Let_def)

section \<open>The contracts\<close>

declare bt_deserialize_list_loop.simps [simp del] bt_deserialize_dict_loop.simps [simp del]

lemma list_loop_simps:
  "bt_deserialize_list_loop 0 de s =
     (if s = [] then Inl Bt_deserialize_invalid else if hd s = CHR ''e'' then Inr ([], tl s) else Inl Out_of_fuel)"
  "bt_deserialize_list_loop (Suc k) de s =
     (if s = [] then Inl Bt_deserialize_invalid else if hd s = CHR ''e'' then Inr ([], tl s)
      else bind_result (de s) (\<lambda>(v, s).
        bind_result (bt_deserialize_list_loop k de s) (\<lambda>(vs, s). Inr (v # vs, s))))"
  by (subst bt_deserialize_list_loop.simps; simp)+

lemma dict_loop_simps:
  "bt_deserialize_dict_loop 0 de d s =
     (if s = [] then Inl Bt_deserialize_invalid else if hd s = CHR ''e'' then Inr (d, tl s) else Inl Out_of_fuel)"
  "bt_deserialize_dict_loop (Suc k) de d s =
     (if s = [] then Inl Bt_deserialize_invalid else if hd s = CHR ''e'' then Inr (d, tl s)
      else bind_result (bt_deserialize_string s) (\<lambda>(key, s).
        bind_result (de s) (\<lambda>(val, s). bt_deserialize_dict_loop k de (dict_insert key val d) s)))"
  by (subst bt_deserialize_dict_loop.simps; simp)+

locale bt_reader =
  fixes de :: "'a reader" and lim :: nat
  assumes consumes: "de s = Inr (v, r) \<Longrightarrow> \<exists>c. s = c @ r \<and> 2 \<le> length c"
    and fuel: "length s < lim \<Longrightarrow> de s \<noteq> Inl Out_of_fuel"
begin

lemma shorter: "de s = Inr (v, r) \<Longrightarrow> length r + 2 \<le> length s"
  using consumes by fastforce

lemma list_loop_consumes:
  "bt_deserialize_list_loop k de s = Inr (vs, r) \<Longrightarrow> \<exists>c. s = c @ r \<and> 1 \<le> length c"
proof (induction k arbitrary: s vs)
  case 0
  then show ?case by (cases s) (auto simp: list_loop_simps split: if_splits)
next
  case (Suc k)
  show ?case
  proof (cases "s = [] \<or> hd s = CHR ''e''")
    case True
    with Suc.prems show ?thesis by (cases s) (auto simp: list_loop_simps)
  next
    case False
    with Suc.prems obtain v s' ws where "de s = Inr (v, s')" "bt_deserialize_list_loop k de s' = Inr (ws, r)"
      by (auto simp: list_loop_simps result_simps)
    then show ?thesis using consumes Suc.IH by fastforce
  qed
qed

lemma list_loop_fuel:
  "length s \<le> k \<Longrightarrow> length s < lim \<Longrightarrow> bt_deserialize_list_loop k de s \<noteq> Inl Out_of_fuel"
proof (induction k arbitrary: s)
  case 0
  then show ?case by (simp add: list_loop_simps)
next
  case (Suc k)
  have "bt_deserialize_list_loop k de s' \<noteq> Inl Out_of_fuel" if "de s = Inr (v, s')" for v s'
    using shorter [OF that] Suc by simp
  then show ?case
    using fuel Suc.prems by (auto simp: list_loop_simps result_simps)
qed

lemma reader_list: "bt_reader (bt_deserialize_list de) (Suc lim)"
proof
  show "\<exists>c. s = c @ r \<and> 2 \<le> length c" if "bt_deserialize_list de s = Inr (vs, r)" for s vs r
  proof (cases s)
    case (Cons a t)
    with that obtain c where "t = c @ r" "1 \<le> length c"
      using list_loop_consumes by (fastforce simp: bt_deserialize_list_def split: if_splits)
    with Cons show ?thesis by (intro exI [of _ "a # c"]) simp
  qed (use that in \<open>simp add: bt_deserialize_list_def\<close>)
  show "bt_deserialize_list de s \<noteq> Inl Out_of_fuel" if "length s < Suc lim" for s
    using that list_loop_fuel [of "tl s" "length s"] by (auto simp: bt_deserialize_list_def)
qed

lemma dict_loop_consumes:
  "bt_deserialize_dict_loop k de d s = Inr (d', r) \<Longrightarrow> \<exists>c. s = c @ r \<and> 1 \<le> length c"
proof (induction k arbitrary: s d)
  case 0
  then show ?case by (cases s) (auto simp: dict_loop_simps split: if_splits)
next
  case (Suc k)
  show ?case
  proof (cases "s = [] \<or> hd s = CHR ''e''")
    case True
    with Suc.prems show ?thesis by (cases s) (auto simp: dict_loop_simps)
  next
    case False
    with Suc.prems obtain key val s1 s2 where "bt_deserialize_string s = Inr (key, s1)" "de s1 = Inr (val, s2)"
      "bt_deserialize_dict_loop k de (dict_insert key val d) s2 = Inr (d', r)"
      by (auto simp: dict_loop_simps result_simps)
    then obtain c1 c2 c3 where "s = c1 @ s1" "s1 = c2 @ s2" "s2 = c3 @ r" "2 \<le> length c2"
      using bt_deserialize_string_consumes consumes Suc.IH by meson
    then show ?thesis by (intro exI [of _ "c1 @ c2 @ c3"]) simp
  qed
qed

lemma dict_loop_fuel:
  "length s \<le> k \<Longrightarrow> length s < lim \<Longrightarrow> bt_deserialize_dict_loop k de d s \<noteq> Inl Out_of_fuel"
proof (induction k arbitrary: s d)
  case 0
  then show ?case by (simp add: dict_loop_simps)
next
  case (Suc k)
  have "de s1 \<noteq> Inl Out_of_fuel \<and>
      (\<forall>val s2. de s1 = Inr (val, s2) \<longrightarrow> bt_deserialize_dict_loop k de (dict_insert key val d) s2 \<noteq> Inl Out_of_fuel)"
    if key: "bt_deserialize_string s = Inr (key, s1)" for key s1
  proof -
    have "length s1 + 2 \<le> length s" using bt_deserialize_string_consumes [OF key] by auto
    then show ?thesis using shorter [of s1] fuel [of s1] Suc by fastforce
  qed
  then show ?case
    using Suc.prems by (auto simp: dict_loop_simps result_simps)
qed

lemma reader_dict: "bt_reader (bt_deserialize_dict de) (Suc lim)"
proof
  show "\<exists>c. s = c @ r \<and> 2 \<le> length c" if "bt_deserialize_dict de s = Inr (d, r)" for s d r
  proof (cases s)
    case (Cons a t)
    with that obtain c where "t = c @ r" "1 \<le> length c"
      using dict_loop_consumes by (fastforce simp: bt_deserialize_dict_def split: if_splits)
    with Cons show ?thesis by (intro exI [of _ "a # c"]) simp
  qed (use that in \<open>simp add: bt_deserialize_dict_def\<close>)
  show "bt_deserialize_dict de s \<noteq> Inl Out_of_fuel" if "length s < Suc lim" for s
    using that dict_loop_fuel [of "tl s" "length s"] by (auto simp: bt_deserialize_dict_def)
qed

end

text \<open>
  A serializer with its reader: reading what was written gives the value in its canonical
  alternative and leaves what follows. No encoding starts with the closing \<open>e\<close>.
\<close>

lemma dict_insert_last:
  "(\<And>k'. k' \<in> fst ` set d \<Longrightarrow> k' < k) \<Longrightarrow> dict_insert k v d = d @ [(k, v)]"
proof (induction d)
  case (Cons kv d)
  then have "fst kv < k" by simp
  then have "\<not> k < fst kv" "k \<noteq> fst kv" by auto
  with Cons show ?case by (cases kv) simp
qed simp

lemma bt_deserialize_string_round:
  "size_ok s \<Longrightarrow> bt_deserialize_string (bt_serialize_string s @ r) = Inr (s, r)"
proof -
  assume "size_ok s"
  moreover have "\<not> is_digit (CHR '':'')" by (simp add: is_digit_iff)
  ultimately have "extract_unsigned (show_nat (length s) @ '':'' @ s @ r) = Inr (word_of_nat (length s), '':'' @ s @ r)"
    "unat (word_of_nat (length s) :: 64 word) = length s"
    by (auto simp: size_ok_def extract_unsigned_show_nat unat_of_nat)
  moreover have "2 \<le> length (show_nat (length s) @ '':'' @ s @ r)"
    by (cases "show_nat (length s)") simp_all
  ultimately show ?thesis
    by (simp add: bt_deserialize_string_def bt_serialize_string_def hd_append)
qed

lemma bt_serialize_string_hd:
  "bt_serialize_string s \<noteq> []" "is_digit (hd (bt_serialize_string s))"
  by (simp_all add: bt_serialize_string_def hd_append)

lemma is_digit_ne [simp]:
  "is_digit c \<Longrightarrow> c \<noteq> CHR ''e''" "is_digit c \<Longrightarrow> c \<noteq> CHR ''i''"
  "is_digit c \<Longrightarrow> c \<noteq> CHR ''l''" "is_digit c \<Longrightarrow> c \<noteq> CHR ''d''" "is_digit c \<Longrightarrow> c \<noteq> CHR ''-''"
  by (auto simp: is_digit_iff)

locale bt_codec = bt_reader de lim for de :: "'a reader" and lim :: nat +
  fixes ser :: "'a \<Rightarrow> bytes" and normal :: "'a \<Rightarrow> 'a" and valid :: "'a \<Rightarrow> bool"
  assumes round: "valid v \<Longrightarrow> de (ser v @ r) = Inr (normal v, r)"
    and leads: "valid v \<Longrightarrow> hd (ser v) \<noteq> CHR ''e''"
begin

lemma length_ser: "valid v \<Longrightarrow> 2 \<le> length (ser v)"
  using consumes [OF round, of v "[]"] by auto

lemma ser_ne: "valid v \<Longrightarrow> ser v \<noteq> []"
  using length_ser by force

lemma prefix_free:
  "valid v \<Longrightarrow> valid w \<Longrightarrow> ser v @ r = ser w @ t \<Longrightarrow> normal v = normal w \<and> r = t"
  using round [of v r] round [of w t] by simp

lemma list_loop_round:
  "list_all valid vs \<Longrightarrow> length vs \<le> k
     \<Longrightarrow> bt_deserialize_list_loop k de (concat (map ser vs) @ CHR ''e'' # r) = Inr (map normal vs, r)"
proof (induction vs arbitrary: k)
  case Nil
  then show ?case by (cases k) (simp_all add: list_loop_simps)
next
  case (Cons v vs)
  then obtain k' where "k = Suc k'" by (cases k) auto
  with Cons show ?case by (simp add: list_loop_simps round ser_ne leads hd_append)
qed

lemma length_concat_ser: "list_all valid vs \<Longrightarrow> length vs \<le> length (concat (map ser vs))"
  by (induction vs) (auto dest: length_ser)

lemma codec_list:
  "bt_codec (bt_deserialize_list de) (Suc lim) (bt_serialize_list ser) (map normal) (list_all valid)"
proof (intro bt_codec.intro reader_list bt_codec_axioms.intro)
  fix vs :: "'a list" and r :: bytes
  assume vs: "list_all valid vs"
  show "bt_deserialize_list de (bt_serialize_list ser vs @ r) = Inr (map normal vs, r)"
    using list_loop_round [OF vs, of _ r] length_concat_ser [OF vs]
    by (simp add: bt_deserialize_list_def bt_serialize_list_def)
  show "hd (bt_serialize_list ser vs) \<noteq> CHR ''e''" by (simp add: bt_serialize_list_def)
qed

lemma dict_loop_round:
  "list_all (\<lambda>kv. size_ok (fst kv) \<and> valid (snd kv)) d \<Longrightarrow> bt_dict_ok (d0 @ d) \<Longrightarrow> length d \<le> k
     \<Longrightarrow> bt_deserialize_dict_loop k de d0 (concat (map (bt_serialize_entry ser) d) @ CHR ''e'' # r)
           = Inr (d0 @ map (\<lambda>kv. (fst kv, normal (snd kv))) d, r)"
proof (induction d arbitrary: k d0)
  case Nil
  then show ?case by (cases k) (simp_all add: dict_loop_simps)
next
  case (Cons kv d)
  obtain key v where kv: "kv = (key, v)" by (cases kv)
  from Cons.prems obtain k' where k: "k = Suc k'" by (cases k) auto
  have ins: "dict_insert key (normal v) d0 = d0 @ [(key, normal v)]"
    using Cons.prems(2) kv by (intro dict_insert_last) (auto simp: bt_dict_ok_def sorted_wrt_append)
  have "bt_deserialize_dict_loop k' de (d0 @ [(key, normal v)]) (concat (map (bt_serialize_entry ser) d) @ CHR ''e'' # r)
      = Inr ((d0 @ [(key, normal v)]) @ map (\<lambda>kv. (fst kv, normal (snd kv))) d, r)"
    using Cons.prems kv k by (intro Cons.IH) (simp_all add: bt_dict_ok_def)
  with Cons.prems kv ins show ?case
    by (simp add: k dict_loop_simps bt_serialize_entry_def [of ser "(key, v)"] bt_serialize_string_hd hd_append
        bt_deserialize_string_round round)
qed

lemma length_concat_entries:
  "list_all (\<lambda>kv. size_ok (fst kv) \<and> valid (snd kv)) d
     \<Longrightarrow> length d \<le> length (concat (map (bt_serialize_entry ser) d))"
  by (induction d) (auto simp: bt_serialize_entry_def dest: length_ser)

lemma codec_dict:
  "bt_codec (bt_deserialize_dict de) (Suc lim) (bt_serialize_dict ser) (map (\<lambda>kv. (fst kv, normal (snd kv))))
     (\<lambda>d. bt_dict_ok d \<and> list_all (\<lambda>kv. size_ok (fst kv) \<and> valid (snd kv)) d)"
proof (intro bt_codec.intro reader_dict bt_codec_axioms.intro; elim conjE)
  fix d :: "(bytes \<times> 'a) list" and r :: bytes
  assume d: "bt_dict_ok d" "list_all (\<lambda>kv. size_ok (fst kv) \<and> valid (snd kv)) d"
  show "bt_deserialize_dict de (bt_serialize_dict ser d @ r) = Inr (map (\<lambda>kv. (fst kv, normal (snd kv))) d, r)"
    using dict_loop_round [OF d(2), of "[]" _ r] d length_concat_entries [OF d(2)]
    by (simp add: bt_deserialize_dict_def bt_serialize_dict_def sort_dict_ok)
  show "hd (bt_serialize_dict ser d) \<noteq> CHR ''e''" by (simp add: bt_serialize_dict_def)
qed

end

section \<open>Strings and integers\<close>

interpretation string: bt_codec bt_deserialize_string lim bt_serialize_string id size_ok for lim
  by unfold_locales
    (simp_all add: bt_deserialize_string_consumes bt_deserialize_string_round bt_serialize_string_hd)

lemma bt_deserialize_integer_round:
  assumes "- (2 ^ 63) \<le> i" "i < 2 ^ 64"
  shows "bt_deserialize_integer (bt_serialize_int i @ r) = Inr ((word_of_nat (nat \<bar>i\<bar>), i < 0), r)"
proof -
  have n: "nat \<bar>i\<bar> < 2 ^ 64" using assms by simp
  have "\<not> is_digit (CHR ''e'')" by (simp add: is_digit_iff)
  then have ext: "extract_unsigned (show_nat (nat \<bar>i\<bar>) @ CHR ''e'' # r) = Inr (word_of_nat (nat \<bar>i\<bar>), CHR ''e'' # r)"
    using n by (simp add: extract_unsigned_show_nat)
  have len: "1 \<le> length (show_nat (nat \<bar>i\<bar>))" by (cases "show_nat (nat \<bar>i\<bar>)") simp_all
  show ?thesis
  proof (cases "i < 0")
    case True
    have "\<not> (push_bit 63 1 :: 64 word) < word_of_nat (nat \<bar>i\<bar>)"
      using assms True unfolding word_less_nat_alt unat_word64 [OF n] by simp
    with True ext len show ?thesis
      by (simp add: bt_deserialize_integer_def bt_serialize_int_def show_int_def Let_def)
  next
    case False
    have "hd (show_nat (nat i)) \<noteq> CHR ''-''" using is_digit_hd_show_nat is_digit_ne(5) by blast
    with False ext len show ?thesis
      by (simp add: bt_deserialize_integer_def bt_serialize_int_def show_int_def Let_def hd_append)
  qed
qed

lemma sint_neg_int64: "unat m \<le> 2 ^ 63 \<Longrightarrow> sint (neg_int64 m) = - uint m"
proof -
  assume "unat m \<le> 2 ^ 63"
  then have "int (unat m) \<le> int (2 ^ 63)" by (simp only: of_nat_le_iff)
  then have m: "uint m \<le> 2 ^ 63" by simp
  have "neg_int64 m = word_of_int (- uint m)" by (simp add: neg_int64_def)
  then have "sint (neg_int64 m) = signed_take_bit 63 (- uint m)"
    by (simp add: sint_sbintrunc' del: of_int_minus)
  also have "\<dots> = - uint m"
  proof (rule signed_take_bit_int_eq_self)
    have "- uint m \<le> 0" by simp
    then show "- uint m < 2 ^ 63" by (rule order_le_less_trans) simp
  qed (use m in simp)
  finally show ?thesis .
qed

lemma int_type_limits:
  assumes "int_type_ok T"
  shows "umax T < 2 ^ 64" "- (2 ^ 63) \<le> smin T" "it_signed T \<Longrightarrow> umax T < 2 ^ 63"
proof -
  have b: "it_bits T - 1 \<le> 63" "it_bits T \<le> 64" using assms by (auto simp: int_type_ok_def)
  have p: "(2::nat) ^ (it_bits T - 1) \<le> 2 ^ 63" "(2::nat) ^ it_bits T \<le> 2 ^ 64" "(2::int) ^ (it_bits T - 1) \<le> 2 ^ 63"
    using b by (auto simp only: intro!: power_increasing)
  show signed: "umax T < 2 ^ 63" if "it_signed T"
    using that p(1) unfolding umax_def by (simp add: less_eq_Suc_le)
  show "umax T < 2 ^ 64"
    using signed p(2) unfolding umax_def by (cases "it_signed T") (simp_all add: less_eq_Suc_le)
  show "- (2 ^ 63) \<le> smin T"
    using p(3) unfolding smin_def by simp
qed

lemma bt_deserialize_int_round:
  assumes "int_type_ok T" "in_range T i"
  shows "bt_deserialize_int T (bt_serialize_int i @ r) = Inr (i, r)"
proof -
  have i: "- (2 ^ 63) \<le> i" "i < 2 ^ 64" "it_signed T \<Longrightarrow> i < 2 ^ 63"
    using assms int_type_limits [OF assms(1)] by (auto simp: in_range_def)
  define w where "w = (word_of_nat (nat \<bar>i\<bar>) :: 64 word)"
  have "nat \<bar>i\<bar> < 2 ^ 64" using i by simp
  then have u: "uint w = \<bar>i\<bar>" and un: "unat w = nat \<bar>i\<bar>"
    unfolding w_def by (simp_all only: uint_word64 unat_word64)
  have neg: "sint (neg_int64 w) = i" if "i < 0"
    using that i un u sint_neg_int64 [of w] by simp
  have "smin T \<le> i" "0 \<le> i \<Longrightarrow> nat i \<le> umax T" "i < 0 \<Longrightarrow> it_signed T"
    using assms(2) by (auto simp: in_range_def smin_def split: if_splits)
  then show ?thesis
    using u un neg unfolding bt_deserialize_int_def bt_deserialize_integer_round [OF i(1,2)] w_def [symmetric]
    by (auto simp: Let_def)
qed

lemma bt_deserialize_int_consumes:
  "bt_deserialize_int T s = Inr (i, r) \<Longrightarrow> \<exists>c. s = c @ r \<and> 2 \<le> length c"
proof -
  assume "bt_deserialize_int T s = Inr (i, r)"
  then obtain m where "bt_deserialize_integer s = Inr (m, r)"
    by (auto simp: bt_deserialize_int_def result_simps Let_def split: if_splits)
  from bt_deserialize_integer_consumes [OF this] show ?thesis by auto
qed

lemma bt_deserialize_int_fuel [simp]: "bt_deserialize_int T s \<noteq> Inl Out_of_fuel"
  by (auto simp: bt_deserialize_int_def result_simps Let_def split: if_splits)

interpretation integer: bt_codec "bt_deserialize_int T" lim bt_serialize_int id "\<lambda>i. int_type_ok T \<and> in_range T i" for T lim
  by unfold_locales
    (simp_all add: bt_deserialize_int_consumes bt_deserialize_int_round, simp add: bt_serialize_int_def)

section \<open>The generic value\<close>

lemma length_ser_list_elem: "v \<in> set vs \<Longrightarrow> length (ser v) < length (bt_serialize_list ser vs)"
  by (induction vs) (auto simp: bt_serialize_list_def)

lemma length_ser_dict_elem:
  assumes "bt_dict_ok d" "kv \<in> set d"
  shows "length (ser (snd kv)) < length (bt_serialize_dict ser d)"
proof -
  have "kv \<in> set d \<Longrightarrow> length (ser (snd kv)) \<le> length (concat (map (bt_serialize_entry ser) d))"
    by (induction d) (auto simp: bt_serialize_entry_def)
  with assms show ?thesis by (simp add: bt_serialize_dict_def sort_dict_ok)
qed

definition value_fits :: "nat \<Rightarrow> bt_value \<Rightarrow> bool" where
  "value_fits n v = (bt_value_ok v \<and> length (bt_serialize_value v) < n)"

lemma reader_value: "bt_reader (bt_deserialize_value n) n"
proof (induction n)
  case 0
  show ?case by unfold_locales simp_all
next
  case (Suc n)
  note list = bt_reader.reader_list [OF Suc] and dict = bt_reader.reader_dict [OF Suc]
  show ?case
  proof
    show "\<exists>c. s = c @ r \<and> 2 \<le> length c" if read: "bt_deserialize_value (Suc n) s = Inr (v, r)" for s v r
    proof -
      consider d where "bt_deserialize_dict (bt_deserialize_value n) s = Inr (d, r)"
        | vs where "bt_deserialize_list (bt_deserialize_value n) s = Inr (vs, r)"
        | m where "bt_deserialize_integer s = Inr (m, r)"
        | str where "bt_deserialize_string s = Inr (str, r)"
        using read by (auto simp: result_simps split: if_splits)
      then show ?thesis
      proof cases
        case 3
        from bt_deserialize_integer_consumes [OF this] show ?thesis by auto
      qed (blast intro: bt_reader.consumes [OF dict] bt_reader.consumes [OF list] bt_deserialize_string_consumes)+
    qed
    show "bt_deserialize_value (Suc n) s \<noteq> Inl Out_of_fuel" if "length s < Suc n" for s
      using bt_reader.fuel [OF list that] bt_reader.fuel [OF dict that]
      by (auto simp: result_simps split: if_splits)
  qed
qed

lemma bt_deserialize_value_int:
  assumes "- (2 ^ 63) \<le> i" "i < 2 ^ 64"
  shows "bt_deserialize_value (Suc n) (bt_serialize_int i @ r)
           = Inr (if i < 0 then BtInt64 (word_of_int i) else BtUint64 (word_of_int i), r)"
proof -
  have "2 \<le> length (bt_serialize_int i @ r)" "hd (bt_serialize_int i @ r) = CHR ''i''"
    by (simp_all add: bt_serialize_int_def)
  moreover have "i < 0 \<Longrightarrow> neg_int64 (word_of_nat (nat \<bar>i\<bar>)) = word_of_int i"
    "\<not> i < 0 \<Longrightarrow> word_of_nat (nat \<bar>i\<bar>) = (word_of_int i :: 64 word)"
    by (simp_all add: neg_int64_def)
  ultimately show ?thesis
    using bt_deserialize_integer_round [OF assms, of r] by auto
qed

lemma bt_deserialize_value_string:
  "size_ok s \<Longrightarrow> bt_deserialize_value (Suc n) (bt_serialize_string s @ r) = Inr (BtString s, r)"
proof -
  assume ok: "size_ok s"
  have "2 \<le> length (bt_serialize_string s)" using string.length_ser [OF ok] .
  moreover have "is_digit (hd (bt_serialize_string s @ r))" by (simp add: bt_serialize_string_hd)
  ultimately show ?thesis
    using bt_deserialize_string_round [OF ok, of r] by auto
qed

lemma value_fits_list: "value_fits (Suc n) (BtList vs) \<Longrightarrow> list_all (value_fits n) vs"
  using length_ser_list_elem [of _ vs bt_serialize_value]
  by (fastforce simp: value_fits_def list_all_iff)

lemma value_fits_dict:
  "value_fits (Suc n) (BtDict d)
     \<Longrightarrow> bt_dict_ok d \<and> list_all (\<lambda>kv. size_ok (fst kv) \<and> value_fits n (snd kv)) d"
  using length_ser_dict_elem [of d _ bt_serialize_value]
  by (fastforce simp: value_fits_def list_all_iff)

lemma codec_value: "bt_codec (bt_deserialize_value n) n bt_serialize_value canon (value_fits n)"
proof (induction n)
  case 0
  show ?case by unfold_locales (simp_all add: value_fits_def)
next
  case (Suc n)
  note list = bt_codec.codec_list [OF Suc] and dict = bt_codec.codec_dict [OF Suc]
  have round: "bt_deserialize_value (Suc n) (bt_serialize_value v @ r) = Inr (canon v, r)"
    if fits: "value_fits (Suc n) v" for v r
  proof (cases v)
    case (BtInt64 w)
    have "- (2 ^ 63) \<le> sint w" "sint w < 2 ^ 64" using sint_greater_eq [of w] sint_less [of w] by simp_all
    then show ?thesis using bt_deserialize_value_int [of "sint w" n r] BtInt64 by auto
  next
    case (BtUint64 w)
    have "- (2 ^ 63) \<le> uint w" by (rule order_trans [OF _ uint_ge_0]) simp
    moreover have "uint w < 2 ^ 64" using uint_bounded [of w] by simp
    ultimately show ?thesis using bt_deserialize_value_int [of "uint w" n r] BtUint64 by auto
  next
    case (BtList vs)
    have "bt_deserialize_list (bt_deserialize_value n) (bt_serialize_list bt_serialize_value vs @ r)
        = Inr (map canon vs, r)"
      using bt_codec.round [OF list] value_fits_list fits BtList by blast
    then show ?thesis using BtList by (simp add: bt_serialize_list_def)
  next
    case (BtDict d)
    have "bt_deserialize_dict (bt_deserialize_value n) (bt_serialize_dict bt_serialize_value d @ r)
        = Inr (map (\<lambda>kv. (fst kv, canon (snd kv))) d, r)"
      using bt_codec.round [OF dict] value_fits_dict fits BtDict by blast
    then show ?thesis using BtDict by (simp add: bt_serialize_dict_def)
  qed (use fits bt_deserialize_value_string in \<open>auto simp: value_fits_def\<close>)
  have "hd (bt_serialize_value v) \<noteq> CHR ''e''" for v
    using bt_serialize_string_hd(2)
    by (cases v) (auto simp: bt_serialize_int_def bt_serialize_list_def bt_serialize_dict_def)
  with round show ?case
    by (intro bt_codec.intro reader_value bt_codec_axioms.intro)
qed

interpretation generic: bt_codec "bt_deserialize_value n" n bt_serialize_value canon "value_fits n" for n
  by (rule codec_value)

section \<open>Independence of the depth bound\<close>

context bt_reader
begin

lemma list_loop_agree:
  "(\<And>s. length s < lim \<Longrightarrow> de' s = de s) \<Longrightarrow> length s < lim
     \<Longrightarrow> bt_deserialize_list_loop k de' s = bt_deserialize_list_loop k de s"
proof (induction k arbitrary: s)
  case (Suc k)
  have "bt_deserialize_list_loop k de' t = bt_deserialize_list_loop k de t" if "de s = Inr (v, t)" for v t
    using shorter [OF that] Suc.prems by (intro Suc.IH) simp_all
  then show ?case
    using Suc.prems unfolding list_loop_simps by (auto intro!: bind_result_cong)
qed (simp add: list_loop_simps)

lemma dict_loop_agree:
  "(\<And>s. length s < lim \<Longrightarrow> de' s = de s) \<Longrightarrow> length s < lim
     \<Longrightarrow> bt_deserialize_dict_loop k de' d s = bt_deserialize_dict_loop k de d s"
proof (induction k arbitrary: s d)
  case (Suc k)
  have "bind_result (de' u) (\<lambda>(val, t). bt_deserialize_dict_loop k de' (dict_insert key val d) t)
      = bind_result (de u) (\<lambda>(val, t). bt_deserialize_dict_loop k de (dict_insert key val d) t)"
    if key: "bt_deserialize_string s = Inr (key, u)" for key u
  proof -
    have u: "length u < lim" using bt_deserialize_string_consumes [OF key] Suc.prems by fastforce
    have "bt_deserialize_dict_loop k de' d' t = bt_deserialize_dict_loop k de d' t" if "de u = Inr (v, t)" for v t d'
      using shorter [OF that] u Suc.prems by (intro Suc.IH) simp_all
    then show ?thesis using Suc.prems(1) [OF u] by (auto intro!: bind_result_cong)
  qed
  then show ?case
    unfolding dict_loop_simps by (cases "bt_deserialize_string s") auto
qed (simp add: dict_loop_simps)

end

lemma bt_deserialize_value_step: "length s < n \<Longrightarrow> bt_deserialize_value (Suc n) s = bt_deserialize_value n s"
proof (induction n arbitrary: s)
  case (Suc n)
  note reader = reader_value [of n]
  have loops: "bt_deserialize_list_loop (length s) (bt_deserialize_value (Suc n)) (tl s)
        = bt_deserialize_list_loop (length s) (bt_deserialize_value n) (tl s)"
    "bt_deserialize_dict_loop (length s) (bt_deserialize_value (Suc n)) [] (tl s)
        = bt_deserialize_dict_loop (length s) (bt_deserialize_value n) [] (tl s)" if "2 \<le> length s"
    using that Suc.prems
    by (intro bt_reader.list_loop_agree [OF reader] bt_reader.dict_loop_agree [OF reader] Suc.IH; simp)+
  have "bt_deserialize_list (bt_deserialize_value (Suc n)) s = bt_deserialize_list (bt_deserialize_value n) s"
    "bt_deserialize_dict (bt_deserialize_value (Suc n)) s = bt_deserialize_dict (bt_deserialize_value n) s"
    using loops by (auto simp: bt_deserialize_list_def bt_deserialize_dict_def simp del: bt_deserialize_value.simps)
  then show ?case by (simp only: bt_deserialize_value.simps)
qed simp

lemma bt_deserialize_value_fuel:
  "length s < n \<Longrightarrow> n \<le> m \<Longrightarrow> bt_deserialize_value m s = bt_deserialize_value n s"
proof (induction m)
  case (Suc m)
  then show ?case using bt_deserialize_value_step [of s m] by (cases "n = Suc m") (simp_all del: bt_deserialize_value.simps)
qed simp

section \<open>Values that come out of the reader\<close>

lemma dict_insert_keys: "fst ` set (dict_insert k v d) = insert k (fst ` set d)"
  by (induction k v d rule: dict_insert.induct) auto

lemma dict_insert_ok: "bt_dict_ok d \<Longrightarrow> bt_dict_ok (dict_insert k v d)"
proof (induction k v d rule: dict_insert.induct)
  case (2 k v k' v' d)
  have "fst kv \<in> insert k (fst ` set d)" if "kv \<in> set (dict_insert k v d)" for kv
    using that dict_insert_keys [of k v d] by blast
  with 2 show ?case by (fastforce simp: bt_dict_ok_def)
qed (simp add: bt_dict_ok_def)

lemma dict_insert_set: "set (dict_insert k v d) \<subseteq> insert (k, v) (set d)"
  by (induction k v d rule: dict_insert.induct) auto

lemma bt_deserialize_string_size: "bt_deserialize_string s = Inr (v, r) \<Longrightarrow> length v < length s"
proof -
  assume "bt_deserialize_string s = Inr (v, r)"
  then obtain len t where ext: "extract_unsigned s = Inr (len, CHR '':'' # t)" and v: "v = take (unat len) t"
    by (auto simp: bt_deserialize_string_def result_simps Let_def neq_Nil_conv split: if_splits)
  from extract_unsigned_consumes [OF ext] v show ?thesis by auto
qed

context bt_reader
begin

lemma list_loop_all:
  "bt_deserialize_list_loop k de s = Inr (vs, r) \<Longrightarrow> length s \<le> b
     \<Longrightarrow> (\<And>s v r. length s \<le> b \<Longrightarrow> de s = Inr (v, r) \<Longrightarrow> P v) \<Longrightarrow> list_all P vs"
proof (induction k arbitrary: s vs)
  case (Suc k)
  show ?case
  proof (cases "s = [] \<or> hd s = CHR ''e''")
    case True
    with Suc.prems(1) show ?thesis by (auto simp: list_loop_simps split: if_splits)
  next
    case False
    with Suc.prems obtain v t ws where v: "de s = Inr (v, t)" "bt_deserialize_list_loop k de t = Inr (ws, r)" "vs = v # ws"
      by (auto simp: list_loop_simps result_simps)
    from shorter [OF v(1)] Suc.prems(2) have "length t \<le> b" by simp
    with Suc v show ?thesis by simp
  qed
qed (auto simp: list_loop_simps split: if_splits)

lemma dict_loop_all:
  "bt_deserialize_dict_loop k de d s = Inr (d', r) \<Longrightarrow> length s \<le> b \<Longrightarrow> bt_dict_ok d
     \<Longrightarrow> (\<And>s v r. length s \<le> b \<Longrightarrow> de s = Inr (v, r) \<Longrightarrow> P v) \<Longrightarrow> list_all (\<lambda>kv. length (fst kv) \<le> b \<and> P (snd kv)) d
     \<Longrightarrow> bt_dict_ok d' \<and> list_all (\<lambda>kv. length (fst kv) \<le> b \<and> P (snd kv)) d'"
proof (induction k arbitrary: s d)
  case (Suc k)
  show ?case
  proof (cases "s = [] \<or> hd s = CHR ''e''")
    case True
    with Suc.prems(1,3,5) show ?thesis by (auto simp: dict_loop_simps split: if_splits)
  next
    case False
    with Suc.prems obtain key u v t where key: "bt_deserialize_string s = Inr (key, u)" and v: "de u = Inr (v, t)"
      and loop: "bt_deserialize_dict_loop k de (dict_insert key v d) t = Inr (d', r)"
      by (auto simp: dict_loop_simps result_simps)
    have u: "length u \<le> b" using bt_deserialize_string_consumes [OF key] Suc.prems(2) by auto
    have "length t \<le> b" using shorter [OF v] u by simp
    moreover have "length key \<le> b" using bt_deserialize_string_size [OF key] Suc.prems(2) by simp
    moreover have "P v" using Suc.prems(4) u v by blast
    ultimately show ?thesis
      using loop Suc.prems(3-5) dict_insert_set [of key v d]
      by (intro Suc.IH [OF loop]) (auto simp: dict_insert_ok list_all_iff)
  qed
qed (auto simp: dict_loop_simps split: if_splits)

end

lemma bt_deserialize_value_ok:
  "bt_deserialize_value n s = Inr (v, r) \<Longrightarrow> length s < 2 ^ 64 \<Longrightarrow> bt_value_ok v"
proof (induction n arbitrary: s v r)
  case (Suc n)
  note reader = reader_value [of n]
  have elem: "bt_value_ok v" if "length t \<le> length s" "bt_deserialize_value n t = Inr (v, u)" for t v u
    using Suc.IH [OF that(2)] that(1) Suc.prems(2) by simp
  consider d where "v = BtDict d" "bt_deserialize_dict (bt_deserialize_value n) s = Inr (d, r)"
    | vs where "v = BtList vs" "bt_deserialize_list (bt_deserialize_value n) s = Inr (vs, r)"
    | w where "v = BtInt64 w \<or> v = BtUint64 w"
    | str where "v = BtString str" "bt_deserialize_string s = Inr (str, r)"
    using Suc.prems(1) by (auto simp: result_simps split: if_splits)
  then show ?case
  proof cases
    case 1
    then have "bt_deserialize_dict_loop (length s) (bt_deserialize_value n) [] (tl s) = Inr (d, r)"
      by (auto simp: bt_deserialize_dict_def split: if_splits)
    then have "bt_dict_ok d \<and> list_all (\<lambda>kv. length (fst kv) \<le> length s \<and> bt_value_ok (snd kv)) d"
      by (rule bt_reader.dict_loop_all [OF reader, where b = "length s"]) (use elem in \<open>auto simp: bt_dict_ok_def\<close>)
    with 1 Suc.prems(2) show ?thesis by (auto simp: list_all_iff size_ok_def)
  next
    case 2
    then have "bt_deserialize_list_loop (length s) (bt_deserialize_value n) (tl s) = Inr (vs, r)"
      by (auto simp: bt_deserialize_list_def split: if_splits)
    then have "list_all bt_value_ok vs"
      by (rule bt_reader.list_loop_all [OF reader, where b = "length s"]) (use elem in auto)
    with 2 show ?thesis by simp
  next
    case 4
    with bt_deserialize_string_size [of s str r] Suc.prems(2) show ?thesis by (simp add: size_ok_def)
  qed auto
qed simp

end
