(* ===== verification/Bt_Consumer.thy ===== *)
theory Bt_Consumer
  imports Bt_Contracts
begin

text \<open>
  \<open>bt_list_consumer\<close> and \<open>bt_dict_consumer\<close> of \<^verbatim>\<open>src/arqmamq/bt_serialize.h\<close> and
  \<^verbatim>\<open>bt_serialize.cpp\<close>: cursors over encoded data. A method takes the consumer and
  returns its value with the advanced consumer, or the exception; the consumer an
  exception leaves behind is not modelled.
\<close>

section \<open>The list consumer\<close>

text \<open>The state of a \<open>bt_list_consumer\<close> is its view \<open>data\<close>.\<close>

definition front :: "bytes \<Rightarrow> char result" where
  "front data = (if data = [] then Inl Undefined_behaviour else Inr (hd data))"

definition bt_list_consumer :: "bytes \<Rightarrow> bytes result" where
  "bt_list_consumer data =
     (if data = [] then Inl Runtime_error
      else if hd data \<noteq> CHR ''l'' then Inl Runtime_error
      else Inr (tl data))"

definition list_is_finished :: "bytes \<Rightarrow> bool result" where
  "list_is_finished data = bind_result (front data) (\<lambda>c. Inr (c = CHR ''e''))"

definition list_is_string :: "bytes \<Rightarrow> bool result" where
  "list_is_string data = bind_result (front data) (\<lambda>c. Inr (is_digit c))"

definition list_is_integer :: "bytes \<Rightarrow> bool result" where
  "list_is_integer data = bind_result (front data) (\<lambda>c. Inr (c = CHR ''i''))"

definition list_is_negative_integer :: "bytes \<Rightarrow> bool result" where
  "list_is_negative_integer data =
     bind_result (list_is_integer data) (\<lambda>b. Inr (b \<and> 2 \<le> length data \<and> data ! 1 = CHR ''-''))"

definition list_is_list :: "bytes \<Rightarrow> bool result" where
  "list_is_list data = bind_result (front data) (\<lambda>c. Inr (c = CHR ''l''))"

definition list_is_dict :: "bytes \<Rightarrow> bool result" where
  "list_is_dict data = bind_result (front data) (\<lambda>c. Inr (c = CHR ''d''))"

definition list_consume_string_view :: "bytes reader" where
  "list_consume_string_view data =
     (if data = [] then Inl Bt_deserialize_invalid
      else bind_result (list_is_string data) (\<lambda>b.
        if \<not> b then Inl Bt_deserialize_invalid_type else bt_deserialize_string data))"

definition list_consume_integer :: "int_type \<Rightarrow> int reader" where
  "list_consume_integer T data =
     bind_result (list_is_integer data) (\<lambda>b.
       if \<not> b then Inl Bt_deserialize_invalid_type else bt_deserialize_int T data)"

definition list_consume_list :: "'a reader \<Rightarrow> 'a reader" where
  "list_consume_list de data =
     bind_result (list_is_list data) (\<lambda>b.
       if \<not> b then Inl Bt_deserialize_invalid_type else de data)"

definition list_consume_dict :: "'a reader \<Rightarrow> 'a reader" where
  "list_consume_dict de data =
     bind_result (list_is_dict data) (\<lambda>b.
       if \<not> b then Inl Bt_deserialize_invalid_type else de data)"

text \<open>
  The loops of \<open>consume_list_data\<close> and \<open>consume_dict_data\<close>, over the skipper of one value;
  the first argument bounds the iterations as in the readers.
\<close>

fun consume_list_loop :: "nat \<Rightarrow> (bytes \<Rightarrow> bytes result) \<Rightarrow> bytes \<Rightarrow> bytes result" where
  "consume_list_loop k skip data =
     bind_result (list_is_finished data) (\<lambda>fin.
       if fin then Inr (tl data)
       else case k of
         0 \<Rightarrow> Inl Out_of_fuel
       | Suc k \<Rightarrow> bind_result (skip data) (\<lambda>data.
           if data = [] then Inl Bt_deserialize_invalid
           else consume_list_loop k skip data))"

fun consume_dict_loop :: "nat \<Rightarrow> (bytes \<Rightarrow> bytes result) \<Rightarrow> bytes \<Rightarrow> bytes result" where
  "consume_dict_loop k skip data =
     bind_result (list_is_finished data) (\<lambda>fin.
       if fin then Inr (tl data)
       else case k of
         0 \<Rightarrow> Inl Out_of_fuel
       | Suc k \<Rightarrow> bind_result (list_consume_string_view data) (\<lambda>(_, data).
           bind_result (if data \<noteq> [] then skip data else Inr data) (\<lambda>data.
             if data = [] then Inl Bt_deserialize_invalid
             else consume_dict_loop k skip data)))"

definition consume_list_data_by :: "(bytes \<Rightarrow> bytes result) \<Rightarrow> bytes reader" where
  "consume_list_data_by skip data =
     (if length data < 2 then Inl Bt_deserialize_invalid_type
      else bind_result (list_is_list data) (\<lambda>b.
        if \<not> b then Inl Bt_deserialize_invalid_type
        else bind_result (consume_list_loop (length data) skip (tl data)) (\<lambda>rest.
          Inr (take (length data - length rest) data, rest))))"

definition consume_dict_data_by :: "(bytes \<Rightarrow> bytes result) \<Rightarrow> bytes reader" where
  "consume_dict_data_by skip data =
     (if length data < 2 then Inl Bt_deserialize_invalid_type
      else bind_result (list_is_dict data) (\<lambda>b.
        if \<not> b then Inl Bt_deserialize_invalid_type
        else bind_result (consume_dict_loop (length data) skip (tl data)) (\<lambda>rest.
          Inr (take (length data - length rest) data, rest))))"

primrec skip_value :: "nat \<Rightarrow> bytes \<Rightarrow> bytes result" where
  "skip_value 0 data = Inl Out_of_fuel"
| "skip_value (Suc n) data =
     bind_result (front data) (\<lambda>c.
       if is_digit c then bind_result (list_consume_string_view data) (\<lambda>(_, data). Inr data)
       else if c = CHR ''i'' then bind_result (bt_deserialize_integer data) (\<lambda>(_, data). Inr data)
       else if c = CHR ''l'' then bind_result (consume_list_data_by (skip_value n) data) (\<lambda>(_, data). Inr data)
       else if c = CHR ''d'' then bind_result (consume_dict_data_by (skip_value n) data) (\<lambda>(_, data). Inr data)
       else Inl Bt_deserialize_invalid_type)"

definition list_skip_value :: "bytes \<Rightarrow> bytes result" where
  "list_skip_value data = skip_value (length data + 1) data"

definition list_consume_list_data :: "bytes reader" where
  "list_consume_list_data data = consume_list_data_by (skip_value (length data + 1)) data"

definition list_consume_dict_data :: "bytes reader" where
  "list_consume_dict_data data = consume_dict_data_by (skip_value (length data + 1)) data"

section \<open>The dict consumer\<close>

text \<open>
  \<open>key_\<close> is a view whose null data pointer means that no key is cached: \<open>None\<close>. An empty
  key that was read is \<open>Some []\<close>.
\<close>

record bt_dict_consumer =
  dc_data :: bytes
  dc_key :: "bytes option"

definition bt_dict_consumer_of :: "bytes \<Rightarrow> bt_dict_consumer result" where
  "bt_dict_consumer_of data =
     (if data = [] then Inl Runtime_error
      else if length data < 2 \<or> hd data \<noteq> CHR ''d'' then Inl Runtime_error
      else Inr \<lparr>dc_data = tl data, dc_key = None\<rparr>)"

definition consume_key :: "bt_dict_consumer \<Rightarrow> (bool \<times> bt_dict_consumer) result" where
  "consume_key c =
     (if dc_key c \<noteq> None then Inr (True, c)
      else if dc_data c = [] then Inl Bt_deserialize_invalid_type
      else if hd (dc_data c) = CHR ''e'' then Inr (False, c)
      else bind_result (list_consume_string_view (dc_data c)) (\<lambda>(k, data).
        if data = [] \<or> hd data = CHR ''e'' then Inl Bt_deserialize_invalid
        else Inr (True, \<lparr>dc_data = data, dc_key = Some k\<rparr>)))"

text \<open>The content of the view \<open>key_\<close>, and \<open>flush_key\<close>.\<close>

definition key_view :: "bt_dict_consumer \<Rightarrow> bytes" where
  "key_view c = (case dc_key c of None \<Rightarrow> [] | Some k \<Rightarrow> k)"

definition flush_key :: "bt_dict_consumer \<Rightarrow> bytes \<times> bt_dict_consumer" where
  "flush_key c = (key_view c, c\<lparr>dc_key := None\<rparr>)"

definition dict_test :: "(char \<Rightarrow> bool) \<Rightarrow> bt_dict_consumer \<Rightarrow> (bool \<times> bt_dict_consumer) result" where
  "dict_test P c =
     bind_result (consume_key c) (\<lambda>(b, c).
       if \<not> b then Inr (False, c) else bind_result (front (dc_data c)) (\<lambda>ch. Inr (P ch, c)))"

definition dict_is_finished :: "bt_dict_consumer \<Rightarrow> (bool \<times> bt_dict_consumer) result" where
  "dict_is_finished c =
     bind_result (consume_key c) (\<lambda>(b, c).
       if b then Inr (False, c) else bind_result (front (dc_data c)) (\<lambda>ch. Inr (ch = CHR ''e'', c)))"

definition dict_is_string :: "bt_dict_consumer \<Rightarrow> (bool \<times> bt_dict_consumer) result" where
  "dict_is_string = dict_test is_digit"

definition dict_is_integer :: "bt_dict_consumer \<Rightarrow> (bool \<times> bt_dict_consumer) result" where
  "dict_is_integer = dict_test (\<lambda>ch. ch = CHR ''i'')"

definition dict_is_list :: "bt_dict_consumer \<Rightarrow> (bool \<times> bt_dict_consumer) result" where
  "dict_is_list = dict_test (\<lambda>ch. ch = CHR ''l'')"

definition dict_is_dict :: "bt_dict_consumer \<Rightarrow> (bool \<times> bt_dict_consumer) result" where
  "dict_is_dict = dict_test (\<lambda>ch. ch = CHR ''d'')"

definition dict_key :: "bt_dict_consumer \<Rightarrow> (bytes \<times> bt_dict_consumer) result" where
  "dict_key c =
     bind_result (consume_key c) (\<lambda>(b, c). if \<not> b then Inl Bt_deserialize_invalid else Inr (key_view c, c))"

text \<open>
  The common end of the \<open>next_*\<close> methods: read the value with a method of the list
  consumer, then flush the key and return both.
\<close>

definition next_with :: "'a reader \<Rightarrow> bt_dict_consumer \<Rightarrow> ((bytes \<times> 'a) \<times> bt_dict_consumer) result" where
  "next_with rd c =
     bind_result (rd (dc_data c)) (\<lambda>(v, data).
       let (k, c) = flush_key (c\<lparr>dc_data := data\<rparr>) in Inr ((k, v), c))"

definition next_string :: "bt_dict_consumer \<Rightarrow> ((bytes \<times> bytes) \<times> bt_dict_consumer) result" where
  "next_string c =
     bind_result (dict_is_string c) (\<lambda>(b, c).
       if \<not> b then Inl Bt_deserialize_invalid_type else next_with list_consume_string_view c)"

definition next_integer :: "int_type \<Rightarrow> bt_dict_consumer \<Rightarrow> ((bytes \<times> int) \<times> bt_dict_consumer) result" where
  "next_integer T c =
     bind_result (dict_is_integer c) (\<lambda>(b, c).
       if \<not> b then Inl Bt_deserialize_invalid_type else next_with (list_consume_integer T) c)"

definition next_list :: "'a reader \<Rightarrow> bt_dict_consumer \<Rightarrow> ((bytes \<times> 'a) \<times> bt_dict_consumer) result" where
  "next_list de c =
     bind_result (dict_is_list c) (\<lambda>(b, c).
       if \<not> b then Inl Bt_deserialize_invalid_type else next_with (list_consume_list de) c)"

definition next_dict :: "'a reader \<Rightarrow> bt_dict_consumer \<Rightarrow> ((bytes \<times> 'a) \<times> bt_dict_consumer) result" where
  "next_dict de c =
     bind_result (dict_is_dict c) (\<lambda>(b, c).
       if \<not> b then Inl Bt_deserialize_invalid_type else next_with (list_consume_dict de) c)"

text \<open>\<open>next_list_data\<close> and \<open>next_dict_data\<close> flush the key before they read the value.\<close>

definition next_list_data :: "bt_dict_consumer \<Rightarrow> ((bytes \<times> bytes) \<times> bt_dict_consumer) result" where
  "next_list_data c =
     (if length (dc_data c) < 2 then Inl Bt_deserialize_invalid_type
      else bind_result (dict_is_list c) (\<lambda>(b, c).
        if \<not> b then Inl Bt_deserialize_invalid_type
        else let (k, c) = flush_key c
             in bind_result (list_consume_list_data (dc_data c)) (\<lambda>(v, data).
                  Inr ((k, v), c\<lparr>dc_data := data\<rparr>))))"

definition next_dict_data :: "bt_dict_consumer \<Rightarrow> ((bytes \<times> bytes) \<times> bt_dict_consumer) result" where
  "next_dict_data c =
     (if length (dc_data c) < 2 then Inl Bt_deserialize_invalid_type
      else bind_result (dict_is_dict c) (\<lambda>(b, c).
        if \<not> b then Inl Bt_deserialize_invalid_type
        else let (k, c) = flush_key c
             in bind_result (list_consume_dict_data (dc_data c)) (\<lambda>(v, data).
                  Inr ((k, v), c\<lparr>dc_data := data\<rparr>))))"

text \<open>The \<open>consume_*\<close> methods discard the key of the corresponding \<open>next_*\<close>.\<close>

definition value_of_next :: "((bytes \<times> 'a) \<times> bt_dict_consumer) result \<Rightarrow> ('a \<times> bt_dict_consumer) result" where
  "value_of_next m = bind_result m (\<lambda>((_, v), c). Inr (v, c))"

definition dict_consume_string :: "bt_dict_consumer \<Rightarrow> (bytes \<times> bt_dict_consumer) result" where
  "dict_consume_string c = value_of_next (next_string c)"

definition dict_consume_integer :: "int_type \<Rightarrow> bt_dict_consumer \<Rightarrow> (int \<times> bt_dict_consumer) result" where
  "dict_consume_integer T c = value_of_next (next_integer T c)"

definition dict_consume_list_data :: "bt_dict_consumer \<Rightarrow> (bytes \<times> bt_dict_consumer) result" where
  "dict_consume_list_data c = value_of_next (next_list_data c)"

definition dict_consume_dict_data :: "bt_dict_consumer \<Rightarrow> (bytes \<times> bt_dict_consumer) result" where
  "dict_consume_dict_data c = value_of_next (next_dict_data c)"

definition dict_consume_list_consumer :: "bt_dict_consumer \<Rightarrow> (bytes \<times> bt_dict_consumer) result" where
  "dict_consume_list_consumer c =
     bind_result (dict_consume_list_data c) (\<lambda>(v, c). bind_result (bt_list_consumer v) (\<lambda>l. Inr (l, c)))"

text \<open>\<open>skip_until\<close>, whose loop is bounded by the length of the data.\<close>

fun skip_until_loop :: "nat \<Rightarrow> bytes \<Rightarrow> bt_dict_consumer \<Rightarrow> (bool \<times> bt_dict_consumer) result" where
  "skip_until_loop k find_key c =
     bind_result (consume_key c) (\<lambda>(b, c).
       if b \<and> key_view c < find_key then
         case k of
           0 \<Rightarrow> Inl Out_of_fuel
         | Suc k \<Rightarrow>
             let (_, c) = flush_key c
             in bind_result (list_skip_value (dc_data c)) (\<lambda>data.
                  skip_until_loop k find_key (c\<lparr>dc_data := data\<rparr>))
       else Inr (key_view c = find_key, c))"

definition skip_until :: "bytes \<Rightarrow> bt_dict_consumer \<Rightarrow> (bool \<times> bt_dict_consumer) result" where
  "skip_until find_key c = skip_until_loop (length (dc_data c) + 1) find_key c"

end
