(* ===== verification/Bt_Cursor.thy ===== *)
theory Bt_Cursor
  imports Bt_Consumer
begin

text \<open>
  Skipping against reading: \<open>skip_value\<close> succeeds exactly where the reader of the generic
  value does, and stops at the same place. Then the dict consumer as an implementation of an
  abstract cursor over the entries of a dict.
\<close>

section \<open>Skipping a value\<close>

declare consume_list_loop.simps [simp del] consume_dict_loop.simps [simp del] skip_until_loop.simps [simp del]

lemmas list_tests = front_def list_is_finished_def list_is_string_def list_is_integer_def
  list_is_list_def list_is_dict_def

lemma list_consume_string_view_eq:
  "list_consume_string_view s = Inr x \<longleftrightarrow> bt_deserialize_string s = Inr x"
  by (auto simp: list_consume_string_view_def list_tests bt_deserialize_string_def)

lemma list_consume_string_view_hd:
  "s \<noteq> [] \<Longrightarrow> is_digit (hd s) \<Longrightarrow> list_consume_string_view s = bt_deserialize_string s"
  by (simp add: list_consume_string_view_def list_tests)

lemma consume_loop_simps:
  "consume_list_loop 0 skip s =
     (if s = [] then Inl Undefined_behaviour else if hd s = CHR ''e'' then Inr (tl s) else Inl Out_of_fuel)"
  "consume_list_loop (Suc k) skip s =
     (if s = [] then Inl Undefined_behaviour else if hd s = CHR ''e'' then Inr (tl s)
      else bind_result (skip s) (\<lambda>s. if s = [] then Inl Bt_deserialize_invalid else consume_list_loop k skip s))"
  "consume_dict_loop 0 skip s =
     (if s = [] then Inl Undefined_behaviour else if hd s = CHR ''e'' then Inr (tl s) else Inl Out_of_fuel)"
  "consume_dict_loop (Suc k) skip s =
     (if s = [] then Inl Undefined_behaviour else if hd s = CHR ''e'' then Inr (tl s)
      else bind_result (list_consume_string_view s) (\<lambda>(_, s).
        bind_result (if s \<noteq> [] then skip s else Inr s) (\<lambda>s.
          if s = [] then Inl Bt_deserialize_invalid else consume_dict_loop k skip s)))"
  by (subst consume_list_loop.simps consume_dict_loop.simps; simp add: list_tests)+

definition skips_like :: "(bytes \<Rightarrow> bytes result) \<Rightarrow> 'a reader \<Rightarrow> bool" where
  "skips_like skip de = (\<forall>s r. skip s = Inr r \<longleftrightarrow> (\<exists>v. de s = Inr (v, r)))"

lemma skips_likeD: "skips_like skip de \<Longrightarrow> skip s = Inr r \<longleftrightarrow> (\<exists>v. de s = Inr (v, r))"
  by (simp add: skips_like_def)

lemma list_loop_Nil [simp]: "bt_deserialize_list_loop k de [] = Inl Bt_deserialize_invalid"
  by (simp add: bt_deserialize_list_loop.simps)

lemma dict_loop_Nil [simp]: "bt_deserialize_dict_loop k de d [] = Inl Bt_deserialize_invalid"
  by (simp add: bt_deserialize_dict_loop.simps)

lemma consume_list_loop_skips:
  assumes "skips_like skip de"
  shows "s \<noteq> [] \<Longrightarrow> consume_list_loop k skip s = Inr r \<longleftrightarrow> (\<exists>vs. bt_deserialize_list_loop k de s = Inr (vs, r))"
proof (induction k arbitrary: s)
  case 0
  then show ?case by (simp add: consume_loop_simps list_loop_simps)
next
  case (Suc k)
  have rest: "(t \<noteq> [] \<and> consume_list_loop k skip t = Inr r) \<longleftrightarrow> (\<exists>vs. bt_deserialize_list_loop k de t = Inr (vs, r))" for t
    using Suc.IH [of t] by (cases "t = []") simp_all
  show ?case
  proof (cases "hd s = CHR ''e''")
    case True
    with Suc.prems show ?thesis by (simp add: consume_loop_simps list_loop_simps)
  next
    case False
    with Suc.prems have "consume_list_loop (Suc k) skip s = Inr r
        \<longleftrightarrow> (\<exists>t. skip s = Inr t \<and> t \<noteq> [] \<and> consume_list_loop k skip t = Inr r)"
      by (auto simp: consume_loop_simps bind_result_eq_Inr split: if_splits)
    also have "\<dots> \<longleftrightarrow> (\<exists>v t vs. de s = Inr (v, t) \<and> bt_deserialize_list_loop k de t = Inr (vs, r))"
      unfolding rest skips_likeD [OF assms] by blast
    also have "\<dots> \<longleftrightarrow> (\<exists>vs. bt_deserialize_list_loop (Suc k) de s = Inr (vs, r))"
      using False Suc.prems by (auto simp: list_loop_simps bind_result_eq_Inr)
    finally show ?thesis .
  qed
qed

lemma consume_dict_loop_skips:
  assumes "skips_like skip de" "\<And>v r. de [] \<noteq> Inr (v, r)"
  shows "s \<noteq> [] \<Longrightarrow> consume_dict_loop k skip s = Inr r \<longleftrightarrow> (\<exists>d'. bt_deserialize_dict_loop k de d s = Inr (d', r))"
proof (induction k arbitrary: s d)
  case 0
  then show ?case by (simp add: consume_loop_simps dict_loop_simps)
next
  case (Suc k)
  have rest: "(t \<noteq> [] \<and> consume_dict_loop k skip t = Inr r) \<longleftrightarrow> (\<exists>d'. bt_deserialize_dict_loop k de d0 t = Inr (d', r))" for t d0
    using Suc.IH [of t d0] by (cases "t = []") simp_all
  show ?case
  proof (cases "hd s = CHR ''e''")
    case True
    with Suc.prems show ?thesis by (simp add: consume_loop_simps dict_loop_simps)
  next
    case False
    with Suc.prems have "consume_dict_loop (Suc k) skip s = Inr r
        \<longleftrightarrow> (\<exists>key u t. bt_deserialize_string s = Inr (key, u) \<and> u \<noteq> [] \<and> skip u = Inr t \<and> t \<noteq> []
              \<and> consume_dict_loop k skip t = Inr r)"
      by (auto simp: consume_loop_simps bind_result_eq_Inr list_consume_string_view_eq split: if_splits)
    also have "\<dots> \<longleftrightarrow> (\<exists>key u val t d'. bt_deserialize_string s = Inr (key, u) \<and> de u = Inr (val, t)
              \<and> bt_deserialize_dict_loop k de (dict_insert key val d) t = Inr (d', r))"
    proof (intro iffI; elim exE conjE)
      fix key u t
      assume u: "bt_deserialize_string s = Inr (key, u)" "skip u = Inr t"
        and t: "t \<noteq> []" "consume_dict_loop k skip t = Inr r"
      from u(2) obtain val where "de u = Inr (val, t)" using skips_likeD [OF assms(1)] by blast
      moreover from t obtain d' where "bt_deserialize_dict_loop k de (dict_insert key val d) t = Inr (d', r)"
        using rest by blast
      ultimately show "\<exists>key u val t d'. bt_deserialize_string s = Inr (key, u) \<and> de u = Inr (val, t)
          \<and> bt_deserialize_dict_loop k de (dict_insert key val d) t = Inr (d', r)"
        using u(1) by blast
    next
      fix key u val t d'
      assume u: "bt_deserialize_string s = Inr (key, u)" "de u = Inr (val, t)"
        and t: "bt_deserialize_dict_loop k de (dict_insert key val d) t = Inr (d', r)"
      from u(2) have "u \<noteq> []" "skip u = Inr t" using assms(2) skips_likeD [OF assms(1)] by blast+
      moreover from t have "t \<noteq> []" "consume_dict_loop k skip t = Inr r" using rest by blast+
      ultimately show "\<exists>key u t. bt_deserialize_string s = Inr (key, u) \<and> u \<noteq> [] \<and> skip u = Inr t \<and> t \<noteq> []
          \<and> consume_dict_loop k skip t = Inr r"
        using u(1) by blast
    qed
    also have "\<dots> \<longleftrightarrow> (\<exists>d'. bt_deserialize_dict_loop (Suc k) de d s = Inr (d', r))"
      using False Suc.prems by (auto simp: dict_loop_simps bind_result_eq_Inr)
    finally show ?thesis .
  qed
qed

lemma bt_deserialize_value_Nil [simp]: "bt_deserialize_value n [] \<noteq> Inr x"
  by (cases n) simp_all

lemma consume_list_data_skips:
  assumes "skips_like skip de"
  shows "(\<exists>v. consume_list_data_by skip s = Inr (v, r)) \<longleftrightarrow> (\<exists>vs. bt_deserialize_list de s = Inr (vs, r))"
proof (cases "2 \<le> length s \<and> hd s = CHR ''l''")
  case True
  then have "s \<noteq> []" "tl s \<noteq> []" by (auto simp: neq_Nil_conv Suc_le_length_iff numeral_2_eq_2)
  with True show ?thesis
    using consume_list_loop_skips [OF assms \<open>tl s \<noteq> []\<close>, of "length s" r]
    by (simp add: consume_list_data_by_def list_tests bt_deserialize_list_def bind_result_eq_Inr)
qed (auto simp: consume_list_data_by_def list_tests bt_deserialize_list_def bind_result_eq_Inr)

lemma consume_dict_data_skips:
  assumes "skips_like skip de" "\<And>v r. de [] \<noteq> Inr (v, r)"
  shows "(\<exists>v. consume_dict_data_by skip s = Inr (v, r)) \<longleftrightarrow> (\<exists>d. bt_deserialize_dict de s = Inr (d, r))"
proof (cases "2 \<le> length s \<and> hd s = CHR ''d''")
  case True
  then have "s \<noteq> []" "tl s \<noteq> []" by (auto simp: neq_Nil_conv Suc_le_length_iff numeral_2_eq_2)
  with True show ?thesis
    using consume_dict_loop_skips [OF assms \<open>tl s \<noteq> []\<close>, of "length s" r "[]"]
    by (simp add: consume_dict_data_by_def list_tests bt_deserialize_dict_def bind_result_eq_Inr)
qed (auto simp: consume_dict_data_by_def list_tests bt_deserialize_dict_def bind_result_eq_Inr)

lemma skip_value_skips: "skips_like (skip_value n) (bt_deserialize_value n)"
proof (induction n)
  case 0
  show ?case by (simp add: skips_like_def)
next
  case (Suc n)
  have "skip_value (Suc n) s = Inr r \<longleftrightarrow> (\<exists>v. bt_deserialize_value (Suc n) s = Inr (v, r))" for s r
  proof (cases "length s < 2")
    case True
    then consider "s = []" | c where "s = [c]" by (cases s; cases "tl s") auto
    then show ?thesis
      by cases (auto simp: list_tests list_consume_string_view_def bt_deserialize_string_def
          bt_deserialize_integer_def consume_list_data_by_def consume_dict_data_by_def)
  next
    case False
    then have "s \<noteq> []" by auto
    with False consume_list_data_skips [OF Suc, of s r] consume_dict_data_skips [OF Suc bt_deserialize_value_Nil, of s r]
    show ?thesis
      by (auto simp: list_tests list_consume_string_view_eq bind_result_eq_Inr)
  qed
  then show ?case by (simp add: skips_like_def)
qed

lemma list_skip_value_round: "bt_value_ok v \<Longrightarrow> list_skip_value (bt_serialize_value v @ r) = Inr r"
proof -
  assume "bt_value_ok v"
  then have "value_fits (length (bt_serialize_value v @ r) + 1) v" by (simp add: value_fits_def)
  from generic.round [OF this, of r] skips_likeD [OF skip_value_skips] show ?thesis
    unfolding list_skip_value_def by blast
qed

lemma skip_value_shorter: "skip_value n s = Inr r \<Longrightarrow> length r + 2 \<le> length s"
  using skips_likeD [OF skip_value_skips] generic.shorter by blast

section \<open>Absence of undefined behaviour\<close>

lemma extract_unsigned_loop_defined [simp]: "extract_unsigned_loop u s \<noteq> Inl Undefined_behaviour"
  by (induction u s rule: extract_unsigned_loop.induct) (simp_all add: Let_def)

lemma bt_deserialize_string_defined [simp]: "bt_deserialize_string s \<noteq> Inl Undefined_behaviour"
  by (auto simp: bt_deserialize_string_def extract_unsigned_def result_simps Let_def)

lemma bt_deserialize_integer_defined [simp]: "bt_deserialize_integer s \<noteq> Inl Undefined_behaviour"
  by (auto simp: bt_deserialize_integer_def extract_unsigned_def result_simps Let_def)

lemma list_consume_string_view_defined [simp]:
  "list_consume_string_view s \<noteq> Inl Undefined_behaviour" "list_consume_string_view s \<noteq> Inl Out_of_fuel"
  by (auto simp: list_consume_string_view_def list_tests)

text \<open>What makes a skipper safe below a length bound.\<close>

definition skip_safe :: "nat \<Rightarrow> (bytes \<Rightarrow> bytes result) \<Rightarrow> bool" where
  "skip_safe n skip = (\<forall>s. s \<noteq> [] \<and> length s < n \<longrightarrow>
     skip s \<noteq> Inl Undefined_behaviour \<and> skip s \<noteq> Inl Out_of_fuel \<and>
     (\<forall>r. skip s = Inr r \<longrightarrow> length r < length s))"

lemma consume_list_loop_safe:
  "skip_safe n skip \<Longrightarrow> s \<noteq> [] \<Longrightarrow> length s < n \<Longrightarrow> length s \<le> k
     \<Longrightarrow> consume_list_loop k skip s \<notin> {Inl Undefined_behaviour, Inl Out_of_fuel}"
proof (induction k arbitrary: s)
  case (Suc k)
  then have "consume_list_loop k skip t \<notin> {Inl Undefined_behaviour, Inl Out_of_fuel}"
    if "skip s = Inr t" "t \<noteq> []" for t
    using that by (intro Suc.IH) (auto simp: skip_safe_def)
  with Suc.prems show ?case
    by (auto simp: consume_loop_simps result_simps skip_safe_def split: if_splits)
qed simp

lemma consume_dict_loop_safe:
  "skip_safe n skip \<Longrightarrow> s \<noteq> [] \<Longrightarrow> length s < n \<Longrightarrow> length s \<le> k
     \<Longrightarrow> consume_dict_loop k skip s \<notin> {Inl Undefined_behaviour, Inl Out_of_fuel}"
proof (induction k arbitrary: s)
  case (Suc k)
  have shorter: "length u < length s" if "list_consume_string_view s = Inr (key, u)" for key u
    using that bt_deserialize_string_consumes by (fastforce simp: list_consume_string_view_eq)
  have "consume_dict_loop k skip t \<notin> {Inl Undefined_behaviour, Inl Out_of_fuel}"
    if "list_consume_string_view s = Inr (key, u)" "u \<noteq> []" "skip u = Inr t" "t \<noteq> []" for key u t
    using that shorter [of key u] Suc.prems by (intro Suc.IH) (auto simp: skip_safe_def)
  with Suc.prems shorter show ?case
    by (auto simp: consume_loop_simps result_simps skip_safe_def split: if_splits)
qed simp

lemma skip_value_safe: "skip_safe n (skip_value n)"
proof (induction n)
  case 0
  show ?case by (simp add: skip_safe_def)
next
  case (Suc n)
  have "skip_value (Suc n) s \<notin> {Inl Undefined_behaviour, Inl Out_of_fuel}" if "s \<noteq> []" "length s < Suc n" for s
  proof -
    have "2 \<le> length s \<Longrightarrow> tl s \<noteq> []" by (cases s; cases "tl s") auto
    with that consume_list_loop_safe [OF Suc, of "tl s" "length s"]
      consume_dict_loop_safe [OF Suc, of "tl s" "length s"]
    show ?thesis
      by (auto simp: list_tests consume_list_data_by_def consume_dict_data_by_def result_simps)
  qed
  then show ?case using skip_value_shorter [of "Suc n"] by (fastforce simp: skip_safe_def)
qed

section \<open>The dict consumer as a cursor over entries\<close>

text \<open>
  \<open>cursor_at c kvs\<close>: the consumer \<open>c\<close> stands before the entries \<open>kvs\<close>, the key of the
  first of which it may have cached.
\<close>

definition entry_ok :: "bytes \<times> bt_value \<Rightarrow> bool" where
  "entry_ok kv = (size_ok (fst kv) \<and> bt_value_ok (snd kv))"

definition enc_entries :: "(bytes \<times> bt_value) list \<Rightarrow> bytes \<Rightarrow> bytes" where
  "enc_entries kvs rest = concat (map (bt_serialize_entry bt_serialize_value) kvs) @ CHR ''e'' # rest"

definition cursor_at :: "bt_dict_consumer \<Rightarrow> (bytes \<times> bt_value) list \<Rightarrow> bool" where
  "cursor_at c kvs =
     (list_all entry_ok kvs \<and>
      (\<exists>rest. case dc_key c of
         None \<Rightarrow> dc_data c = enc_entries kvs rest
       | Some k \<Rightarrow> kvs \<noteq> [] \<and> k = fst (hd kvs) \<and>
           dc_data c = bt_serialize_value (snd (hd kvs)) @ enc_entries (tl kvs) rest))"

lemma enc_entries_simps [simp]:
  "enc_entries [] rest = CHR ''e'' # rest"
  "enc_entries ((k, v) # kvs) rest = bt_serialize_string k @ bt_serialize_value v @ enc_entries kvs rest"
  by (simp_all add: enc_entries_def bt_serialize_entry_def)

lemma bt_value_ok_fits: "bt_value_ok v \<Longrightarrow> value_fits (Suc (length (bt_serialize_value v))) v"
  by (simp add: value_fits_def)

lemma bt_serialize_value_ne [simp]: "bt_value_ok v \<Longrightarrow> bt_serialize_value v \<noteq> []"
  using generic.ser_ne bt_value_ok_fits by blast

lemma bt_serialize_value_hd [simp]: "bt_value_ok v \<Longrightarrow> hd (bt_serialize_value v) \<noteq> CHR ''e''"
  using generic.leads bt_value_ok_fits by blast

lemma cursor_at_new: "list_all entry_ok d \<Longrightarrow> bt_dict_ok d
    \<Longrightarrow> \<exists>c. bt_dict_consumer_of (bt_serialize_dict bt_serialize_value d) = Inr c \<and> cursor_at c d"
  by (simp add: bt_dict_consumer_of_def bt_serialize_dict_def cursor_at_def enc_entries_def sort_dict_ok)

lemma consume_key_at:
  assumes "cursor_at c kvs"
  obtains c' where "consume_key c = Inr (kvs \<noteq> [], c')" "cursor_at c' kvs"
    "dc_key c' = (if kvs = [] then None else Some (fst (hd kvs)))"
proof (cases "dc_key c")
  case (Some k)
  with assms have "consume_key c = Inr (kvs \<noteq> [], c)" by (auto simp: consume_key_def cursor_at_def)
  with that [of c] Some assms show thesis by (auto simp: cursor_at_def)
next
  case None
  with assms obtain rest where data: "dc_data c = enc_entries kvs rest" and ok: "list_all entry_ok kvs"
    by (auto simp: cursor_at_def)
  show thesis
  proof (cases kvs)
    case Nil
    with None data have "consume_key c = Inr (False, c)" by (simp add: consume_key_def)
    with that [of c] Nil None assms show thesis by simp
  next
    case (Cons kv kvs')
    obtain k v where kv: "kv = (k, v)" by (cases kv)
    with ok Cons have ok': "size_ok k" "bt_value_ok v" by (simp_all add: entry_ok_def)
    define data' where "data' = bt_serialize_value v @ enc_entries kvs' rest"
    have "consume_key c = Inr (True, \<lparr>dc_data = data', dc_key = Some k\<rparr>)"
      using None data Cons kv ok' bt_serialize_string_hd [of k]
      by (simp add: consume_key_def data'_def list_consume_string_view_hd bt_deserialize_string_round hd_append)
    moreover have "cursor_at \<lparr>dc_data = data', dc_key = Some k\<rparr> kvs"
      using ok Cons kv by (auto simp: cursor_at_def data'_def)
    ultimately show thesis using that Cons kv by simp
  qed
qed

lemma cursor_at_cached:
  assumes "cursor_at c ((k, v) # kvs)" "dc_key c = Some k'"
  obtains rest where "k' = k" "dc_data c = bt_serialize_value v @ enc_entries kvs rest" "size_ok k" "bt_value_ok v"
    "list_all entry_ok kvs"
  using assms by (auto simp: cursor_at_def entry_ok_def)

lemma cursor_at_after:
  "list_all entry_ok kvs \<Longrightarrow> cursor_at \<lparr>dc_data = enc_entries kvs rest, dc_key = None\<rparr> kvs"
  by (auto simp: cursor_at_def)

lemma skip_until_loop_at:
  "cursor_at c kvs \<Longrightarrow> length kvs < k \<Longrightarrow>
     \<exists>c'. skip_until_loop k find_key c
            = Inr (key_view c' = find_key, c') \<and> cursor_at c' (dropWhile (\<lambda>kv. fst kv < find_key) kvs) \<and>
          dc_key c' = (case dropWhile (\<lambda>kv. fst kv < find_key) kvs of [] \<Rightarrow> None | kv # _ \<Rightarrow> Some (fst kv))"
proof (induction kvs arbitrary: c k)
  case Nil
  then obtain c' where "consume_key c = Inr (False, c')" "cursor_at c' []" "dc_key c' = None"
    using consume_key_at by force
  then show ?case by (subst skip_until_loop.simps) simp
next
  case (Cons kv kvs)
  obtain key v where kv: "kv = (key, v)" by (cases kv)
  obtain c1 where c1: "consume_key c = Inr (True, c1)" "cursor_at c1 ((key, v) # kvs)" "dc_key c1 = Some key"
    using consume_key_at [OF Cons.prems(1)] kv by auto
  then have view: "key_view c1 = key" by (simp add: key_view_def)
  show ?case
  proof (cases "key < find_key")
    case False
    with c1 view kv show ?thesis by (subst skip_until_loop.simps) simp
  next
    case True
    obtain rest where rest: "dc_data c1 = bt_serialize_value v @ enc_entries kvs rest" "bt_value_ok v" "list_all entry_ok kvs"
      using cursor_at_cached [OF c1(2,3)] by blast
    obtain k' where k: "k = Suc k'" "length kvs < k'" using Cons.prems(2) by (cases k) simp_all
    define c2 where "c2 = c1\<lparr>dc_key := None, dc_data := enc_entries kvs rest\<rparr>"
    have "cursor_at c2 kvs" using rest(3) by (auto simp: cursor_at_def c2_def)
    from Cons.IH [OF this k(2)] True c1 view kv k(1) rest(1,2) show ?thesis
      by (subst skip_until_loop.simps) (simp add: flush_key_def list_skip_value_round c2_def)
  qed
qed

lemma length_enc_entries: "list_all entry_ok kvs \<Longrightarrow> length kvs < length (enc_entries kvs rest)"
  by (induction kvs) (auto simp: entry_ok_def bt_serialize_string_def)

lemma cursor_at_length:
  assumes "cursor_at c kvs"
  shows "length kvs < length (dc_data c) + 1"
proof (cases "dc_key c")
  case None
  with assms obtain rest where "list_all entry_ok kvs" "dc_data c = enc_entries kvs rest"
    by (auto simp: cursor_at_def)
  with length_enc_entries [of kvs rest] show ?thesis by simp
next
  case (Some k)
  with assms obtain kv kvs' rest where "kvs = kv # kvs'" "list_all entry_ok kvs'"
    "dc_data c = bt_serialize_value (snd kv) @ enc_entries kvs' rest"
    by (auto simp: cursor_at_def neq_Nil_conv)
  with length_enc_entries [of kvs' rest] show ?thesis by simp
qed

lemma skip_until_at:
  assumes "cursor_at c kvs" "find_key \<noteq> []"
  defines "kvs' \<equiv> dropWhile (\<lambda>kv. fst kv < find_key) kvs"
  shows "\<exists>c'. skip_until find_key c = Inr (kvs' \<noteq> [] \<and> fst (hd kvs') = find_key, c') \<and> cursor_at c' kvs'"
  using skip_until_loop_at [OF assms(1) cursor_at_length [OF assms(1)], of find_key] assms(2)
  unfolding skip_until_def kvs'_def [symmetric]
  by (cases kvs') (auto simp: key_view_def)

lemma dict_test_at:
  assumes "cursor_at c ((k, v) # kvs)"
  obtains c' rest where "dict_test P c = Inr (P (hd (bt_serialize_value v)), c')" "dc_key c' = Some k"
    "dc_data c' = bt_serialize_value v @ enc_entries kvs rest" "list_all entry_ok kvs" "bt_value_ok v"
proof -
  obtain c' where c': "consume_key c = Inr (True, c')" "cursor_at c' ((k, v) # kvs)" "dc_key c' = Some k"
    using consume_key_at [OF assms] by auto
  then obtain rest where "dc_data c' = bt_serialize_value v @ enc_entries kvs rest" "list_all entry_ok kvs" "bt_value_ok v"
    using cursor_at_cached by blast
  with c' that show thesis by (simp add: dict_test_def front_def hd_append)
qed

text \<open>A \<open>next_*\<close> method whose reader takes exactly the encoding of the value.\<close>

lemma next_with_at:
  assumes "dc_key c = Some k" "dc_data c = bt_serialize_value v @ enc_entries kvs rest" "list_all entry_ok kvs"
    and "rd (bt_serialize_value v @ enc_entries kvs rest) = Inr (x, enc_entries kvs rest)"
  shows "\<exists>c'. next_with rd c = Inr ((k, x), c') \<and> cursor_at c' kvs"
  using assms by (auto simp: next_with_def flush_key_def key_view_def cursor_at_def)

lemma next_string_at:
  assumes "cursor_at c ((k, v) # kvs)" "v = BtString s \<or> v = BtStringView s"
  shows "\<exists>c'. next_string c = Inr ((k, s), c') \<and> cursor_at c' kvs"
proof -
  obtain c' rest where c': "dict_test is_digit c = Inr (is_digit (hd (bt_serialize_value v)), c')" "dc_key c' = Some k"
    "dc_data c' = bt_serialize_value v @ enc_entries kvs rest" "list_all entry_ok kvs" "bt_value_ok v"
    by (rule dict_test_at [OF assms(1)])
  have ser: "bt_serialize_value v = bt_serialize_string s" "size_ok s" using assms(2) c'(5) by auto
  have "list_consume_string_view (bt_serialize_value v @ enc_entries kvs rest) = Inr (s, enc_entries kvs rest)"
    using ser bt_serialize_string_hd [of s] by (simp add: list_consume_string_view_hd bt_deserialize_string_round)
  from next_with_at [where rd = list_consume_string_view, OF c'(2,3,4) this] c'(1) ser bt_serialize_string_hd [of s] show ?thesis
    by (simp add: next_string_def dict_is_string_def)
qed

text \<open>The integer a value of one of the two integer alternatives holds.\<close>

fun int_of_value :: "bt_value \<Rightarrow> int option" where
  "int_of_value (BtInt64 w) = Some (sint w)"
| "int_of_value (BtUint64 w) = Some (uint w)"
| "int_of_value _ = None"

lemma next_integer_at:
  assumes "cursor_at c ((k, v) # kvs)" "int_of_value v = Some i" "int_type_ok T" "in_range T i"
  shows "\<exists>c'. next_integer T c = Inr ((k, i), c') \<and> cursor_at c' kvs"
proof -
  obtain c' rest where c': "dict_test (\<lambda>ch. ch = CHR ''i'') c = Inr (hd (bt_serialize_value v) = CHR ''i'', c')"
    "dc_key c' = Some k" "dc_data c' = bt_serialize_value v @ enc_entries kvs rest" "list_all entry_ok kvs"
    by (rule dict_test_at [OF assms(1)])
  have ser: "bt_serialize_value v = bt_serialize_int i" "hd (bt_serialize_int i) = CHR ''i''" "bt_serialize_int i \<noteq> []"
    using assms(2) by (cases v; simp add: bt_serialize_int_def)+
  have "list_consume_integer T (bt_serialize_value v @ enc_entries kvs rest) = Inr (i, enc_entries kvs rest)"
    using ser assms(3,4) by (simp add: list_consume_integer_def list_tests bt_deserialize_int_round)
  from next_with_at [where rd = "list_consume_integer T", OF c'(2,3,4) this] c'(1) ser show ?thesis
    by (simp add: next_integer_def dict_is_integer_def)
qed

lemma next_list_data_at:
  assumes "cursor_at c ((k, BtList vs) # kvs)"
  shows "\<exists>c'. next_list_data c = Inr ((k, bt_serialize_list bt_serialize_value vs), c') \<and> cursor_at c' kvs"
proof -
  let ?v = "BtList vs" and ?e = "bt_serialize_list bt_serialize_value vs"
  obtain c' rest where c': "dict_test (\<lambda>ch. ch = CHR ''l'') c = Inr (hd (bt_serialize_value ?v) = CHR ''l'', c')"
    "dc_key c' = Some k" "dc_data c' = bt_serialize_value ?v @ enc_entries kvs rest" "list_all entry_ok kvs" "bt_value_ok ?v"
    by (rule dict_test_at [OF assms])
  have len: "\<not> length (dc_data c) < 2"
  proof (cases "dc_key c")
    case None
    with assms obtain rest' where "dc_data c = bt_serialize_string k @ bt_serialize_list bt_serialize_value vs @ enc_entries kvs rest'"
      by (auto simp: cursor_at_def)
    then show ?thesis by (simp add: bt_serialize_list_def)
  next
    case (Some k')
    with assms show ?thesis by (auto simp: cursor_at_def bt_serialize_list_def)
  qed
  let ?d = "?e @ enc_entries kvs rest"
  have "value_fits (Suc (length ?d + 1)) ?v" using c'(5) by (simp add: value_fits_def)
  then have "list_all (value_fits (length ?d + 1)) vs" by (rule value_fits_list)
  from bt_codec.round [OF bt_codec.codec_list [OF codec_value] this, of "enc_entries kvs rest"]
  have "\<exists>view. consume_list_data_by (skip_value (length ?d + 1)) ?d = Inr (view, enc_entries kvs rest)"
    using consume_list_data_skips [OF skip_value_skips, of "length ?d + 1" ?d "enc_entries kvs rest"] by blast
  moreover have "view = take (length ?d - length r) ?d" if "consume_list_data_by skip ?d = Inr (view, r)" for view r skip
    using that by (auto simp: consume_list_data_by_def result_simps split: if_splits)
  ultimately have read: "list_consume_list_data ?d = Inr (?e, enc_entries kvs rest)"
    unfolding list_consume_list_data_def by fastforce
  have "hd ?e = CHR ''l''" by (simp add: bt_serialize_list_def)
  with c' len read show ?thesis
    by (auto simp: next_list_data_def dict_is_list_def flush_key_def key_view_def cursor_at_def)
qed

section \<open>Fields of a dict\<close>

text \<open>
  The idiom of every consumer of a control message:
  \<^verbatim>\<open>if (data.skip_until("key")) x = data.consume_...();\<close>
\<close>

definition opt_field ::
  "bytes \<Rightarrow> (bt_dict_consumer \<Rightarrow> ('a \<times> bt_dict_consumer) result) \<Rightarrow> bt_dict_consumer
     \<Rightarrow> ('a option \<times> bt_dict_consumer) result" where
  "opt_field find_key consume c =
     bind_result (skip_until find_key c) (\<lambda>(found, c).
       if found then bind_result (consume c) (\<lambda>(x, c). Inr (Some x, c)) else Inr (None, c))"

lemma dict_split:
  "bt_dict_ok kvs \<Longrightarrow> dropWhile (\<lambda>kv. fst kv < find_key) kvs
     = (case map_of kvs find_key of None \<Rightarrow> [] | Some v \<Rightarrow> [(find_key, v)]) @ dropWhile (\<lambda>kv. fst kv \<le> find_key) kvs"
proof (induction kvs)
  case (Cons kv kvs)
  then have later: "fst kv < k" if "k \<in> fst ` set kvs" for k using that by (auto simp: bt_dict_ok_def)
  obtain k v where kv: "kv = (k, v)" by (cases kv)
  consider "k < find_key" | "k = find_key" | "find_key < k" by (rule linorder_cases)
  then show ?case
  proof cases
    case 1
    with Cons kv show ?thesis by (auto simp: bt_dict_ok_def)
  next
    case 2
    then have "dropWhile (\<lambda>kv. fst kv \<le> find_key) kvs = kvs"
      using later kv by (cases kvs) (auto simp: not_le)
    with 2 kv show ?thesis by simp
  next
    case 3
    then have "map_of kvs find_key = None"
      using later kv by (fastforce simp: map_of_eq_None_iff)
    with 3 kv show ?thesis by auto
  qed
qed simp

text \<open>
  What a cursor promises its client: going forward to a key stops at the first entry whose
  key is not smaller and says whether it is the key, and a consume method takes the first
  entry when it holds a value it can convert.
\<close>

locale dict_cursor =
  fixes at :: "'c \<Rightarrow> (bytes \<times> 'v) list \<Rightarrow> bool"
    and skip_to :: "bytes \<Rightarrow> 'c \<Rightarrow> (bool \<times> 'c) result"
    and consume :: "'c \<Rightarrow> ('a \<times> 'c) result"
    and convert :: "'v \<Rightarrow> 'a option"
  assumes skip_to_at: "at c kvs \<Longrightarrow> find_key \<noteq> [] \<Longrightarrow>
      \<exists>c'. skip_to find_key c
             = Inr (dropWhile (\<lambda>kv. fst kv < find_key) kvs \<noteq> []
                    \<and> fst (hd (dropWhile (\<lambda>kv. fst kv < find_key) kvs)) = find_key, c')
           \<and> at c' (dropWhile (\<lambda>kv. fst kv < find_key) kvs)"
    and consume_at: "at c ((k, v) # kvs) \<Longrightarrow> convert v = Some x \<Longrightarrow> \<exists>c'. consume c = Inr (x, c') \<and> at c' kvs"
begin

lemma skip_to_found:
  assumes "at c kvs" "find_key \<noteq> []" "bt_dict_ok kvs"
  obtains c' where "skip_to find_key c = Inr (map_of kvs find_key \<noteq> None, c')"
    "at c' (dropWhile (\<lambda>kv. fst kv < find_key) kvs)"
proof -
  have "map_of kvs find_key \<noteq> None \<longleftrightarrow>
      dropWhile (\<lambda>kv. fst kv < find_key) kvs \<noteq> [] \<and> fst (hd (dropWhile (\<lambda>kv. fst kv < find_key) kvs)) = find_key"
    using assms(3)
  proof (induction kvs)
    case (Cons kv kvs)
    then have later: "fst kv < k" if "k \<in> fst ` set kvs" for k using that by (auto simp: bt_dict_ok_def)
    show ?case
    proof (cases "fst kv < find_key")
      case True
      with Cons show ?thesis by (auto simp: bt_dict_ok_def)
    next
      case False
      then have "find_key \<notin> fst ` set kvs" using later by auto
      with False show ?thesis by (cases kv) (auto simp: map_of_eq_None_iff)
    qed
  qed simp
  with skip_to_at [OF assms(1,2)] that show thesis by auto
qed

text \<open>Reading an optional field is looking it up, and leaves the entries after its key.\<close>

lemma field_lookup:
  assumes "at c kvs" "find_key \<noteq> []" "bt_dict_ok kvs"
    and "\<And>v. map_of kvs find_key = Some v \<Longrightarrow> \<exists>x. convert v = Some x"
  shows "\<exists>c'. bind_result (skip_to find_key c) (\<lambda>(found, c).
             if found then bind_result (consume c) (\<lambda>(x, c). Inr (Some x, c)) else Inr (None, c))
           = Inr (Option.bind (map_of kvs find_key) convert, c')
         \<and> at c' (dropWhile (\<lambda>kv. fst kv \<le> find_key) kvs)"
proof -
  obtain c1 where c1: "skip_to find_key c = Inr (map_of kvs find_key \<noteq> None, c1)"
    "at c1 (dropWhile (\<lambda>kv. fst kv < find_key) kvs)"
    using skip_to_found [OF assms(1-3)] .
  note entries = dict_split [OF assms(3), of find_key]
  show ?thesis
  proof (cases "map_of kvs find_key")
    case None
    with c1 entries show ?thesis by simp
  next
    case (Some v)
    then obtain x where x: "convert v = Some x" using assms(4) by blast
    have "at c1 ((find_key, v) # dropWhile (\<lambda>kv. fst kv \<le> find_key) kvs)"
      using c1(2) entries Some by simp
    from consume_at [OF this x] c1(1) Some x show ?thesis by auto
  qed
qed

end

interpretation string_field: dict_cursor cursor_at skip_until dict_consume_string
  "\<lambda>v. case v of BtString s \<Rightarrow> Some s | BtStringView s \<Rightarrow> Some s | _ \<Rightarrow> None"
proof
  show "\<exists>c'. dict_consume_string c = Inr (x, c') \<and> cursor_at c' kvs"
    if "cursor_at c ((k, v) # kvs)" "(case v of BtString s \<Rightarrow> Some s | BtStringView s \<Rightarrow> Some s | _ \<Rightarrow> None) = Some x"
    for c k v kvs x
    using next_string_at [OF that(1), of x] that(2)
    by (auto simp: dict_consume_string_def value_of_next_def split: bt_value.splits)
qed (use skip_until_at in blast)

interpretation int_field: dict_cursor cursor_at skip_until "dict_consume_integer T"
  "\<lambda>v. case int_of_value v of Some i \<Rightarrow> if int_type_ok T \<and> in_range T i then Some i else None | None \<Rightarrow> None" for T
proof
  show "\<exists>c'. dict_consume_integer T c = Inr (x, c') \<and> cursor_at c' kvs"
    if "cursor_at c ((k, v) # kvs)"
      "(case int_of_value v of Some i \<Rightarrow> if int_type_ok T \<and> in_range T i then Some i else None | None \<Rightarrow> None) = Some x"
    for c k v kvs x
    using next_integer_at [OF that(1), of x T] that(2)
    by (auto simp: dict_consume_integer_def value_of_next_def split: option.splits if_splits)
qed (use skip_until_at in blast)

interpretation list_field: dict_cursor cursor_at skip_until dict_consume_list_data
  "\<lambda>v. case v of BtList vs \<Rightarrow> Some (bt_serialize_list bt_serialize_value vs) | _ \<Rightarrow> None"
proof
  show "\<exists>c'. dict_consume_list_data c = Inr (x, c') \<and> cursor_at c' kvs"
    if "cursor_at c ((k, v) # kvs)"
      "(case v of BtList vs \<Rightarrow> Some (bt_serialize_list bt_serialize_value vs) | _ \<Rightarrow> None) = Some x"
    for c k v kvs x
    using that next_list_data_at
    by (fastforce simp: dict_consume_list_data_def value_of_next_def split: bt_value.splits)
qed (use skip_until_at in blast)

end
