(* ===== verification/Bt_Format.thy ===== *)
theory Bt_Format
  imports Bt_Cursor
begin

text \<open>
  The properties of the bt encoding as a whole: round trips for the generic value and for
  native types, injectivity of the encoding, ranges of decoded integers, termination of the
  readers, agreement of skipping with reading, and the places where the code departs from
  what its comments say.
\<close>

section \<open>Shared facts\<close>

lemma bt_dict_ok_map: "bt_dict_ok (map (\<lambda>kv. (fst kv, f (snd kv))) d) = bt_dict_ok d"
  by (simp add: bt_dict_ok_def comp_def)

lemma uint_sint_nonneg: "0 \<le> sint w \<Longrightarrow> uint (w :: 64 word) = sint w"
proof -
  assume "0 \<le> sint w"
  moreover have "sint w < 2 ^ 64" using sint_less [of w] by simp
  ultimately have "uint (word_of_int (sint w) :: 64 word) = sint w"
    by (simp only: uint_word_of_int) (simp add: take_bit_int_eq_self)
  then show ?thesis by simp
qed

lemma bt_value_ok_canon: "bt_value_ok v \<Longrightarrow> bt_value_ok (canon v)"
  by (induction v rule: canon.induct) (auto simp: list_all_iff bt_dict_ok_map)

lemma bt_serialize_canon: "bt_value_ok v \<Longrightarrow> bt_serialize_value (canon v) = bt_serialize_value v"
proof (induction v rule: canon.induct)
  case (2 w)
  then show ?case by (simp add: uint_sint_nonneg)
next
  case (3 vs)
  then show ?case by (auto simp: bt_serialize_list_def list_all_iff intro!: arg_cong [of _ _ concat])
next
  case (4 d)
  then show ?case
    by (auto simp: bt_serialize_dict_def sort_dict_ok bt_dict_ok_map bt_serialize_entry_def list_all_iff intro!: arg_cong [of _ _ concat])
qed simp_all

lemma bt_get_serialize: "bt_value_ok v \<Longrightarrow> bt_get (bt_serialize_value v) = Inr (canon v)"
  using generic.round [OF bt_value_ok_fits, of v "[]"] by (simp add: bt_get_def)

lemma bt_deserialize_integer_magnitude:
  "bt_deserialize_integer s = Inr ((m, True), r) \<Longrightarrow> unat m \<le> 2 ^ 63"
proof -
  assume "bt_deserialize_integer s = Inr ((m, True), r)"
  then have "\<not> (push_bit 63 1 :: 64 word) < m"
    by (auto simp: bt_deserialize_integer_def result_simps Let_def split: if_splits)
  then show ?thesis by (simp add: word_less_nat_alt)
qed

lemma bt_deserialize_int_range:
  assumes "int_type_ok T" "bt_deserialize_int T s = Inr (i, r)"
  shows "in_range T i"
proof -
  obtain m negative where int: "bt_deserialize_integer s = Inr ((m, negative), r)"
    using assms(2) by (auto simp: bt_deserialize_int_def result_simps Let_def split: if_splits)
  have m: "0 \<le> uint m" by simp
  have lt: "unat m < 2 ^ 64" by (rule order_less_le_trans [OF unsigned_less]) simp
  show ?thesis
  proof (cases negative)
    case True
    with int have le: "unat m \<le> 2 ^ 63" using bt_deserialize_integer_magnitude [of s m r] by simp
    with assms(2) int True have "it_signed T" "i = - uint m" "T = int64 \<or> smin T \<le> i"
      by (auto simp: bt_deserialize_int_def sint_neg_int64 Let_def split: if_splits)
    moreover have "smin int64 = - (2 ^ 63)" by (simp add: smin_def int64_def)
    moreover have "int (unat m) \<le> int (2 ^ 63)" using le by (simp only: of_nat_le_iff)
    moreover have "- uint m \<le> int (umax T)" by (rule order_trans [of _ 0]) simp_all
    ultimately show ?thesis by (auto simp: in_range_def)
  next
    case False
    with assms(2) int have i: "i = uint m" and "T = uint64 \<or> unat m \<le> umax T"
      by (auto simp: bt_deserialize_int_def Let_def split: if_splits)
    moreover have "unat m \<le> umax uint64" using lt by (simp add: umax_def uint64_def)
    ultimately have "int (unat m) \<le> int (umax T)" by (auto simp only: of_nat_le_iff)
    moreover have "smin T \<le> 0" by (simp add: smin_def)
    moreover have "smin T \<le> uint m" using calculation(2) m by (rule order_trans)
    ultimately show ?thesis using i by (auto simp: in_range_def)
  qed
qed

lemma sint_umax:
  assumes "T \<noteq> int64" "int_type_ok T" "T \<noteq> uint64"
  shows "sint (word_of_nat (umax T) :: 64 word) = int (umax T)"
proof -
  have "umax T < 2 ^ 63"
  proof (cases "it_signed T")
    case True
    with int_type_limits(3) [OF assms(2)] show ?thesis by simp
  next
    case False
    with assms have "it_bits T \<le> 63" by (cases T) (auto simp: int_type_defs int_type_ok_def)
    then have "(2::nat) ^ it_bits T \<le> 2 ^ 63" by (intro power_increasing) simp_all
    with False show ?thesis by (simp add: umax_def less_eq_Suc_le)
  qed
  then have "int (umax T) < int (2 ^ 63)" by (simp only: of_nat_less_iff)
  then have "signed_take_bit 63 (int (umax T)) = int (umax T)"
    by (intro signed_take_bit_int_eq_self) simp_all
  moreover have "(word_of_nat (umax T) :: 64 word) = word_of_int (int (umax T))" by simp
  ultimately show ?thesis by (simp only: sint_sbintrunc') simp
qed

section \<open>Properties\<close>



text \<open>
  C22: two values have the same encoding exactly when they are the same up to the choice
  between a string and a view and between the two integer types of a non-negative number.
\<close>

theorem bt_encoding_injective:
  "bt_value_ok v \<Longrightarrow> bt_value_ok w \<Longrightarrow> bt_serialize_value v = bt_serialize_value w \<longleftrightarrow> canon v = canon w"
  using bt_get_serialize [of v] bt_get_serialize [of w] bt_serialize_canon [of v] bt_serialize_canon [of w]
  by fastforce

theorem bt_encoding_injective_witness:
  "bt_serialize_value (BtInt64 3) = bt_serialize_value (BtUint64 3) \<and>
   bt_serialize_value (BtString ''3'') \<noteq> bt_serialize_value (BtUint64 3)"
  using bt_encoding_injective [of "BtInt64 3" "BtUint64 3"] bt_encoding_injective [of "BtString ''3''" "BtUint64 3"]
  by (simp add: size_ok_def)


text \<open>
  C23: what \<open>bt_get\<close> returns is a proper value: the keys of every dict in it, at any depth,
  are distinct and in increasing order, whatever the order and repetitions in the input.
\<close>

theorem bt_get_well_formed: "bt_get s = Inr v \<Longrightarrow> length s < 2 ^ 64 \<Longrightarrow> bt_value_ok v"
  using bt_deserialize_value_ok by (fastforce simp: bt_get_def result_simps simp del: bt_deserialize_value.simps)

theorem bt_get_well_formed_witness: "bt_value_ok (BtDict [(''a'', BtString []), (''b'', BtString [])])"
proof (rule bt_get_well_formed [of "''d1:b0:1:a0:1:a1:xe''"])
  show "bt_get ''d1:b0:1:a0:1:a1:xe'' = Inr (BtDict [(''a'', BtString []), (''b'', BtString [])])" by code_simp
qed simp





text \<open>
  C27: \<open>extract_unsigned\<close> stops at the first byte that is not a digit; it returns the decimal
  number before it when that fits 64 bits, and in every case in which it returns, that
  number modulo \<open>2 ^ 64\<close>.
\<close>

theorem extract_unsigned_reads:
  assumes "s \<noteq> []" "is_digit (hd s)"
  shows "(digits_val (takeWhile is_digit s) < 2 ^ 64 \<longrightarrow>
            extract_unsigned s = Inr (word_of_nat (digits_val (takeWhile is_digit s)), dropWhile is_digit s)) \<and>
         (extract_unsigned s = Inr (w, r) \<longrightarrow>
            unat w = digits_val (takeWhile is_digit s) mod 2 ^ 64 \<and> r = dropWhile is_digit s)"
proof (intro conjI impI)
  show "extract_unsigned s = Inr (word_of_nat (digits_val (takeWhile is_digit s)), dropWhile is_digit s)"
    if "digits_val (takeWhile is_digit s) < 2 ^ 64"
    using extract_unsigned_loop_fits [of 0 s] that assms unfolding extract_unsigned_def unat_0 by simp
  show "r = dropWhile is_digit s" if "extract_unsigned s = Inr (w, r)"
    using extract_unsigned_value [OF that] by blast
  have "unat (word_of_nat n :: 64 word) = n mod 2 ^ 64" for n by (simp add: unat_of_nat)
  then show "unat w = digits_val (takeWhile is_digit s) mod 2 ^ 64" if "extract_unsigned s = Inr (w, r)"
    using extract_unsigned_value [OF that] by metis
qed

theorem extract_unsigned_reads_witness:
  "extract_unsigned ''42e'' = Inr (42, ''e'')"
proof -
  have "takeWhile is_digit ''42e'' = ''42''" "dropWhile is_digit ''42e'' = ''e''" "digits_val ''42'' = 42"
    by (simp_all add: is_digit_iff digit_val_def)
  then show ?thesis using extract_unsigned_reads [of "''42e''"] by (simp add: is_digit_iff)
qed


text \<open>
  \<open>get_int<uint64_t>\<close> throws on every value held as \<open>int64_t\<close>, the non-negative ones
  included, because the largest \<open>uint64_t\<close> becomes -1 when it is converted for the comparison.
\<close>

theorem get_int_uint64_of_int64: "get_int uint64 (BtInt64 w) = Inl Overflow_error"
proof -
  have "(word_of_nat (umax uint64) :: 64 word) = - 1" by (simp add: umax_def uint64_def)
  moreover have "uint64 \<noteq> int64" by (simp add: int_type_defs)
  ultimately show ?thesis by (auto simp: smin_def uint64_def)
qed




text \<open>
  C24: on a consumer that is not at the end of its data \<open>skip_value\<close> never reads past the
  end, at any nesting depth, and it returns or throws (the bounds of the model are enough).
\<close>

theorem skip_value_defined:
  "data \<noteq> [] \<Longrightarrow> list_skip_value data \<notin> {Inl Undefined_behaviour, Inl Out_of_fuel}"
  using skip_value_safe [of "length data + 1"] by (auto simp: skip_safe_def list_skip_value_def)

theorem skip_value_defined_witness: "list_skip_value ''lli1e'' \<notin> {Inl Undefined_behaviour, Inl Out_of_fuel}"
  by (rule skip_value_defined) simp

text \<open>
  C10: \<open>skip_until\<close> implements the cursor: on a consumer that stands before the entries
  \<open>kvs\<close> it drops exactly the leading entries whose key is smaller than the one asked for, and
  returns whether the first one left has that key.
\<close>

theorem skip_until_refines:
  assumes "cursor_at c kvs" "find_key \<noteq> []"
  defines "kvs' \<equiv> dropWhile (\<lambda>kv. fst kv < find_key) kvs"
  shows "\<exists>c'. skip_until find_key c = Inr (kvs' \<noteq> [] \<and> fst (hd kvs') = find_key, c') \<and> cursor_at c' kvs'"
  unfolding kvs'_def by (rule skip_until_at [OF assms(1,2)])

theorem skip_until_refines_witness:
  "\<exists>c c'. bt_dict_consumer_of ''d1:ai1e1:ci2ee'' = Inr c \<and> skip_until ''b'' c = Inr (False, c')
      \<and> cursor_at c' [(''c'', BtUint64 2)]"
proof -
  let ?d = "[(''a'', BtUint64 1), (''c'', BtUint64 2)]"
  have "bt_serialize_dict bt_serialize_value ?d = ''d1:ai1e1:ci2ee''" by code_simp
  then obtain c where c: "bt_dict_consumer_of ''d1:ai1e1:ci2ee'' = Inr c" "cursor_at c ?d"
    using cursor_at_new [of ?d] by (auto simp: entry_ok_def size_ok_def bt_dict_ok_def)
  have "''a'' < ''b''" "\<not> ''c'' < ''b''" by (simp_all add: less_char_def)
  with skip_until_refines [OF c(2), of "''b''"] c(1) show ?thesis by auto
qed

text \<open>
  Reading a field of an encoded dict with \<open>skip_until\<close> and \<open>consume_string\<close> is looking it
  up in the dict, and leaves the consumer before the entries with larger keys.
\<close>

theorem dict_field_lookup:
  assumes "bt_value_ok (BtDict d)" "k \<noteq> []" "\<And>v. map_of d k = Some v \<Longrightarrow> \<exists>s. v = BtString s"
  shows "\<exists>c c'. bt_dict_consumer_of (bt_serialize_value (BtDict d)) = Inr c \<and>
           opt_field k dict_consume_string c
             = Inr (map_option (\<lambda>v. case v of BtString s \<Rightarrow> s | _ \<Rightarrow> []) (map_of d k), c') \<and>
           cursor_at c' (dropWhile (\<lambda>kv. fst kv \<le> k) d)"
proof -
  have d: "bt_dict_ok d" "list_all entry_ok d" using assms(1) by (simp_all add: entry_ok_def list_all_iff)
  then obtain c where c: "bt_dict_consumer_of (bt_serialize_value (BtDict d)) = Inr c" "cursor_at c d"
    using cursor_at_new by auto
  from string_field.field_lookup [OF c(2) assms(2) d(1)] assms(3) c(1) show ?thesis
    by (cases "map_of d k") (fastforce simp: opt_field_def)+
qed

theorem dict_field_lookup_witness:
  "\<exists>c c'. bt_dict_consumer_of (bt_serialize_value (BtDict [(''a'', BtString ''x''), (''b'', BtUint64 1)])) = Inr c \<and>
     opt_field ''a'' dict_consume_string c = Inr (Some ''x'', c') \<and> cursor_at c' [(''b'', BtUint64 1)]"
  using dict_field_lookup [of "[(''a'', BtString ''x''), (''b'', BtUint64 1)]" "''a''"]
  by (simp add: bt_dict_ok_def size_ok_def less_char_def)

text \<open>
  C30: \<open>get_tuple\<close> fails on every list when one of the elements of the tuple is itself a
  tuple: the test for a list is inverted, so a list is refused and anything else is not a
  list.
\<close>

theorem get_tuple_nested_fails: "ElTuple Us \<in> set Ts \<Longrightarrow> \<exists>e. get_tuple Ts vs = Inl e"
proof -
  have one: "\<exists>e. get_tuple_impl_one (ElTuple Us) v = Inl e" for v
    by (cases v) (simp_all add: holds_bt_list_def get_bt_list_def)
  have "ElTuple Us \<in> set Ts \<Longrightarrow> \<exists>e. get_tuple_elems Ts vs = Inl e" for Ts vs
  proof (induction Ts arbitrary: vs)
    case (Cons T Ts)
    show ?case
    proof (cases vs)
      case (Cons v vs')
      with Cons.prems Cons.IH [of vs'] one [of v] show ?thesis
        by (cases "get_tuple_impl_one T v") auto
    qed simp
  qed simp
  then show "ElTuple Us \<in> set Ts \<Longrightarrow> \<exists>e. get_tuple Ts vs = Inl e" by simp
qed

theorem get_tuple_nested_fails_witness:
  "\<exists>e. get_tuple [ElInt int32, ElTuple [ElString]] [BtUint64 1, BtList [BtString ''x'']] = Inl e"
  by (rule get_tuple_nested_fails [of "[ElString]"]) simp

text \<open>
  \<open>bt_deserialize_invalid_type\<close>, documented as thrown only when the input was not advanced
  and never for a nested value, is also what a list throws for an element of another type
  after it has consumed the opening \<open>l\<close> and the elements before.
\<close>

theorem invalid_type_from_nested:
  assumes "list_all (in_range int64) is" "size_ok s"
  shows "bt_deserialize_list (bt_deserialize_int int64)
           (''l'' @ concat (map bt_serialize_int is) @ bt_serialize_string s @ ''e'') = Inl Bt_deserialize_invalid_type"
proof -
  have str: "bt_deserialize_int int64 (bt_serialize_string s @ ''e'') = Inl Bt_deserialize_invalid_type"
  proof -
    have "3 \<le> length (bt_serialize_string s @ ''e'')" using string.length_ser [OF assms(2)] by simp
    with bt_serialize_string_hd [of s] show ?thesis
      by (auto simp: bt_deserialize_int_def bt_deserialize_integer_def)
  qed
  have "length is < k \<Longrightarrow> bt_deserialize_list_loop k (bt_deserialize_int int64)
      (concat (map bt_serialize_int is) @ bt_serialize_string s @ ''e'') = Inl Bt_deserialize_invalid_type" for k
    using assms(1)
  proof (induction "is" arbitrary: k)
    case Nil
    then obtain k' where "k = Suc k'" by (cases k) auto
    with str bt_serialize_string_hd [of s] show ?case by (simp add: list_loop_simps)
  next
    case (Cons i "is")
    then obtain k' where "k = Suc k'" "length is < k'" by (cases k) auto
    moreover have "int_type_ok int64" by (simp add: int_type_ok_def int64_def)
    moreover have "bt_serialize_int i \<noteq> []" "hd (bt_serialize_int i) = CHR ''i''" by (simp_all add: bt_serialize_int_def)
    ultimately show ?case using Cons by (simp add: list_loop_simps bt_deserialize_int_round hd_append)
  qed
  moreover have "length is \<le> length (concat (map bt_serialize_int is))"
    by (induction "is") (auto simp: bt_serialize_int_def)
  ultimately show ?thesis by (simp add: bt_deserialize_list_def bt_serialize_string_def)
qed

theorem invalid_type_from_nested_witness:
  "bt_deserialize_list (bt_deserialize_int int64) (''l'' @ concat (map bt_serialize_int [1]) @ bt_serialize_string ''x'' @ ''e'')
     = Inl Bt_deserialize_invalid_type"
  by (rule invalid_type_from_nested) (simp_all add: in_range_def smin_def umax_def int64_def size_ok_def)

text \<open>
  At the end of a dict \<open>skip_until\<close> reports that it found the empty key, although
  there is no entry left.
\<close>

theorem skip_until_empty_key_at_end:
  "dc_key c = None \<Longrightarrow> dc_data c = CHR ''e'' # rest \<Longrightarrow> skip_until [] c = Inr (True, c)"
  by (simp add: skip_until_def skip_until_loop.simps consume_key_def key_view_def)

theorem skip_until_empty_key_at_end_witness:
  "skip_until [] \<lparr>dc_data = ''e'', dc_key = None\<rparr> = Inr (True, \<lparr>dc_data = ''e'', dc_key = None\<rparr>)"
  by (rule skip_until_empty_key_at_end) simp_all

end
