(* ===== verification/Zap.thy ===== *)
theory Zap
  imports Startup Bt_Format
begin

text \<open>
  Authentication of incoming connections: the answer to a ZAP request, \<open>process_zap_requests\<close>
  of \<^verbatim>\<open>src/arqmamq/auth.cpp\<close>, and what the metadata in it becomes on the messages of
  the connection.
\<close>

section \<open>Answering a request\<close>

text \<open>
  The six frames of the answer to the frames of a request: version, request identifier, status
  code, status text, user identifier and metadata.
\<close>

definition zap_response :: "bytes list \<Rightarrow> net \<Rightarrow> bytes list" where
  "zap_response frames s =
     (let request_id = (if 2 \<le> length frames then frames ! 1 else []);
          answer = (\<lambda>status_code status_text user_id metadata.
            [''1.0'', request_id, status_code, status_text, user_id, metadata])
      in
      if length frames < 6 \<or> frames ! 0 \<noteq> ''1.0'' then
        answer ''500'' ''Internal error: invalid auth request'' [] []
      else
        let auth_domain = frames ! 2;
            bind_id = (case bt_deserialize_integral uint64 auth_domain of Inl _ \<Rightarrow> 2 ^ 64 - 1 | Inr i \<Rightarrow> nat i)
        in
        if length (bind_sockets s) \<le> bind_id then
          answer ''400'' (''Unknown authentication domain: '' @ auth_domain) [] []
        else
          let b = snd (bind_sockets s ! bind_id) in
          if (if bd_curve b then \<not> (length frames = 7 \<and> frames ! 5 = ''CURVE'')
              else \<not> (length frames = 6 \<and> frames ! 5 = ''NULL'')) then
            answer ''500'' ''Invalid authentication request mechanism'' [] []
          else if bd_curve b \<and> length (frames ! 6) \<noteq> 32 then
            answer ''500'' ''Invalid public key size for CURVE authentication'' [] []
          else
            let ip = frames ! 3;
                pubkey = (if bd_curve b then frames ! 6 else []);
                sn = (bd_curve b \<and> pubkey \<in> set (active_service_nodes s));
                auth = bd_allow b ip pubkey sn;
                user_id = (if bd_curve b then to_hex pubkey else [])
            in
            if auth \<le> AuthLevel_denied \<or> AuthLevel_admin < auth then
              answer ''400'' ''Access denied'' [] []
            else answer ''200'' [] user_id (zmtp_metadata ''X-AuthLevel'' (auth_to_string auth)))"

section \<open>Which requests are accepted\<close>

text \<open>
  What a request has to be for a listener to accept it: well-formed, for the domain of a
  listener, with the mechanism of that listener and a key of the right size where the
  listener wants one.
\<close>

definition zap_request_for :: "bytes list \<Rightarrow> net \<Rightarrow> nat \<Rightarrow> bool" where
  "zap_request_for frames s i \<longleftrightarrow> frames ! 0 = ''1.0'' \<and> bt_deserialize_integral uint64 (frames ! 2) = Inr (int i)
     \<and> i < length (bind_sockets s)
     \<and> (if bd_curve (snd (bind_sockets s ! i)) then length frames = 7 \<and> frames ! 5 = ''CURVE'' \<and> length (frames ! 6) = 32
        else length frames = 6 \<and> frames ! 5 = ''NULL'')"

text \<open>The key a request proves, and the level the listener's function gives it.\<close>

definition zap_key :: "bytes list \<Rightarrow> net \<Rightarrow> nat \<Rightarrow> bytes" where
  "zap_key frames s i = (if bd_curve (snd (bind_sockets s ! i)) then frames ! 6 else [])"

definition zap_level :: "bytes list \<Rightarrow> net \<Rightarrow> nat \<Rightarrow> AuthLevel" where
  "zap_level frames s i =
     bd_allow (snd (bind_sockets s ! i)) (frames ! 3) (zap_key frames s i)
       (bd_curve (snd (bind_sockets s ! i)) \<and> zap_key frames s i \<in> set (active_service_nodes s))"

definition level_ok :: "AuthLevel \<Rightarrow> bool" where
  "level_ok a \<longleftrightarrow> AuthLevel_denied < a \<and> a \<le> AuthLevel_admin"

lemma zap_accepted:
  assumes "zap_request_for frames s i" "level_ok (zap_level frames s i)"
  shows "zap_response frames s
    = [''1.0'', frames ! 1, ''200'', [], if bd_curve (snd (bind_sockets s ! i)) then to_hex (zap_key frames s i) else [],
       zmtp_metadata ''X-AuthLevel'' (auth_to_string (zap_level frames s i))]"
  using assms
  by (auto simp: zap_response_def zap_request_for_def zap_level_def zap_key_def level_ok_def Let_def not_le not_less
      split: if_splits)

lemma zap_status:
  assumes "zap_response frames s ! 2 = ''200''" "length (bind_sockets s) < 2 ^ 64"
  obtains i where "zap_request_for frames s i" "level_ok (zap_level frames s i)"
proof -
  define b where "b = (case bt_deserialize_integral uint64 (frames ! 2) of Inl _ \<Rightarrow> 2 ^ 64 - 1 | Inr i \<Rightarrow> nat i)"
  have "\<not> (length frames < 6 \<or> frames ! 0 \<noteq> ''1.0'')" "\<not> length (bind_sockets s) \<le> b"
    using assms(1) by (auto simp: zap_response_def Let_def b_def [symmetric] split: if_splits)
  then have wf: "6 \<le> length frames" "frames ! 0 = ''1.0''" "b < length (bind_sockets s)" by auto
  then have "b < 2 ^ 64 - 1" using assms(2) by simp
  then obtain i where i: "bt_deserialize_integral uint64 (frames ! 2) = Inr i" "b = nat i"
    by (auto simp: b_def split: sum.splits)
  moreover have "0 \<le> i"
    using i(1) bt_deserialize_int_range [of uint64 "frames ! 2" i]
    by (auto simp: bt_deserialize_integral_def result_simps in_range_def int_type_defs smin_def int_type_ok_def)
  ultimately have domain: "bt_deserialize_integral uint64 (frames ! 2) = Inr (int b)" by simp
  have "zap_request_for frames s b \<and> level_ok (zap_level frames s b)"
    using assms(1) wf domain
    by (auto simp: zap_response_def zap_request_for_def zap_level_def zap_key_def level_ok_def Let_def not_le not_less
        split: if_splits)
  with that show thesis by blast
qed

section \<open>From the answer to the messages\<close>

text \<open>
  Reading one property of ZMTP metadata, as RFC 23 defines it: a byte with the size of the key,
  the key, four bytes with the size of the value, most significant first, and the value.
\<close>

definition zmtp_property :: "bytes \<Rightarrow> bytes \<times> bytes" where
  "zmtp_property m =
     (let n = byte_val (hd m);
          rest = drop n (tl m);
          size = foldl (\<lambda>k c. 256 * k + byte_val c) 0 (take 4 rest)
      in (take n (tl m), take size (drop 4 rest)))"

lemma big_endian: "k < 2 ^ 32 \<Longrightarrow>
  foldl (\<lambda>k c. 256 * k + byte_val c) 0 (map (\<lambda>i. char_of (drop_bit i k AND 255)) [24, 16, 8, 0]) = (k :: nat)"
proof -
  have and_255: "x AND 255 = x mod 256" for x :: nat
  proof -
    have "x AND 255 = take_bit 8 x" by (simp add: take_bit_eq_mask mask_eq_exp_minus_1)
    then show ?thesis by (simp add: take_bit_eq_mod)
  qed
  assume "k < 2 ^ 32"
  then have "k div 16777216 mod 256 = k div 16777216" by simp
  moreover have "256 * (k div 16777216) + k div 65536 mod 256 = k div 65536"
    "256 * (k div 65536) + k div 256 mod 256 = k div 256" "256 * (k div 256) + k mod 256 = k"
    using mult_div_mod_eq [of 256 "k div 65536"] mult_div_mod_eq [of 256 "k div 256"] by (simp_all add: div_mult2_eq [symmetric])
  ultimately show ?thesis by (simp add: and_255 drop_bit_eq_div)
qed

lemma zmtp_property_metadata:
  assumes "length key < 256" "length val < 2 ^ 32"
  shows "zmtp_property (zmtp_metadata key val) = (key, val)"
proof -
  let ?size = "map (\<lambda>i. char_of (drop_bit i (length val) AND 255)) [24, 16, 8, 0]"
  have m: "zmtp_metadata key val = char_of (length key) # key @ ?size @ val" by (simp add: zmtp_metadata_def)
  have "length ?size = 4" by simp
  then have "take 4 (?size @ val) = ?size" "drop 4 (?size @ val) = val" by (simp_all del: list.map)
  then show ?thesis
    using assms(1) big_endian [OF assms(2)] unfolding zmtp_property_def m by (simp add: Let_def del: list.map)
qed

text \<open>
  What zmq documents of an accepted handshake: every message of the connection answers
  \<open>User-Id\<close> with the user identifier of the ZAP answer and the metadata's key with its value.
\<close>

definition zmq_attaches :: "bytes list \<Rightarrow> message_t \<Rightarrow> bool" where
  "zmq_attaches response msg \<longleftrightarrow> m_gets msg ''User-Id'' = Some (response ! 4)
     \<and> m_gets msg (fst (zmtp_property (response ! 5))) = Some (snd (zmtp_property (response ! 5)))"

lemma length_auth_to_string: "length (auth_to_string a) < 2 ^ 32"
  by (simp add: auth_to_string_def)

lemma accepted_identity:
  assumes "zap_request_for frames s i" "level_ok (zap_level frames s i)" "zmq_attaches (zap_response frames s) msg"
  shows "extract_metadata msg = (zap_key frames s i, zap_level frames s i)"
proof -
  let ?r = "zap_response frames s" and ?a = "zap_level frames s i" and ?curve = "bd_curve (snd (bind_sockets s ! i))"
  note r = zap_accepted [OF assms(1,2)]
  have "zmtp_property (?r ! 5) = (''X-AuthLevel'', auth_to_string ?a)"
    using zmtp_property_metadata [OF _ length_auth_to_string, of "''X-AuthLevel''" ?a] by (simp add: r)
  with assms(3) have gets: "m_gets msg ''User-Id'' = Some (if ?curve then to_hex (zap_key frames s i) else [])"
      "m_gets msg ''X-AuthLevel'' = Some (auth_to_string ?a)" by (simp_all add: zmq_attaches_def r)
  have "auth_from_string (auth_to_string ?a) = ?a"
    using assms(2) by (intro auth_from_to_string) (auto simp: level_ok_def)
  moreover have "length (zap_key frames s i) = 32" if ?curve using assms(1) that by (auto simp: zap_request_for_def zap_key_def)
  moreover have "zap_key frames s i = []" if "\<not> ?curve" using that by (simp add: zap_key_def)
  ultimately show ?thesis unfolding extract_metadata_def gets by (cases ?curve) simp_all
qed

text \<open>
  C14: a connection is accepted exactly when its ZAP request is well-formed, names a listener by
  its domain, uses the mechanism of that listener with a key of 32 bytes where it wants one,
  and the function the user gave for the listener returns a level from \<open>none\<close> to \<open>admin\<close> for
  the address, the key and whether the key is an active service node's. The messages of an
  accepted connection then carry exactly that key and that level.
\<close>

theorem zap_decision:
  assumes "length (bind_sockets s) < 2 ^ 64"
  shows "(zap_response frames s ! 2 = ''200'' \<longleftrightarrow> (\<exists>i. zap_request_for frames s i \<and> level_ok (zap_level frames s i)))
    \<and> (\<forall>i msg. zap_request_for frames s i \<and> level_ok (zap_level frames s i) \<and> zmq_attaches (zap_response frames s) msg
         \<longrightarrow> extract_metadata msg = (zap_key frames s i, zap_level frames s i))"
proof -
  have "zap_response frames s ! 2 = ''200''" if "zap_request_for frames s i" "level_ok (zap_level frames s i)" for i
    using zap_accepted [OF that] by simp
  then show ?thesis using zap_status [OF _ assms] accepted_identity by metis
qed

definition sample_listener :: net where
  "sample_listener = (init_net 4 (replicate 32 CHR ''k'') (replicate 32 CHR ''s'') False (\<lambda>_. []))
     \<lparr>bind_sockets := [(''tcp://*:1234'', new_bind_data True (\<lambda>_ pk sn. if sn then AuthLevel_admin else AuthLevel_basic))],
      active_service_nodes := [replicate 32 CHR ''n'']\<rparr>"

definition sample_message :: message_t where
  "sample_message = \<lparr>m_data = ''x'', m_gets = map_of [(''User-Id'', to_hex (replicate 32 CHR ''n'')), (''X-AuthLevel'', ''admin'')]\<rparr>"

abbreviation sample_frames :: "bytes list" where
  "sample_frames \<equiv> [''1.0'', ''7'', ''i0e'', ''10.0.0.1'', [], ''CURVE'', replicate 32 CHR ''n'']"

lemma sample_zap:
  "zap_request_for sample_frames sample_listener 0"
  "zap_level sample_frames sample_listener 0 = AuthLevel_admin"
  "zap_key sample_frames sample_listener 0 = replicate 32 CHR ''n''"
  "level_ok AuthLevel_admin"
  "zmq_attaches (zap_response sample_frames sample_listener) sample_message"
proof -
  have domain: "bt_deserialize_integral uint64 ''i0e'' = Inr (int 0)" by code_simp
  show req: "zap_request_for sample_frames sample_listener 0"
    using domain by (simp add: zap_request_for_def sample_listener_def new_bind_data_def)
  show level: "zap_level sample_frames sample_listener 0 = AuthLevel_admin" "zap_key sample_frames sample_listener 0 = replicate 32 CHR ''n''"
    by (simp_all add: zap_level_def zap_key_def sample_listener_def new_bind_data_def)
  show ok: "level_ok AuthLevel_admin" by (simp add: level_ok_def auth_order auth_levels)
  have "zmtp_property (zmtp_metadata ''X-AuthLevel'' ''admin'') = (''X-AuthLevel'', ''admin'')"
    by (rule zmtp_property_metadata) simp_all
  moreover have "auth_to_string AuthLevel_admin = ''admin''" by (simp add: auth_to_string_def auth_levels)
  ultimately show "zmq_attaches (zap_response sample_frames sample_listener) sample_message"
    using zap_accepted [OF req] level ok
    by (simp add: zmq_attaches_def sample_message_def sample_listener_def new_bind_data_def)
qed

theorem zap_decision_witness:
  "extract_metadata sample_message = (replicate 32 CHR ''n'', AuthLevel_admin)"
proof -
  have "length (bind_sockets sample_listener) < 2 ^ 64" by (simp add: sample_listener_def)
  from zap_decision [OF this, of sample_frames] sample_zap show ?thesis by metis
qed

end
