(* ===== verification/Dispatch.thy ===== *)
theory Dispatch
  imports Service_Nodes Zap
begin

text \<open>
  Messages that arrive on the connections: the check of a command's authorisation
  (\<^verbatim>\<open>src/arqmamq/auth.cpp\<close>), the messages the proxy handles itself
  (\<^verbatim>\<open>proxy.cpp\<close>) and the dispatch of commands to workers (\<^verbatim>\<open>worker.cpp\<close>).
  The answers of zmq to the sends of a handler are an argument, as a function of the number of
  the part.
\<close>

type_synonym zmq_send = "nat \<Rightarrow> bytes \<Rightarrow> bool \<Rightarrow> send_result"
type_synonym cat_call = "(bytes \<times> category \<times> callback \<times> bool) option"

section \<open>Authorisation\<close>

text \<open>The reply to a command that is refused, or nothing for one that is allowed.\<close>

definition auth_refusal :: "net \<Rightarrow> peer_info \<Rightarrow> cat_call \<Rightarrow> bytes list \<Rightarrow> bytes option" where
  "auth_refusal s peer cat_call data =
     (case cat_call of
        None \<Rightarrow> Some ''UNKNOWNCOMMAND''
      | Some (_, c, _, is_request) \<Rightarrow>
          if p_auth_level peer < acc_auth (cat_access c) then Some ''FORBIDDEN''
          else if acc_local_sn (cat_access c) \<and> \<not> local_service_node s then Some ''NOT_A_SERVICE_NODE''
          else if acc_remote_sn (cat_access c) \<and> \<not> p_service_node peer then Some ''FORBIDDEN_SN''
          else if is_request \<and> data = [] then Some ''NO_REPLY_TAG''
          else None)"

definition refusal_parts :: "bool \<Rightarrow> peer_info \<Rightarrow> bytes \<Rightarrow> bytes \<Rightarrow> cat_call \<Rightarrow> bytes list \<Rightarrow> bytes list" where
  "refusal_parts outgoing peer reply cmd cat_call data =
     (if \<not> outgoing then [p_route peer] else []) @ [reply]
     @ (case cat_call of
          Some (_, _, _, is_request) \<Rightarrow> if is_request \<and> data \<noteq> [] then [''REPLY'', hd data] else [cmd]
        | None \<Rightarrow> [cmd])"

text \<open>\<open>proxy_check_auth\<close>: an error of the send is logged and ignored.\<close>

definition proxy_check_auth ::
  "zmq_send \<Rightarrow> nat \<Rightarrow> bool \<Rightarrow> peer_info \<Rightarrow> bytes \<Rightarrow> cat_call \<Rightarrow> bytes list \<Rightarrow> net \<Rightarrow> (bool \<times> net) result" where
  "proxy_check_auth zmq_send conn_index outgoing peer cmd cat_call data s =
     (case auth_refusal s peer cat_call data of
        None \<Rightarrow> Inr (True, s)
      | Some reply \<Rightarrow>
          if conn_index < length (connections s) then
            let msgs = refusal_parts outgoing peer reply cmd cat_call data
            in Inr (False, if send_message_parts zmq_send msgs = Sent then record_sent conn_index msgs s else s)
          else Inl Undefined_behaviour)"

section \<open>Built-in messages\<close>

definition is_error_response :: "bytes \<Rightarrow> bool" where
  "is_error_response cmd \<longleftrightarrow> cmd = ''FORBIDDEN'' \<or> cmd = ''FORBIDDEN_SN'' \<or> cmd = ''NOT_A_SERVICE_NODE''
     \<or> cmd = ''UNKNOWNCOMMAND'' \<or> cmd = ''NO_REPLY_TAG''"

text \<open>Completing a pending request: its callback is scheduled and it is no longer pending.\<close>

definition finish_request :: "bytes \<Rightarrow> bool \<Rightarrow> bytes list \<Rightarrow> net \<Rightarrow> net" where
  "finish_request reply_tag success data s =
     (case map_of (pending_requests s) reply_tag of
        None \<Rightarrow> s
      | Some (_, callback) \<Rightarrow>
          (upd_sched (proxy_schedule_reply_job (ReplyFn callback success data)) s)
            \<lparr>pending_requests := erase_first (\<lambda>r. fst r = reply_tag) (pending_requests s)\<rparr>)"

definition handle_hello :: "nat \<Rightarrow> net \<Rightarrow> net result" where
  "handle_hello conn_index s =
     (case find (\<lambda>pc. pn_index pc = conn_index) (pending_connects s) of
        None \<Rightarrow> Inr s
      | Some pc \<Rightarrow>
          (case find_key (conn_of_id (pn_id pc)) (peers s) of
             None \<Rightarrow> Inr s
           | Some _ \<Rightarrow>
               if conn_index < length (conn_index_to_id s) then
                 Inr ((upd_sched (proxy_schedule_reply_job (ConnectFn (pn_success pc) (conn_index_to_id s ! conn_index))) s)
                   \<lparr>pending_connects := erase_first (\<lambda>pc. pn_index pc = conn_index) (pending_connects s)\<rparr>)
               else Inl Undefined_behaviour))"

text \<open>
  \<open>proxy_handle_builtin\<close>: whether the message was one of those the proxy handles itself, and
  the new state.
\<close>

definition proxy_handle_builtin :: "zmq_send \<Rightarrow> nat \<Rightarrow> bytes list \<Rightarrow> net \<Rightarrow> (bool \<times> net) result" where
  "proxy_handle_builtin zmq_send conn_index parts s =
     (if conn_index < length (connections s) then
        let incoming = (so_type (connections s ! conn_index) = ROUTER);
            inc = (if incoming then 1 else 0)
        in
        if length parts < 1 + inc then Inr (True, s)
        else
          let cmd = parts ! inc in
          if cmd = ''REPLY'' then
            if length parts \<le> 1 + inc then Inr (True, s)
            else Inr (True, finish_request (parts ! (1 + inc)) True (drop (2 + inc) parts) s)
          else if cmd = ''HI'' then
            if \<not> incoming then Inr (True, s)
            else
              let msgs = routed_message_parts (parts ! 0) ''HELLO'' []
              in Inr (True, if send_message_parts zmq_send msgs = Sent then record_sent conn_index msgs s else s)
          else if cmd = ''HELLO'' then
            if incoming then Inr (True, s)
            else bind_result (handle_hello conn_index s) (\<lambda>s. Inr (True, s))
          else if cmd = ''BYE'' then
            if \<not> incoming then bind_result (proxy_close_connection conn_index 0 s) (\<lambda>s. Inr (True, s))
            else Inr (True, s)
          else if is_error_response cmd then
            if length parts = 1 + inc \<and> cmd = ''UNKNOWNCOMMAND'' then Inr (True, s)
            else if length parts = 3 + inc \<and> parts ! (1 + inc) = ''REPLY'' then
              Inr (True, finish_request (parts ! (2 + inc)) False [cmd] s)
            else Inr (True, s)
          else Inr (False, s)
      else Inl Undefined_behaviour)"

section \<open>Commands\<close>

text \<open>
  The peer a command comes from. For a connection the proxy opened it is looked up; for an
  incoming one it is made from the metadata of the message, and stored when it is a service
  node's. The second component is the route that is left in the temporary peer, from which
  it has been moved away when that peer was stored (a moved-from string is empty). There is no
  peer when the lookup fails.
\<close>

definition incoming_peer :: "nat \<Rightarrow> message_t list \<Rightarrow> net \<Rightarrow> peer_info" where
  "incoming_peer conn_index parts s =
     (let (pubkey, auth_level) = extract_metadata (last parts)
      in (new_peer_info conn_index)\<lparr>p_route := m_data (parts ! 0), p_pubkey := pubkey, p_auth_level := auth_level,
           p_service_node := (length pubkey = 32 \<and> pubkey \<in> set (active_service_nodes s))\<rparr>)"

definition command_peer :: "nat \<Rightarrow> message_t list \<Rightarrow> net \<Rightarrow> ((peer_info \<times> bytes) option \<times> net) result" where
  "command_peer conn_index parts s =
     (if so_type (connections s ! conn_index) = DEALER then
        if conn_index < length (conn_index_to_id s) then
          (case find_key (conn_index_to_id s ! conn_index) (peers s) of
             None \<Rightarrow> Inr (None, s)
           | Some p \<Rightarrow> Inr (Some (p, []), s))
        else Inl Undefined_behaviour
      else
        let tmp = incoming_peer conn_index parts s in
        if p_service_node tmp then
          bind_result (conn_of_pubkey (p_pubkey tmp)) (\<lambda>c.
            let this = (\<lambda>kp. cid_eq (fst kp) c \<and> p_conn_index (snd kp) = p_conn_index tmp \<and> p_route (snd kp) = p_route tmp)
            in case find this (peers s) of
                 Some kp \<Rightarrow>
                   let p = (snd kp)\<lparr>p_auth_level := p_auth_level tmp\<rparr>
                   in Inr (Some (p, p_route tmp), s\<lparr>peers := change_first this (\<lambda>kp. (fst kp, p)) (peers s)\<rparr>)
               | None \<Rightarrow> Inr (Some (tmp, []), s\<lparr>peers := peers s @ [(c, tmp)]\<rparr>))
        else Inr (Some (tmp, p_route tmp), s))"

definition proxy_to_worker :: "int \<Rightarrow> zmq_send \<Rightarrow> nat \<Rightarrow> message_t list \<Rightarrow> net \<Rightarrow> net result" where
  "proxy_to_worker now zmq_send conn_index parts s =
     (if conn_index < length (connections s) then
        let outgoing = (so_type (connections s ! conn_index) = DEALER);
            command_part_index = (if outgoing then 0 else 1)
        in
        if command_part_index < length parts then
          bind_result (command_peer conn_index parts s) (\<lambda>(found, s).
            case found of
              None \<Rightarrow> Inr s
            | Some (peer, route) \<Rightarrow>
                let cmd = parts ! command_part_index;
                    data_parts = map m_data (drop (Suc command_part_index) parts);
                    (command, cat_call) = get_command (n_sched s) (m_data cmd)
                in
                bind_result (proxy_check_auth zmq_send conn_index outgoing peer (m_data cmd) cat_call data_parts s) (\<lambda>(allowed, s).
                  if \<not> allowed then Inr s
                  else if \<not> conn_index < length (conn_index_to_id s) then Inl Undefined_behaviour
                  else case cat_call of
                    None \<Rightarrow> Inl Undefined_behaviour
                  | Some (cat, c, callback) \<Rightarrow>
                      let access = \<lparr>acc_auth = p_auth_level peer, acc_remote_sn = p_service_node peer,
                                    acc_local_sn = local_service_node s\<rparr>;
                          conn = \<lparr>cid_id = (if p_service_node peer then SN_ID else cid_id (conn_index_to_id s ! conn_index)),
                                  cid_pk = p_pubkey peer, cid_route = route\<rparr>;
                          pending = \<lparr>pc_cat = cat, pc_command = command, pc_data_parts = data_parts,
                                     pc_callback = PendingCommand callback, pc_conn = conn, pc_access = access,
                                     pc_remote = peer_address cmd\<rparr>
                      in
                      if \<not> slot_free cat (n_sched s) then Inr (upd_sched (run_or_queue pending) s)
                      else if snd callback \<and> data_parts = [] then Inr s
                      else
                        let s = upd_sched (run_or_queue pending) s
                        in Inr (if outgoing then
                                  s\<lparr>peers := change_first (\<lambda>kp. cid_eq (fst kp) (conn_index_to_id s ! conn_index))
                                     (\<lambda>kp. (fst kp, p_activity now (snd kp))) (peers s)\<rparr>
                                else s)))
        else Inl Undefined_behaviour
      else Inl Undefined_behaviour)"

section \<open>What becomes of a command\<close>

definition permitted :: "net \<Rightarrow> AuthLevel \<Rightarrow> bool \<Rightarrow> category \<Rightarrow> bool" where
  "permitted s level sn c \<longleftrightarrow> acc_auth (cat_access c) \<le> level
     \<and> (acc_local_sn (cat_access c) \<longrightarrow> local_service_node s) \<and> (acc_remote_sn (cat_access c) \<longrightarrow> sn)"

lemma auth_refusal_None:
  "auth_refusal s peer (Some (n, c, cb, req)) data = None
     \<longleftrightarrow> permitted s (p_auth_level peer) (p_service_node peer) c \<and> \<not> (req \<and> data = [])"
  by (auto simp: auth_refusal_def permitted_def not_less)

lemma auth_refusal_unknown [simp]: "auth_refusal s peer None data = Some ''UNKNOWNCOMMAND''"
  by (simp add: auth_refusal_def)

lemma auth_refusal_cong:
  "local_service_node s' = local_service_node s \<Longrightarrow> auth_refusal s' peer cat_call data = auth_refusal s peer cat_call data"
  by (simp add: auth_refusal_def split: option.split)

text \<open>Peers stored under the key of a service node are that node's.\<close>

definition sn_peers_ok :: "net \<Rightarrow> bool" where
  "sn_peers_ok s \<longleftrightarrow> (\<forall>kp\<in>set (peers s). cid_sn (fst kp) \<longrightarrow> p_service_node (snd kp) \<and> p_pubkey (snd kp) = cid_pk (fst kp))"

definition sn_key :: "net \<Rightarrow> bytes \<Rightarrow> bool" where
  "sn_key s key \<longleftrightarrow> length key = 32 \<and> key \<in> set (active_service_nodes s)"

text \<open>The peer of an incoming command has the key and the level of the message.\<close>

lemma command_peer_incoming:
  assumes "sn_peers_ok s" "so_type (connections s ! i) = ROUTER" "extract_metadata (last parts) = (key, level)"
  obtains p route s' where "command_peer i parts s = Inr (Some (p, route), s')"
    "p_auth_level p = level" "p_service_node p = sn_key s key" "p_pubkey p = key"
    "s' = s\<lparr>peers := peers s'\<rparr>" "route = m_data (parts ! 0) \<or> sn_key s key \<and> route = []"
proof -
  let ?tmp = "incoming_peer i parts s"
  have tmp: "p_auth_level ?tmp = level" "p_pubkey ?tmp = key" "p_service_node ?tmp = sn_key s key" "p_route ?tmp = m_data (parts ! 0)"
    using assms(3) by (simp_all add: incoming_peer_def sn_key_def)
  show thesis
  proof (cases "sn_key s key")
    case False
    then show thesis using that [of ?tmp "p_route ?tmp" s] tmp assms(2) by (simp add: command_peer_def Let_def)
  next
    case True
    then have cid: "conn_of_pubkey key = Inr (sn_cid key)" by (simp add: conn_of_pubkey_def sn_key_def)
    let ?mine = "\<lambda>kp. cid_eq (fst kp) (sn_cid key) \<and> p_conn_index (snd kp) = p_conn_index ?tmp \<and> p_route (snd kp) = p_route ?tmp"
    show thesis
    proof (cases "find ?mine (peers s)")
      case None
      then show thesis
        using that [of ?tmp "[]" "s\<lparr>peers := peers s @ [(sn_cid key, ?tmp)]\<rparr>"] tmp True assms(2) cid
        by (simp add: command_peer_def Let_def)
    next
      case (Some kp)
      let ?p = "(snd kp)\<lparr>p_auth_level := level\<rparr>"
      have kp: "kp \<in> set (peers s)" "?mine kp" using find_split [OF Some] by (metis in_set_conv_decomp)+
      then have "p_service_node ?p" "p_pubkey ?p = key"
        using assms(1) by (auto simp: sn_peers_ok_def cid_eq_sn)
      with Some show thesis
        using that [of ?p "p_route ?tmp" "s\<lparr>peers := change_first ?mine (\<lambda>kp. (fst kp, ?p)) (peers s)\<rparr>"] tmp True assms(2) cid
        by (simp add: command_peer_def Let_def)
    qed
  qed
qed

lemma check_auth_refused:
  assumes "auth_refusal s peer cat_call data = Some reply" "i < length (connections s)"
  obtains s' where "proxy_check_auth zmq_send i outgoing peer cmd cat_call data s = Inr (False, s')" "n_sched s' = n_sched s"
  using assms by (simp add: proxy_check_auth_def Let_def record_sent_def split: if_splits)

definition incoming_pending ::
  "net \<Rightarrow> AuthLevel \<Rightarrow> ConnectionID \<Rightarrow> message_t list \<Rightarrow> bytes \<Rightarrow> bytes \<Rightarrow> callback \<times> bool \<Rightarrow> pending_command" where
  "incoming_pending s level conn parts command cat cb =
     \<lparr>pc_cat = cat, pc_command = command, pc_data_parts = map m_data (drop 2 parts), pc_callback = PendingCommand cb,
      pc_conn = conn, pc_access = \<lparr>acc_auth = level, acc_remote_sn = sn_key s (cid_pk conn), acc_local_sn = local_service_node s\<rparr>,
      pc_remote = peer_address (parts ! 1)\<rparr>"

text \<open>The connection a worker is told: that of the listener, with the route to the sender, or that of a service node.\<close>

definition incoming_conn :: "net \<Rightarrow> nat \<Rightarrow> bytes \<Rightarrow> bytes \<Rightarrow> ConnectionID \<Rightarrow> bool" where
  "incoming_conn s i key route conn \<longleftrightarrow> cid_pk conn = key
     \<and> cid_id conn = (if sn_key s key then SN_ID else cid_id (conn_index_to_id s ! i))
     \<and> (cid_route conn = route \<or> sn_key s key \<and> cid_route conn = [])"

lemma incoming_dispatch:
  assumes "index_inv s" "sn_peers_ok s" "names ROUTER (connections s) i" "2 \<le> length parts"
    and "extract_metadata (last parts) = (key, level)"
  shows "\<exists>s'. proxy_to_worker now zmq_send i parts s = Inr s'
    \<and> (case get_command (n_sched s) (m_data (parts ! 1)) of
         (command, None) \<Rightarrow> n_sched s' = n_sched s
       | (command, Some (cat, c, cb, is_request)) \<Rightarrow>
           if permitted s level (sn_key s key) c \<and> \<not> (is_request \<and> length parts = 2)
           then \<exists>conn. incoming_conn s i key (m_data (parts ! 0)) conn
             \<and> n_sched s' = run_or_queue (incoming_pending s level conn parts command cat (cb, is_request)) (n_sched s)
           else n_sched s' = n_sched s)"
proof -
  have i: "i < length (connections s)" "so_type (connections s ! i) = ROUTER" "i < length (conn_index_to_id s)"
    using assms(1,3) by (simp_all add: names_def index_inv_def)
  obtain p route t where t: "command_peer i parts s = Inr (Some (p, route), t)" "p_auth_level p = level"
      "p_service_node p = sn_key s key" "p_pubkey p = key" "t = s\<lparr>peers := peers t\<rparr>"
      "route = m_data (parts ! 0) \<or> sn_key s key \<and> route = []"
    by (rule command_peer_incoming [OF assms(2) i(2) assms(5)])
  have same: "n_sched t = n_sched s" "local_service_node t = local_service_node s" "connections t = connections s"
      "conn_index_to_id t = conn_index_to_id s" by (subst t(5), simp)+
  obtain command cat_call where g: "get_command (n_sched s) (m_data (parts ! 1)) = (command, cat_call)" by fastforce
  let ?data = "map m_data (drop 2 parts)"
  have data: "?data = [] \<longleftrightarrow> length parts = 2" using assms(4) by simp
  show ?thesis
  proof (cases "auth_refusal s p cat_call ?data")
    case (Some reply)
    then have "auth_refusal t p cat_call ?data = Some reply" using auth_refusal_cong [OF same(2)] by simp
    then obtain s' where s': "proxy_check_auth zmq_send i False p (m_data (parts ! 1)) cat_call ?data t = Inr (False, s')"
        "n_sched s' = n_sched t"
      using check_auth_refused i(1) same(3) by metis
    have "proxy_to_worker now zmq_send i parts s = Inr s'"
      using i assms(4) t(1) s'(1) same(1) g by (simp add: proxy_to_worker_def Let_def numeral_2_eq_2)
    moreover have "\<not> (permitted s level (sn_key s key) c \<and> \<not> (req \<and> length parts = 2))" if "cat_call = Some (cat, c, cb, req)" for cat c cb req
      using Some auth_refusal_None [of s p cat c cb req ?data] t(2,3) unfolding that data by auto
    then have "case cat_call of None \<Rightarrow> True
        | Some (cat, c, cb, req) \<Rightarrow> \<not> (permitted s level (sn_key s key) c \<and> \<not> (req \<and> length parts = 2))"
      by (auto split: option.split)
    ultimately show ?thesis using s'(2) same(1) unfolding g by (cases cat_call) (auto split: prod.splits)
  next
    case None
    then obtain cat c cb req where call: "cat_call = Some (cat, c, cb, req)" by (cases cat_call) auto
    then have ok: "permitted s level (sn_key s key) c" "\<not> (req \<and> ?data = [])"
      using None auth_refusal_None [of s p cat c cb req ?data] t(2,3) by auto
    have "auth_refusal t p cat_call ?data = None" using None auth_refusal_cong [OF same(2)] by simp
    then have pass: "proxy_check_auth zmq_send i False p (m_data (parts ! 1)) cat_call ?data t = Inr (True, t)"
      by (simp add: proxy_check_auth_def)
    let ?conn = "\<lparr>cid_id = (if sn_key s key then SN_ID else cid_id (conn_index_to_id s ! i)), cid_pk = key, cid_route = route\<rparr>"
    let ?pending = "incoming_pending s level ?conn parts command cat (cb, req)"
    have "proxy_to_worker now zmq_send i parts s = Inr (t\<lparr>n_sched := run_or_queue ?pending (n_sched s)\<rparr>)"
      using i assms(4) t(1-4) pass same g ok(2) call
      by (auto simp: proxy_to_worker_def Let_def incoming_pending_def numeral_2_eq_2)
    moreover have "incoming_conn s i key (m_data (parts ! 0)) ?conn" using t(6) by (auto simp: incoming_conn_def)
    ultimately show ?thesis using ok data g call by (auto intro!: exI [of _ ?conn])
  qed
qed

text \<open>
  C5: the outcome of every message of an accepted incoming connection, from the ZAP handshake to
  the worker. Let \<open>frames\<close> be the request the listener \<open>l\<close> accepted when the state was \<open>z\<close>.
  A command is started or queued exactly when it exists, the level the listener gave reaches
  the level of its category, and the key proved in the handshake is that of an active service
  node, and this is one, where the category demands it; a request needs a reply tag as well.
  The worker is then told that key and that level, and a connection that leads back to the
  sender. Any other message leaves all queues and workers as they were.
\<close>

theorem incoming_command_outcome:
  assumes "index_inv s" "sn_peers_ok s" "names ROUTER (connections s) i" "2 \<le> length parts"
    and "zap_request_for frames z l" "level_ok (zap_level frames z l)" "zmq_attaches (zap_response frames z) (last parts)"
  shows "\<exists>s'. proxy_to_worker now zmq_send i parts s = Inr s'
    \<and> (case get_command (n_sched s) (m_data (parts ! 1)) of
         (command, None) \<Rightarrow> n_sched s' = n_sched s
       | (command, Some (cat, c, cb, is_request)) \<Rightarrow>
           if permitted s (zap_level frames z l) (sn_key s (zap_key frames z l)) c \<and> \<not> (is_request \<and> length parts = 2)
           then \<exists>conn. incoming_conn s i (zap_key frames z l) (m_data (parts ! 0)) conn
             \<and> n_sched s' = run_or_queue (incoming_pending s (zap_level frames z l) conn parts command cat (cb, is_request)) (n_sched s)
           else n_sched s' = n_sched s)"
  by (rule incoming_dispatch [OF assms(1-4) accepted_identity [OF assms(5-7)]])

text \<open>A listener with one accepted connection, whose commands need the level \<open>basic\<close>.\<close>

definition sample_incoming :: net where
  "sample_incoming = sample_listener
     \<lparr>n_sched := (init_sched 4)\<lparr>categories := [(''a'', (new_category (default_Access\<lparr>acc_auth := AuthLevel_basic\<rparr>) 1 0)
          \<lparr>cat_commands := [(''c'', (7, True))]\<rparr>)]\<rparr>,
      connections := [new_socket ROUTER], conn_index_to_id := [conn_of_id 1], incoming_conn_index := [(conn_of_id 1, 0)],
      pending_requests := [(''tag1'', 5000, 3), (''tag2'', 6000, 4)]\<rparr>"

lemma sample_incoming_ok: "index_inv sample_incoming" "sn_peers_ok sample_incoming" "names ROUTER (connections sample_incoming) 0"
  by (simp_all add: index_inv_def sn_peers_ok_def names_def sample_incoming_def sample_listener_def init_net_def
      out_indices_def new_socket_def new_bind_data_def)

theorem incoming_command_outcome_witness:
  "\<exists>s' conn. proxy_to_worker 0 (\<lambda>_ _ _. Sent) 0 [sample_message\<lparr>m_data := ''r''\<rparr>, sample_message\<lparr>m_data := ''a.c''\<rparr>, sample_message] sample_incoming = Inr s'
     \<and> incoming_conn sample_incoming 0 (replicate 32 CHR ''n'') ''r'' conn
     \<and> n_sched s' = run_or_queue (incoming_pending sample_incoming AuthLevel_admin conn
         [sample_message\<lparr>m_data := ''r''\<rparr>, sample_message\<lparr>m_data := ''a.c''\<rparr>, sample_message] ''a.c'' ''a'' (7, True)) (n_sched sample_incoming)"
proof -
  let ?parts = "[sample_message\<lparr>m_data := ''r''\<rparr>, sample_message\<lparr>m_data := ''a.c''\<rparr>, sample_message]"
  have "get_command (n_sched sample_incoming) ''a.c''
      = (''a.c'', Some (''a'', the (map_of (categories (n_sched sample_incoming)) ''a''), 7, True))" by code_simp
  moreover have "permitted sample_incoming AuthLevel_admin sn (the (map_of (categories (n_sched sample_incoming)) ''a''))" for sn
    by (simp add: permitted_def sample_incoming_def new_category_def default_Access_def auth_order auth_levels)
  ultimately show ?thesis
    using incoming_command_outcome [OF sample_incoming_ok, of ?parts, OF _ sample_zap(1)] sample_zap(2-5) by simp
qed

section \<open>Replies\<close>

lemma erase_first_key: "distinct (map fst rs) \<Longrightarrow> erase_first (\<lambda>r. fst r = t) rs = filter (\<lambda>r. fst r \<noteq> t) rs"
proof (induction rs)
  case (Cons r rs)
  have "filter (\<lambda>r. fst r \<noteq> t) rs = rs" if "fst r = t"
    by (rule filter_True) (use Cons.prems that in \<open>auto simp: image_iff\<close>)
  with Cons show ?case by auto
qed simp

text \<open>
  C18: a \<open>REPLY\<close> whose tag belongs to a pending request schedules the callback of that request,
  with the data parts of the message, and ends that request and no other. The same message
  arriving again then changes nothing, whatever else it carries.
\<close>

theorem reply_once:
  assumes "requests_ok s" "i < length (connections s)" "inc = (if so_type (connections s ! i) = ROUTER then 1 else 0)"
    and "Suc inc < length parts" "parts ! inc = ''REPLY''" "map_of (pending_requests s) (parts ! Suc inc) = Some (expiry, callback)"
  shows "\<exists>s'. proxy_handle_builtin zmq_send i parts s = Inr (True, s')
    \<and> n_sched s' = proxy_schedule_reply_job (ReplyFn callback True (drop (Suc (Suc inc)) parts)) (n_sched s)
    \<and> pending_requests s' = filter (\<lambda>r. fst r \<noteq> parts ! Suc inc) (pending_requests s)
    \<and> proxy_handle_builtin zmq_send' i parts s' = Inr (True, s')"
proof -
  let ?tag = "parts ! Suc inc"
  let ?s' = "(upd_sched (proxy_schedule_reply_job (ReplyFn callback True (drop (Suc (Suc inc)) parts))) s)
    \<lparr>pending_requests := filter (\<lambda>r. fst r \<noteq> ?tag) (pending_requests s)\<rparr>"
  have builtin: "proxy_handle_builtin zmq_send i parts t = Inr (True, finish_request ?tag True (drop (Suc (Suc inc)) parts) t)"
    if "connections t = connections s" for t zmq_send
    using assms(2-5) that by (simp add: proxy_handle_builtin_def Let_def split: if_splits)
  have "finish_request ?tag True (drop (Suc (Suc inc)) parts) s = ?s'"
    using assms(1,6) by (simp add: finish_request_def erase_first_key requests_ok_def)
  moreover have "map_of (pending_requests ?s') ?tag = None" by (simp add: map_of_eq_None_iff image_iff)
  then have "finish_request ?tag True (drop (Suc (Suc inc)) parts) ?s' = ?s'" by (simp add: finish_request_def)
  ultimately show ?thesis using builtin [of s zmq_send] builtin [of ?s' zmq_send'] by auto
qed

theorem reply_once_witness:
  "\<exists>s'. proxy_handle_builtin (\<lambda>_ _ _. Sent) 0 [''r'', ''REPLY'', ''tag2'', ''x'', ''y''] sample_incoming = Inr (True, s')
     \<and> n_sched s' = proxy_schedule_reply_job (ReplyFn 4 True [''x'', ''y'']) (n_sched sample_incoming)
     \<and> pending_requests s' = [(''tag1'', 5000, 3)]"
proof -
  have "requests_ok sample_incoming" "0 < length (connections sample_incoming)" "so_type (connections sample_incoming ! 0) = ROUTER"
    "pending_requests sample_incoming = [(''tag1'', 5000, 3), (''tag2'', 6000, 4)]"
    by (simp_all add: requests_ok_def sample_incoming_def new_socket_def)
  with reply_once [of sample_incoming 0 1 "[''r'', ''REPLY'', ''tag2'', ''x'', ''y'']" 6000 4] show ?thesis by auto
qed

end
