(* ===== verification/Control.thy ===== *)
theory Control
  imports Client Dispatch Bt_Cursor
begin

text \<open>
  The proxy's side of the control messages: reading their arguments, sending messages and
  replies (\<^verbatim>\<open>src/arqmamq/proxy.cpp\<close>), and the rest of the requests
  (\<^verbatim>\<open>connections.cpp\<close>, \<^verbatim>\<open>jobs.cpp\<close>, \<^verbatim>\<open>auth.cpp\<close>). Assertions
  are taken to be compiled out.
\<close>

section \<open>Reading arguments\<close>

text \<open>A count of milliseconds, converted from \<^verbatim>\<open>uint64_t\<close> to the signed representation.\<close>

definition to_ms :: "int \<Rightarrow> int" where
  "to_ms i = sint (word_of_int i :: 64 word)"

text \<open>An optional field that holds the address of an object, which is moved out and freed.\<close>

definition object_field ::
  "bytes \<Rightarrow> (obj \<Rightarrow> nat option) \<Rightarrow> bt_dict_consumer \<Rightarrow> net \<Rightarrow> (nat option \<times> bt_dict_consumer \<times> net) result" where
  "object_field k as c s =
     bind_result (opt_field k (dict_consume_integer uint64) c) (\<lambda>(p, c).
       case p of
         None \<Rightarrow> Inr (None, c, s)
       | Some p \<Rightarrow> bind_result (deserialize_object as (nat p) s) (\<lambda>(x, s). Inr (Some x, c, s)))"

fun as_reply :: "obj \<Rightarrow> nat option" where
  "as_reply (ReplyCallbackObj f) = Some f" | "as_reply _ = None"

fun as_success :: "obj \<Rightarrow> nat option" where
  "as_success (ConnectSuccessObj f) = Some f" | "as_success _ = None"

fun as_failure :: "obj \<Rightarrow> nat option" where
  "as_failure (ConnectFailureObj f) = Some f" | "as_failure _ = None"

fun as_queue_failure :: "obj \<Rightarrow> nat option" where
  "as_queue_failure (QueueFailureObj f) = Some f" | "as_queue_failure _ = None"

fun as_queue_full :: "obj \<Rightarrow> nat option" where
  "as_queue_full (QueueFullObj f) = Some f" | "as_queue_full _ = None"

fun as_function :: "obj \<Rightarrow> job_fn option" where
  "as_function (FunctionObj f) = Some f" | "as_function _ = None"

fun as_task :: "obj \<Rightarrow> injected_task option" where
  "as_task (TaskObj t) = Some t" | "as_task _ = None"

fun as_pubkeys :: "obj \<Rightarrow> bytes list option" where
  "as_pubkeys (PubkeySetObj pks) = Some pks" | "as_pubkeys _ = None"

definition or_else :: "'a option \<Rightarrow> 'a \<Rightarrow> 'a" where
  "or_else x d = (case x of None \<Rightarrow> d | Some y \<Rightarrow> y)"

text \<open>The connection a message or a reply is for.\<close>

definition read_conn :: "bt_dict_consumer \<Rightarrow> (ConnectionID \<times> bt_dict_consumer) result" where
  "read_conn c =
     bind_result (opt_field ''conn_id'' (dict_consume_integer int64) c) (\<lambda>(i, c).
       if i = Some (-1) then Inl Runtime_error
       else bind_result (skip_until ''conn_pubkey'' c) (\<lambda>(found, c).
         if found then
           if i \<noteq> None then Inl Runtime_error
           else bind_result (dict_consume_string c) (\<lambda>(pk, c). Inr (\<lparr>cid_id = SN_ID, cid_pk = pk, cid_route = []\<rparr>, c))
         else case i of None \<Rightarrow> Inl Runtime_error | Some i \<Rightarrow> Inr (conn_of_id i, c)))"

text \<open>
  The arguments of \<open>SEND\<close>. A request has a tag, a callback and a timeout; \<open>sa_send\<close> is what
  the consumer of the list of parts has left, and a callback of number 0 is an empty function.
\<close>

record send_args =
  sa_conn :: ConnectionID
  sa_hint :: bytes
  sa_incoming :: bool
  sa_keep_alive :: int
  sa_optional :: bool
  sa_outgoing :: bool
  sa_request :: "(bytes \<times> nat \<times> int) option"
  sa_send :: bytes
  sa_fail :: nat
  sa_full :: nat

definition read_bool :: "bytes \<Rightarrow> bt_dict_consumer \<Rightarrow> (bool \<times> bt_dict_consumer) result" where
  "read_bool k c = bind_result (opt_field k (dict_consume_integer bool_type) c) (\<lambda>(b, c). Inr (b = Some 1, c))"

definition read_string :: "bytes \<Rightarrow> bt_dict_consumer \<Rightarrow> (bytes \<times> bt_dict_consumer) result" where
  "read_string k c = bind_result (opt_field k dict_consume_string c) (\<lambda>(x, c). Inr (or_else x [], c))"

definition read_ms :: "bytes \<Rightarrow> int \<Rightarrow> bt_dict_consumer \<Rightarrow> (int \<times> bt_dict_consumer) result" where
  "read_ms k d c =
     bind_result (opt_field k (dict_consume_integer uint64) c) (\<lambda>(t, c). Inr (or_else (map_option to_ms t) d, c))"

definition read_request :: "bt_dict_consumer \<Rightarrow> net \<Rightarrow> ((bytes \<times> nat \<times> int) option \<times> bt_dict_consumer \<times> net) result" where
  "read_request c s =
     bind_result (read_bool ''request'' c) (\<lambda>(request, c).
       if \<not> request then Inr (None, c, s)
       else bind_result (object_field ''request_callback'' as_reply c s) (\<lambda>(callback, c, s).
         case callback of
           None \<Rightarrow> Inl Runtime_error
         | Some callback \<Rightarrow>
             bind_result (opt_field ''request_tag'' dict_consume_string c) (\<lambda>(tag, c).
               case tag of
                 None \<Rightarrow> Inl Runtime_error
               | Some tag \<Rightarrow>
                   bind_result (read_ms ''request_timeout'' DEFAULT_REQUEST_TIMEOUT c) (\<lambda>(timeout, c).
                     Inr (Some (tag, callback, timeout), c, s)))))"

definition read_send_list :: "bt_dict_consumer \<Rightarrow> (bytes \<times> bt_dict_consumer) result" where
  "read_send_list c =
     bind_result (skip_until ''send'' c) (\<lambda>(found, c).
       if \<not> found then Inl Runtime_error else dict_consume_list_consumer c)"

definition read_send :: "bt_dict_consumer \<Rightarrow> net \<Rightarrow> (send_args \<times> net) result" where
  "read_send c s =
     bind_result (read_conn c) (\<lambda>(conn, c).
     bind_result (opt_field ''conn_route'' dict_consume_string c) (\<lambda>(route, c).
     bind_result (read_string ''hint'' c) (\<lambda>(hint, c).
     bind_result (read_bool ''incoming'' c) (\<lambda>(incoming, c).
     bind_result (read_ms ''keep_alive'' DEFAULT_SEND_KEEP_ALIVE c) (\<lambda>(keep_alive, c).
     bind_result (read_bool ''optional'' c) (\<lambda>(optional, c).
     bind_result (read_bool ''outgoing'' c) (\<lambda>(outgoing, c).
     bind_result (read_request c s) (\<lambda>(request, c, s).
     bind_result (read_send_list c) (\<lambda>(send, c).
     bind_result (object_field ''send_fail'' as_queue_failure c s) (\<lambda>(nosend, c, s).
     bind_result (object_field ''send_full_q'' as_queue_full c s) (\<lambda>(noqueue, c, s).
       Inr (\<lparr>sa_conn = (case route of None \<Rightarrow> conn | Some r \<Rightarrow> conn\<lparr>cid_route := r\<rparr>), sa_hint = hint,
             sa_incoming = incoming, sa_keep_alive = keep_alive, sa_optional = optional, sa_outgoing = outgoing,
             sa_request = request, sa_send = send, sa_fail = or_else nosend 0, sa_full = or_else noqueue 0\<rparr>, s))))))))))))"

section \<open>Sending\<close>

fun send_parts_loop :: "nat \<Rightarrow> bytes \<Rightarrow> bytes list result" where
  "send_parts_loop k l =
     bind_result (list_is_finished l) (\<lambda>fin.
       if fin then Inr []
       else case k of
         0 \<Rightarrow> Inl Out_of_fuel
       | Suc k \<Rightarrow> bind_result (list_consume_string_view l) (\<lambda>(part, l).
           bind_result (send_parts_loop k l) (\<lambda>parts. Inr (part # parts))))"

definition build_send_parts :: "bytes \<Rightarrow> bytes \<Rightarrow> bytes list result" where
  "build_send_parts l route =
     bind_result (send_parts_loop (length l) l) (\<lambda>parts.
       Inr ((if route \<noteq> [] then [route] else []) @ parts))"

text \<open>The socket to send to and the route to prefix, if there is one.\<close>

definition send_target ::
  "int \<Rightarrow> (bytes \<Rightarrow> bytes option) \<Rightarrow> send_args \<Rightarrow> ConnectionID \<Rightarrow> net \<Rightarrow> ((nat \<times> bytes) option \<times> net) result" where
  "send_target now zmq_connect a conn s =
     (if cid_sn conn then
        bind_result (proxy_connect_sn now zmq_connect (cid_pk conn) (sa_hint a) (sa_optional a) (sa_incoming a)
            (sa_outgoing a) (EPHEMERAL_ROUTING_ID (n_settings s)) (sa_keep_alive a) s) (\<lambda>((sock, route), s).
          Inr (map_option (\<lambda>i. (i, route)) sock, s))
      else
        let sock = (if cid_route conn \<noteq> [] then find_key (unrouted conn) (incoming_conn_index s)
                    else map_option p_conn_index (find_key conn (peers s)))
        in case sock of
             None \<Rightarrow> Inr (None, s)
           | Some i \<Rightarrow> if i < length (connections s) then Inr (Some (i, cid_route conn), s) else Inl Undefined_behaviour)"

text \<open>
  Forgetting an incoming peer of a service node that is gone. The loop over the peers of the
  node compares the route of the first one and does not advance: it ends only if that is the
  one. The first argument bounds its rounds.
\<close>

fun erase_route :: "nat \<Rightarrow> ConnectionID \<Rightarrow> net \<Rightarrow> (bool \<times> net) result" where
  "erase_route 0 conn s = Inl Out_of_fuel"
| "erase_route (Suc n) conn s =
     (case find (\<lambda>kp. cid_eq (fst kp) conn) (peers s) of
        None \<Rightarrow> Inr (False, s)
      | Some kp \<Rightarrow>
          if p_route (snd kp) = cid_route conn
          then Inr (True, s\<lparr>peers := erase_first (\<lambda>kp. cid_eq (fst kp) conn) (peers s)\<rparr>)
          else erase_route n conn s)"

definition forget_unreachable :: "nat \<Rightarrow> ConnectionID \<Rightarrow> net \<Rightarrow> (bool \<times> net) result" where
  "forget_unreachable n conn s =
     (if find_key conn (peers s) = None then Inr (False, s)
      else if \<not> cid_sn conn then Inr (False, s\<lparr>peers := erase_first (\<lambda>kp. cid_eq (fst kp) conn) (peers s)\<rparr>)
      else erase_route n conn s)"

text \<open>
  The loop of \<open>proxy_send\<close>: whether the message was sent, and the number of the error if one
  was thrown. \<open>zmq_send k\<close> are the answers of zmq in the round \<open>k\<close>.
\<close>

fun send_loop ::
  "nat \<Rightarrow> int \<Rightarrow> (bytes \<Rightarrow> bytes option) \<Rightarrow> (nat \<Rightarrow> zmq_send) \<Rightarrow> send_args \<Rightarrow> ConnectionID \<Rightarrow> net
     \<Rightarrow> ((bool \<times> int option) \<times> net) result" where
  "send_loop 0 now zmq_connect zmq_send a conn s = Inl Out_of_fuel"
| "send_loop (Suc n) now zmq_connect zmq_send a conn s =
     bind_result (send_target now zmq_connect a conn s) (\<lambda>(target, s).
       case target of
         None \<Rightarrow> Inr ((False, None), s)
       | Some (i, route) \<Rightarrow>
           let conn = conn\<lparr>cid_route := route\<rparr> in
           bind_result (build_send_parts (sa_send a) route) (\<lambda>parts.
             case send_message_parts (zmq_send 0) parts of
               Sent \<Rightarrow> Inr ((True, None), record_sent i parts s)
             | Would_block \<Rightarrow> Inr ((False, None), s)
             | Send_error e \<Rightarrow>
                 bind_result (if e = EHOSTUNREACH \<and> route \<noteq> [] then forget_unreachable n conn s else Inr (False, s)) (\<lambda>(retry, s).
                   if retry then send_loop n now zmq_connect (\<lambda>k. zmq_send (Suc k)) a conn s
                   else Inr ((False, Some e), s))))"

definition insert_request :: "bytes \<Rightarrow> int \<Rightarrow> nat \<Rightarrow> net \<Rightarrow> net" where
  "insert_request tag expiry callback s =
     (if tag \<in> set (map fst (pending_requests s)) then s
      else s\<lparr>pending_requests := pending_requests s @ [(tag, expiry, callback)]\<rparr>)"

text \<open>
  What follows the loop. A failure callback is called with the error when one was thrown and
  then cleared, so that the callback for a full queue is called after it if there is one.
\<close>

definition after_send :: "int \<Rightarrow> send_args \<Rightarrow> bool \<times> int option \<Rightarrow> net \<Rightarrow> net result" where
  "after_send now a = (\<lambda>(sent, failed) s.
     bind_result
       (case failed of
          Some e \<Rightarrow>
            if sa_fail a \<noteq> 0 then bind_result (proxy_job (SendFailFn (sa_fail a) (Some e)) s) (\<lambda>s. Inr (0, s))
            else Inr (0, s)
        | None \<Rightarrow> Inr (sa_fail a, s))
       (\<lambda>(nosend, s).
     bind_result
       (case sa_request a of
          None \<Rightarrow> Inr s
        | Some (tag, callback, timeout) \<Rightarrow>
            if sent then Inr (insert_request tag (now + timeout) callback s)
            else proxy_job (ReplyFn callback False [''TIMEOUT'']) s)
       (\<lambda>s.
          if sent then Inr s
          else if nosend \<noteq> 0 then proxy_job (SendFailFn nosend None) s
          else if sa_full a \<noteq> 0 then proxy_job (SendFullFn (sa_full a)) s
          else Inr s)))"

definition proxy_send ::
  "nat \<Rightarrow> int \<Rightarrow> (bytes \<Rightarrow> bytes option) \<Rightarrow> (nat \<Rightarrow> zmq_send) \<Rightarrow> bytes \<Rightarrow> net \<Rightarrow> net result" where
  "proxy_send fuel now zmq_connect zmq_send data s =
     bind_result (bt_dict_consumer_of data) (\<lambda>c.
     bind_result (read_send c s) (\<lambda>(a, s).
     bind_result (send_loop fuel now zmq_connect zmq_send a (sa_conn a) s) (\<lambda>(r, s). after_send now a r s)))"

section \<open>Replying\<close>

text \<open>Erasing the \<open>k\<close>-th of the elements that satisfy a test.\<close>

fun erase_match :: "('a \<Rightarrow> bool) \<Rightarrow> nat \<Rightarrow> 'a list \<Rightarrow> 'a list" where
  "erase_match P k [] = []"
| "erase_match P k (x # xs) =
     (if P x then case k of 0 \<Rightarrow> xs | Suc k \<Rightarrow> x # erase_match P k xs else x # erase_match P k xs)"

text \<open>The loop over the peers; \<open>n\<close> of them are left, and the iterator has passed \<open>k\<close>.\<close>

fun reply_loop :: "nat \<Rightarrow> nat \<Rightarrow> (nat \<Rightarrow> zmq_send) \<Rightarrow> bytes \<Rightarrow> ConnectionID \<Rightarrow> net \<Rightarrow> net result" where
  "reply_loop 0 k zmq_send l conn s = Inr s"
| "reply_loop (Suc n) k zmq_send l conn s =
     (let kp = equal_range conn (peers s) ! k in
      if peer_index kp < length (connections s) then
        bind_result (build_send_parts l (p_route (snd kp))) (\<lambda>parts.
          case send_message_parts (zmq_send 0) parts of
            Sent \<Rightarrow> Inr (record_sent (peer_index kp) parts s)
          | Would_block \<Rightarrow> Inr s
          | Send_error e \<Rightarrow>
              if e = EHOSTUNREACH then
                reply_loop n k (\<lambda>k. zmq_send (Suc k)) l conn
                  (s\<lparr>peers := erase_match (\<lambda>kp. cid_eq (fst kp) conn) k (peers s)\<rparr>)
              else reply_loop n (Suc k) (\<lambda>k. zmq_send (Suc k)) l conn s)
      else Inl Undefined_behaviour)"

definition proxy_reply :: "(nat \<Rightarrow> zmq_send) \<Rightarrow> bytes \<Rightarrow> net \<Rightarrow> net result" where
  "proxy_reply zmq_send data s =
     bind_result (bt_dict_consumer_of data) (\<lambda>c.
     bind_result (read_conn c) (\<lambda>(conn, c).
     bind_result (read_send_list c) (\<lambda>(send, c).
       reply_loop (length (equal_range conn (peers s))) 0 zmq_send send conn s)))"

section \<open>The other requests\<close>

text \<open>
  \<open>CONNECT_SN\<close>. The keep-alive time has no initial value: to use it when the message does not
  hold one is undefined.
\<close>

definition proxy_connect_sn_data :: "int \<Rightarrow> (bytes \<Rightarrow> bytes option) \<Rightarrow> bytes \<Rightarrow> net \<Rightarrow> net result" where
  "proxy_connect_sn_data now zmq_connect data s =
     bind_result (bt_dict_consumer_of data) (\<lambda>c.
     bind_result (opt_field ''ephemeral_rid'' (dict_consume_integer bool_type) c) (\<lambda>(rid, c).
     bind_result (read_string ''hint'' c) (\<lambda>(hint, c).
     bind_result (read_bool ''incoming'' c) (\<lambda>(incoming_only, c).
     bind_result (opt_field ''keep_alive'' (dict_consume_integer uint64) c) (\<lambda>(keep_alive, c).
     bind_result (read_bool ''optional'' c) (\<lambda>(optional, c).
     bind_result (read_bool ''outgoing_only'' c) (\<lambda>(outgoing_only, c).
     bind_result (opt_field ''pubkey'' dict_consume_string c) (\<lambda>(remote_pk, c).
       case remote_pk of
         None \<Rightarrow> Inl Runtime_error
       | Some pk \<Rightarrow>
           (case keep_alive of
              None \<Rightarrow> Inl Undefined_behaviour
            | Some t \<Rightarrow>
                bind_result (proxy_connect_sn now zmq_connect pk hint optional incoming_only outgoing_only
                    (case rid of None \<Rightarrow> EPHEMERAL_ROUTING_ID (n_settings s) | Some b \<Rightarrow> b = 1) (to_ms t) s) (\<lambda>(_, s).
                  Inr s))))))))))"

definition read_remote :: "bt_dict_consumer \<Rightarrow> net \<Rightarrow> (remote_args \<times> net) result" where
  "read_remote c s =
     bind_result (opt_field ''auth_level'' (dict_consume_integer int32) c) (\<lambda>(auth, c).
     bind_result (opt_field ''conn_id'' (dict_consume_integer int64) c) (\<lambda>(conn_id, c).
     bind_result (object_field ''connect'' as_success c s) (\<lambda>(on_connect, c, s).
     bind_result (opt_field ''ephemeral_rid'' (dict_consume_integer bool_type) c) (\<lambda>(rid, c).
     bind_result (object_field ''failure'' as_failure c s) (\<lambda>(on_failure, c, s).
     bind_result (read_string ''pubkey'' c) (\<lambda>(pubkey, c).
     bind_result (read_string ''remote'' c) (\<lambda>(remote, c).
     bind_result (read_ms ''timeout'' REMOTE_CONNECT_TIMEOUT c) (\<lambda>(timeout, c).
       Inr (\<lparr>ra_auth_level = (case auth of None \<Rightarrow> AuthLevel_none | Some a \<Rightarrow> AuthLevel a), ra_conn_id = or_else conn_id (-1),
             ra_on_connect = or_else on_connect 0, ra_on_failure = or_else on_failure 0, ra_remote = remote,
             ra_pubkey = pubkey, ra_timeout = timeout,
             ra_ephemeral_rid = (case rid of None \<Rightarrow> EPHEMERAL_ROUTING_ID (n_settings s) | Some b \<Rightarrow> b = 1)\<rparr>, s)))))))))"

definition proxy_connect_remote :: "int \<Rightarrow> (bytes \<Rightarrow> bytes option) \<Rightarrow> zmq_send \<Rightarrow> bytes \<Rightarrow> net \<Rightarrow> net result" where
  "proxy_connect_remote now zmq_connect zmq_send data s =
     bind_result (bt_dict_consumer_of data) (\<lambda>c.
     bind_result (read_remote c s) (\<lambda>(a, s).
       if ra_conn_id a = -1 \<or> ra_remote a = [] then Inl Runtime_error
       else open_remote now zmq_connect zmq_send a s))"

definition proxy_disconnect :: "bytes \<Rightarrow> net \<Rightarrow> net result" where
  "proxy_disconnect data s =
     bind_result (bt_dict_consumer_of data) (\<lambda>c.
     bind_result (opt_field ''conn_id'' (dict_consume_integer int64) c) (\<lambda>(i, c).
     bind_result (opt_field ''linger_ms'' (dict_consume_integer int64) c) (\<lambda>(linger, c).
     bind_result (read_string ''pubkey'' c) (\<lambda>(pk, c).
       let conn = \<lparr>cid_id = or_else i (-1), cid_pk = pk, cid_route = []\<rparr> in
       if cid_sn conn \<and> length pk \<noteq> 32 then Inl Runtime_error
       else disconnect_from conn (or_else linger 1000) s))))"

definition proxy_timer :: "int \<Rightarrow> bytes \<Rightarrow> net \<Rightarrow> net result" where
  "proxy_timer zmq_timer_id data s =
     bind_result (bt_list_consumer data) (\<lambda>l.
     bind_result (list_consume_integer int32 l) (\<lambda>(tid, l).
     bind_result (list_consume_integer uint64 l) (\<lambda>(p, l).
     bind_result (list_consume_integer uint64 l) (\<lambda>(interval, l).
     bind_result (list_consume_integer bool_type l) (\<lambda>(squelch, l).
     bind_result (list_consume_integer int32 l) (\<lambda>(thread, l).
     bind_result (list_is_finished l) (\<lambda>fin.
     bind_result (deserialize_object as_function (nat p) s) (\<lambda>(f, s).
       if \<not> fin then Inl Runtime_error
       else bind_result (proxy_timer_add zmq_timer_id tid f (to_ms interval) (squelch = 1) thread (n_sched s)) (\<lambda>sc.
              Inr (s\<lparr>n_sched := sc\<rparr>))))))))))"

definition proxy_update_active_sns_data :: "bytes \<Rightarrow> net \<Rightarrow> net result" where
  "proxy_update_active_sns_data data s =
     bind_result (bt_list_consumer data) (\<lambda>l.
     bind_result (list_consume_integer uint64 l) (\<lambda>(p, l).
     bind_result (deserialize_object as_pubkeys (nat p) s) (\<lambda>(added, s).
     bind_result (list_consume_integer uint64 l) (\<lambda>(q, l).
     bind_result (deserialize_object as_pubkeys (nat q) s) (\<lambda>(remed, s).
       proxy_update_active_sns added remed s)))))"

text \<open>What the world outside answers during one step: the clock, zmq, and the bound of the loops.\<close>

record env =
  ev_now :: int
  ev_connect :: "bytes \<Rightarrow> bytes option"
  ev_send :: "nat \<Rightarrow> zmq_send"
  ev_timer_id :: int
  ev_fuel :: nat

definition proxy_control_message :: "env \<Rightarrow> bytes list \<Rightarrow> net \<Rightarrow> net result" where
  "proxy_control_message e parts s =
     (if length parts < 2 then Inl Logic_error
      else
        let route = parts ! 0; cmd = parts ! 1 in
        if length parts = 3 then
          let data = parts ! 2 in
          if cmd = ''SEND'' then proxy_send (ev_fuel e) (ev_now e) (ev_connect e) (ev_send e) data s
          else if cmd = ''REPLY'' then proxy_reply (ev_send e) data s
          else if cmd = ''BATCH'' then
            bind_result (bt_deserialize_integral uint64 data) (\<lambda>p.
            bind_result (proxy_batch (nat p) (n_sched s)) (\<lambda>sc. Inr (s\<lparr>n_sched := sc\<rparr>)))
          else if cmd = ''INJECT'' then
            bind_result (bt_deserialize_integral uint64 data) (\<lambda>p.
            bind_result (deserialize_object as_task (nat p) s) (\<lambda>(task, s).
              Inr (upd_sched (proxy_inject_task task) s)))
          else if cmd = ''SET_SNS'' then
            bind_result (bt_deserialize_integral uint64 data) (\<lambda>p.
            bind_result (deserialize_object as_pubkeys (nat p) s) (\<lambda>(pubkeys, s).
              proxy_set_active_sns pubkeys s))
          else if cmd = ''UPDATE_SNS'' then proxy_update_active_sns_data data s
          else if cmd = ''CONNECT_SN'' then proxy_connect_sn_data (ev_now e) (ev_connect e) data s
          else if cmd = ''CONNECT_REMOTE'' then proxy_connect_remote (ev_now e) (ev_connect e) (ev_send e 0) data s
          else if cmd = ''DISCONNECT'' then proxy_disconnect data s
          else if cmd = ''TIMER'' then proxy_timer (ev_timer_id e) data s
          else if cmd = ''TIMER_DEL'' then
            bind_result (bt_deserialize_integral int32 data) (\<lambda>tid. Inr (upd_sched (proxy_timer_del tid) s))
          else Inl Runtime_error
        else if length parts = 2 then
          if cmd = ''START'' then Inr (s\<lparr>control_replies := control_replies s @ [route_control route ''READY'' []]\<rparr>)
          else if cmd = ''QUIT'' then Inr (upd_sched proxy_control_quit s)
          else Inl Runtime_error
        else Inl Runtime_error)"

end
