(* ===== verification/Worker_Pool.thy ===== *)
theory Worker_Pool
  imports Scheduler "HOL-Library.Multiset"
begin

text \<open>
  The limit on the number of worker threads. An abstract pool of threads with general places
  and places reserved for classes of work, and the proof that the scheduler of
  \<^verbatim>\<open>worker.cpp\<close>, \<^verbatim>\<open>jobs.cpp\<close> and \<^verbatim>\<open>proxy.cpp\<close> implements it.
\<close>

section \<open>Pools with reserved places\<close>

text \<open>
  Work of a class may start while the class has a reserved place left or the pool as a whole
  is below its general places. What is promised: work beyond the reserved places never takes
  more than the general ones, so there is a thread for all that runs.
\<close>

locale thread_pool =
  fixes classes :: "'k set" and reserved :: "'k \<Rightarrow> nat" and general :: nat
  assumes finite_classes: "finite classes"
begin

definition within :: "'k multiset \<Rightarrow> bool" where
  "within M \<longleftrightarrow> set_mset M \<subseteq> classes \<and> (\<Sum>k\<in>classes. count M k - reserved k) \<le> general"

definition may_start :: "'k multiset \<Rightarrow> 'k \<Rightarrow> bool" where
  "may_start M k \<longleftrightarrow> count M k < reserved k \<or> size M < general"

lemma size_counts: "set_mset M \<subseteq> classes \<Longrightarrow> size M = (\<Sum>k\<in>classes. count M k)"
  unfolding size_multiset_overloaded_eq
  by (rule sum.mono_neutral_left) (auto simp: finite_classes not_in_iff)

lemma start_within:
  assumes "within M" "k \<in> classes" "may_start M k"
  shows "within (add_mset k M)"
proof -
  have rest: "(\<Sum>j\<in>classes - {k}. count (add_mset k M) j - reserved j)
      = (\<Sum>j\<in>classes - {k}. count M j - reserved j)"
    by (rule sum.cong) auto
  have split: "(\<Sum>j\<in>classes. f j) = f k + (\<Sum>j\<in>classes - {k}. f j)" for f :: "'k \<Rightarrow> nat"
    by (rule sum.remove [OF finite_classes assms(2)])
  have "(\<Sum>j\<in>classes. count (add_mset k M) j - reserved j) \<le> general"
  proof (cases "count M k < reserved k")
    case True
    then show ?thesis using assms(1) rest unfolding within_def split by simp
  next
    case False
    with assms(3) have "size M < general" by (simp add: may_start_def)
    moreover have "(\<Sum>j\<in>classes. count M j - reserved j) \<le> size M"
      using assms(1) by (simp add: within_def size_counts sum_mono)
    ultimately show ?thesis using rest unfolding split by simp
  qed
  with assms(1,2) show ?thesis by (simp add: within_def)
qed

lemma finish_within: "within M \<Longrightarrow> within (M - {#k#})"
proof -
  assume within: "within M"
  have "(\<Sum>j\<in>classes. count (M - {#k#}) j - reserved j) \<le> (\<Sum>j\<in>classes. count M j - reserved j)"
    by (rule sum_mono) (simp add: diff_le_mono)
  with within show ?thesis by (auto simp: within_def dest: in_diffD)
qed

lemma size_split:
  assumes "within M"
  shows "size M = (\<Sum>k\<in>classes. count M k - reserved k) + (\<Sum>k\<in>classes. min (count M k) (reserved k))"
proof -
  have "count M k = (count M k - reserved k) + min (count M k) (reserved k)" for k by simp
  with assms show ?thesis by (simp add: within_def size_counts flip: sum.distrib)
qed

lemma within_bound: "within M \<Longrightarrow> size M \<le> general + (\<Sum>k\<in>classes. reserved k)"
  by (subst size_split) (auto simp: within_def intro!: add_mono sum_mono)

lemma start_room:
  assumes "within M" "k \<in> classes" "may_start M k"
  shows "size M < general + (\<Sum>k\<in>classes. reserved k)"
proof (cases "count M k < reserved k")
  case True
  have "(\<Sum>k\<in>classes. min (count M k) (reserved k)) < (\<Sum>k\<in>classes. reserved k)"
    by (rule sum_strict_mono_ex1) (use finite_classes assms(2) True in \<open>auto intro!: bexI [of _ k]\<close>)
  with assms(1) size_split [OF assms(1)] show ?thesis by (simp add: within_def)
next
  case False
  with assms(3) show ?thesis by (simp add: may_start_def)
qed

end

section \<open>The pool the scheduler keeps\<close>

text \<open>Batch jobs, reply jobs and the commands of each category are the classes of work.\<close>

datatype job_class = Jobs bool | Commands bytes

definition class_of :: "run_info \<Rightarrow> job_class" where
  "class_of run = (if is_batch_job run then Jobs (is_reply_job run)
     else Commands (case ri_cat run of Some c \<Rightarrow> c | None \<Rightarrow> []))"

definition pool_classes :: "sched \<Rightarrow> job_class set" where
  "pool_classes s = {Jobs True, Jobs False} \<union> Commands ` set (map fst (categories s))"

fun pool_reserved :: "sched \<Rightarrow> job_class \<Rightarrow> nat" where
  "pool_reserved s (Jobs r) = nat (reserved_jobs r s)"
| "pool_reserved s (Commands c) = reserved_threads (the_cat s c)"

fun pool_active :: "sched \<Rightarrow> job_class \<Rightarrow> int" where
  "pool_active s (Jobs r) = active_jobs r s"
| "pool_active s (Commands c) = int (active_threads (the_cat s c))"

definition pool_general :: "sched \<Rightarrow> nat" where
  "pool_general s = nat (general_workers s)"

interpretation pool: thread_pool "pool_classes s" "pool_reserved s" "pool_general s" for s
  by unfold_locales (simp add: pool_classes_def)

text \<open>The workers that are not idle, and the multiset of the classes of what they run.\<close>

definition busy :: "sched \<Rightarrow> nat set" where
  "busy s = {..<length (workers s)} - set (idle_workers s)"

definition busy_classes :: "sched \<Rightarrow> job_class multiset" where
  "busy_classes s = image_mset (\<lambda>i. class_of (workers s ! i)) (mset_set (busy s))"

definition idle_ok :: "sched \<Rightarrow> bool" where
  "idle_ok s \<longleftrightarrow> distinct (idle_workers s) \<and> set (idle_workers s) \<subseteq> {..<length (workers s)}"

text \<open>
  The invariant while the proxy is not shutting down: the counters of active work are the
  numbers of workers running it, the running work fits the pool, and the vector of workers
  is within the capacity reserved for it.
\<close>

definition static_ok :: "sched \<Rightarrow> bool" where
  "static_ok s \<longleftrightarrow> distinct (map fst (categories s)) \<and> 1 \<le> general_workers s
     \<and> 0 \<le> batch_jobs_reserved s \<and> 0 \<le> reply_jobs_reserved s
     \<and> max_workers s = int (pool_general s + (\<Sum>k\<in>pool_classes s. pool_reserved s k))
     \<and> workers_capacity s = nat (max_workers s)"

definition pool_inv :: "sched \<Rightarrow> bool" where
  "pool_inv s \<longleftrightarrow> static_ok s \<and> idle_ok s
     \<and> (\<forall>i\<in>busy s. \<not> is_batch_job (workers s ! i) \<longrightarrow> ri_cat (workers s ! i) \<noteq> None)
     \<and> (\<forall>k\<in>pool_classes s. pool_active s k = int (count (busy_classes s) k))
     \<and> pool.within s (busy_classes s)
     \<and> length (workers s) \<le> workers_capacity s"

lemma finite_busy [simp]: "finite (busy s)"
  by (simp add: busy_def)

lemma idle_le: "idle_ok s \<Longrightarrow> length (idle_workers s) \<le> length (workers s)"
  using card_mono [of "{..<length (workers s)}" "set (idle_workers s)"]
  by (simp add: idle_ok_def distinct_card)

lemma size_busy: "idle_ok s \<Longrightarrow> int (size (busy_classes s)) = active_workers s"
  using idle_le [of s]
  by (simp add: busy_classes_def busy_def idle_ok_def active_workers_def card_Diff_subset distinct_card of_nat_diff)

lemma jobs_in_classes [simp]: "Jobs r \<in> pool_classes s"
  by (cases r) (simp_all add: pool_classes_def)

lemma pool_reserved_eqI:
  assumes "\<And>n. reserved_threads (the_cat s' n) = reserved_threads (the_cat s n)"
    and "batch_jobs_reserved s' = batch_jobs_reserved s" "reply_jobs_reserved s' = reply_jobs_reserved s"
  shows "pool_reserved s' = pool_reserved s"
proof
  show "pool_reserved s' k = pool_reserved s k" for k
    using assms by (cases k) (simp_all add: reserved_jobs_def)
qed

lemma pool_active_eqI:
  assumes "\<And>n. int (active_threads (the_cat s' n)) = f (Commands n)" "\<And>r. active_jobs r s' = f (Jobs r)"
  shows "pool_active s' = f"
proof
  show "pool_active s' k = f k" for k using assms by (cases k) simp_all
qed

text \<open>What the fields of the pool are after an operation that leaves it alone.\<close>

definition pool_part :: "sched \<Rightarrow> _" where
  "pool_part s = (workers s, idle_workers s,
     map (\<lambda>(n, c). (n, reserved_threads c, active_threads c)) (categories s),
     (batch_jobs_active s, reply_jobs_active s, batch_jobs_reserved s, reply_jobs_reserved s),
     general_workers s, max_workers s, workers_capacity s)"

lemma map_of_thread_counts:
  "map_of (map (\<lambda>(n, c). (n, reserved_threads c, active_threads c)) cs) n
     = map_option (\<lambda>c. (reserved_threads c, active_threads c)) (map_of cs n)"
  by (induction cs) auto

lemma the_cat_counts:
  assumes "map (\<lambda>(n, c). (n, reserved_threads c, active_threads c)) (categories s')
         = map (\<lambda>(n, c). (n, reserved_threads c, active_threads c)) (categories s)"
  shows "reserved_threads (the_cat s' n) = reserved_threads (the_cat s n)"
    "active_threads (the_cat s' n) = active_threads (the_cat s n)"
  using map_of_thread_counts [of "categories s'" n] map_of_thread_counts [of "categories s" n] assms
  by (auto simp: the_cat_def split: option.splits)

lemma pool_inv_cong:
  assumes "pool_part s' = pool_part s"
  shows "pool_inv s' = pool_inv s"
proof -
  have cats: "map (\<lambda>(n, c). (n, reserved_threads c, active_threads c)) (categories s')
         = map (\<lambda>(n, c). (n, reserved_threads c, active_threads c)) (categories s)"
    using assms by (simp add: pool_part_def)
  then have names: "map fst (categories s') = map fst (categories s)"
    by (metis (mono_tags, lifting) case_prod_unfold fst_conv map_map comp_apply map_eq_conv)
  have "pool_classes s' = pool_classes s" using names by (simp add: pool_classes_def)
  moreover have "pool_reserved s' = pool_reserved s"
  using assms the_cat_counts [OF cats] by (intro pool_reserved_eqI) (simp_all add: pool_part_def)
  moreover have "pool_active s' = pool_active s"
  using assms the_cat_counts [OF cats] by (intro pool_active_eqI) (simp_all add: pool_part_def active_jobs_def)
  ultimately show ?thesis using assms names
    by (simp add: pool_inv_def static_ok_def idle_ok_def busy_classes_def busy_def pool_general_def pool_part_def)
qed

section \<open>Starting and ending work\<close>

lemma emit_simps [simp]:
  "workers (emit e s) = workers s" "idle_workers (emit e s) = idle_workers s" "categories (emit e s) = categories s"
  "batch_jobs_active (emit e s) = batch_jobs_active s" "reply_jobs_active (emit e s) = reply_jobs_active s"
  "batch_jobs_reserved (emit e s) = batch_jobs_reserved s" "reply_jobs_reserved (emit e s) = reply_jobs_reserved s"
  "general_workers (emit e s) = general_workers s" "max_workers (emit e s) = max_workers s"
  "workers_capacity (emit e s) = workers_capacity s" "pending_commands (emit e s) = pending_commands s"
  "tagged_workers (emit e s) = tagged_workers s" "batch_heap (emit e s) = batch_heap s" "batches (emit e s) = batches s"
  "batch_jobs (emit e s) = batch_jobs s" "reply_jobs (emit e s) = reply_jobs s"
  by (simp_all add: emit_def)

lemma proxy_run_worker_event: "\<exists>e. snd (proxy_run_worker run s) = emit e s"
  by (auto simp: proxy_run_worker_def)

lemma proxy_run_worker_run: "\<exists>b. fst (proxy_run_worker run s) = run\<lparr>thread_joinable := b\<rparr>"
proof (cases "thread_joinable run")
  case True
  then have "run = run\<lparr>thread_joinable := True\<rparr>" by simp
  with True show ?thesis by (metis fst_conv proxy_run_worker_def)
qed (auto simp: proxy_run_worker_def)

lemma class_of_joinable [simp]: "class_of (run\<lparr>thread_joinable := b\<rparr>) = class_of run"
  by (simp add: class_of_def)

text \<open>
  \<open>start_worker\<close>: the worker that is started was idle or is new; every other worker is as
  before, and so is all of the state but the table of workers, the idle workers and the events.
\<close>

lemma start_worker_shape:
  assumes "idle_ok s"
  obtains w run e where "w \<notin> busy s" "idle_ok (start_worker load s)"
    "busy (start_worker load s) = insert w (busy s)"
    "w < length (workers (start_worker load s))"
    "workers (start_worker load s) ! w = (load run)\<lparr>thread_joinable := e\<rparr>"
    "\<And>i. i \<in> busy s \<Longrightarrow> workers (start_worker load s) ! i = workers s ! i"
    "length (workers (start_worker load s)) =
       (if idle_workers s = [] then Suc (length (workers s)) else length (workers s))"
    "\<exists>ws is ev. start_worker load s = emit ev (s\<lparr>workers := ws, idle_workers := is\<rparr>)"
proof -
  define w where "w = fst (get_idle_worker s)"
  define s1 where "s1 = snd (get_idle_worker s)"
  obtain run where run: "run = load (workers s1 ! w)" by simp
  obtain e where e: "snd (proxy_run_worker run s1) = emit e s1" using proxy_run_worker_event by blast
  obtain b where b: "fst (proxy_run_worker run s1) = run\<lparr>thread_joinable := b\<rparr>"
    using proxy_run_worker_run by blast
  have start: "start_worker load s = (emit e s1)\<lparr>workers := (workers s1)[w := run\<lparr>thread_joinable := b\<rparr>]\<rparr>"
    using e b by (simp add: start_worker_def w_def s1_def run split_beta)
  show thesis
  proof (cases "idle_workers s = []")
    case True
    then have s1: "w = length (workers s)" "s1 = s\<lparr>workers := workers s @ [new_run_info w (CHR ''w'' # show_nat w)]\<rparr>"
      by (simp_all add: w_def s1_def get_idle_worker_def Let_def)
    show thesis
    proof (rule that [of w b "workers s1 ! w"])
      show "\<exists>ws is ev. start_worker load s = emit ev (s\<lparr>workers := ws, idle_workers := is\<rparr>)"
        using True by (intro exI [of _ "(workers s1)[w := run\<lparr>thread_joinable := b\<rparr>]"] exI [of _ "[]"] exI [of _ e])
          (simp add: start s1 emit_def)
    qed (use True assms in \<open>auto simp: start s1 run busy_def idle_ok_def nth_append\<close>)
  next
    case False
    then have s1: "w = last (idle_workers s)" "s1 = s\<lparr>idle_workers := butlast (idle_workers s)\<rparr>"
      by (simp_all add: w_def s1_def get_idle_worker_def)
    have idle: "idle_workers s = butlast (idle_workers s) @ [w]" using False s1(1) by simp
    with assms have w: "w < length (workers s)" "w \<notin> set (butlast (idle_workers s))"
        "set (idle_workers s) = insert w (set (butlast (idle_workers s)))" "distinct (butlast (idle_workers s))"
      unfolding idle_ok_def by (metis insert_subset lessThan_iff list.simps(15) set_append rotate1.simps(2) set_rotate1
          distinct.simps(2) distinct_append not_distinct_conv_prefix distinct_butlast)+
    show thesis
    proof (rule that [of w b "workers s1 ! w"])
      show "\<exists>ws is ev. start_worker load s = emit ev (s\<lparr>workers := ws, idle_workers := is\<rparr>)"
        by (intro exI [of _ "(workers s1)[w := run\<lparr>thread_joinable := b\<rparr>]"] exI [of _ "butlast (idle_workers s)"] exI [of _ e])
          (simp add: start s1 emit_def)
    qed (use False assms w in \<open>auto simp: start s1(2) run busy_def idle_ok_def nth_list_update\<close>)
  qed
qed

lemma start_worker_simps [simp]:
  "categories (start_worker load s) = categories s"
  "batch_jobs_active (start_worker load s) = batch_jobs_active s" "reply_jobs_active (start_worker load s) = reply_jobs_active s"
  "batch_jobs_reserved (start_worker load s) = batch_jobs_reserved s"
  "reply_jobs_reserved (start_worker load s) = reply_jobs_reserved s"
  "general_workers (start_worker load s) = general_workers s" "max_workers (start_worker load s) = max_workers s"
  "workers_capacity (start_worker load s) = workers_capacity s"
  "pending_commands (start_worker load s) = pending_commands s"
  "tagged_workers (start_worker load s) = tagged_workers s" "batch_heap (start_worker load s) = batch_heap s"
  "batches (start_worker load s) = batches s" "batch_jobs (start_worker load s) = batch_jobs s"
  "reply_jobs (start_worker load s) = reply_jobs s"
  by (simp_all add: start_worker_def get_idle_worker_def proxy_run_worker_def Let_def)

lemma fst_upd_cat [simp]: "map fst (categories (upd_cat n f s)) = map fst (categories s)"
  by (simp add: upd_cat_def case_prod_unfold comp_def)

lemma the_cat_upd_cat:
  "the_cat (upd_cat n f s) m = (if m = n \<and> n \<in> set (map fst (categories s)) then f (the_cat s n) else the_cat s m)"
proof -
  have "map_of (map (\<lambda>(k, c). (k, if k = n then f c else c)) cs) m
      = (if m = n then map_option f (map_of cs n) else map_of cs m)" for cs
    by (induction cs) auto
  moreover have "n \<in> set (map fst cs) \<longleftrightarrow> map_of cs n \<noteq> None" for cs :: "(bytes \<times> category) list"
    by (simp add: map_of_eq_None_iff)
  ultimately show ?thesis by (auto simp: the_cat_def upd_cat_def split: option.splits)
qed

lemma upd_cat_simps [simp]:
  "workers (upd_cat n f s) = workers s" "idle_workers (upd_cat n f s) = idle_workers s"
  "batch_jobs_active (upd_cat n f s) = batch_jobs_active s" "reply_jobs_active (upd_cat n f s) = reply_jobs_active s"
  "batch_jobs_reserved (upd_cat n f s) = batch_jobs_reserved s" "reply_jobs_reserved (upd_cat n f s) = reply_jobs_reserved s"
  "general_workers (upd_cat n f s) = general_workers s" "max_workers (upd_cat n f s) = max_workers s"
  "workers_capacity (upd_cat n f s) = workers_capacity s" "pending_commands (upd_cat n f s) = pending_commands s"
  "tagged_workers (upd_cat n f s) = tagged_workers s" "batch_heap (upd_cat n f s) = batch_heap s"
  "batches (upd_cat n f s) = batches s" "batch_jobs (upd_cat n f s) = batch_jobs s" "reply_jobs (upd_cat n f s) = reply_jobs s"
  by (simp_all add: upd_cat_def)

lemma upd_cat_classes [simp]: "pool_classes (upd_cat n f s) = pool_classes s"
  unfolding pool_classes_def by (simp only: fst_upd_cat)

lemma commands_in_classes: "Commands n \<in> pool_classes s \<longleftrightarrow> n \<in> set (map fst (categories s))"
  by (auto simp: pool_classes_def)

text \<open>Two states with the same places for the same classes.\<close>

definition same_places :: "sched \<Rightarrow> sched \<Rightarrow> bool" where
  "same_places s s' \<longleftrightarrow> map fst (categories s') = map fst (categories s) \<and> pool_reserved s' = pool_reserved s
     \<and> general_workers s' = general_workers s \<and> max_workers s' = max_workers s
     \<and> batch_jobs_reserved s' = batch_jobs_reserved s \<and> reply_jobs_reserved s' = reply_jobs_reserved s
     \<and> workers_capacity s' = workers_capacity s"

lemma same_placesD:
  assumes "same_places s s'"
  shows "pool_classes s' = pool_classes s" "pool_reserved s' = pool_reserved s" "pool_general s' = pool_general s"
    "static_ok s' = static_ok s" "max_workers s' = max_workers s" "workers_capacity s' = workers_capacity s"
proof -
  show classes: "pool_classes s' = pool_classes s"
    using assms unfolding same_places_def pool_classes_def by metis
  show "pool_reserved s' = pool_reserved s" "pool_general s' = pool_general s" "max_workers s' = max_workers s"
      "workers_capacity s' = workers_capacity s"
    using assms by (simp_all add: same_places_def pool_general_def)
  with classes assms show "static_ok s' = static_ok s"
    by (simp add: static_ok_def same_places_def)
qed

lemma static_capacity:
  "static_ok s \<Longrightarrow> workers_capacity s = pool_general s + (\<Sum>k\<in>pool_classes s. pool_reserved s k)"
  unfolding static_ok_def by (metis nat_int)

lemma pool_inv_start:
  assumes inv: "pool_inv s" and k: "k \<in> pool_classes s" "pool.may_start s (busy_classes s) k"
    and load: "\<And>r. class_of (load r) = k" "\<And>r. \<not> is_batch_job (load r) \<Longrightarrow> ri_cat (load r) \<noteq> None"
    and s': "workers s' = workers (start_worker load s)" "idle_workers s' = idle_workers (start_worker load s)"
      "same_places s s'" "pool_active s' = (pool_active s)(k := pool_active s k + 1)"
  shows "pool_inv s' \<and> busy_classes s' = add_mset k (busy_classes s)"
proof -
  have idle: "idle_ok s" using inv by (simp add: pool_inv_def)
  obtain w run e where w: "w \<notin> busy s" "idle_ok (start_worker load s)"
    "busy (start_worker load s) = insert w (busy s)" "w < length (workers (start_worker load s))"
    "workers (start_worker load s) ! w = (load run)\<lparr>thread_joinable := e\<rparr>"
    "\<And>i. i \<in> busy s \<Longrightarrow> workers (start_worker load s) ! i = workers s ! i"
    "length (workers (start_worker load s)) = (if idle_workers s = [] then Suc (length (workers s)) else length (workers s))"
    "\<exists>ws is ev. start_worker load s = emit ev (s\<lparr>workers := ws, idle_workers := is\<rparr>)"
    by (rule start_worker_shape [OF idle, of load]) (rule that)
  have same: "busy s' = busy (start_worker load s)" "idle_ok s'"
    using s'(1,2) w(2) by (simp_all add: busy_def idle_ok_def)
  note places = same_placesD [OF s'(3)]
  have "image_mset (\<lambda>i. class_of (workers s' ! i)) (mset_set (busy s)) = busy_classes s"
    unfolding busy_classes_def by (rule image_mset_cong) (simp add: s'(1) w(6))
  then have classes: "busy_classes s' = add_mset k (busy_classes s)"
    using w load(1) by (simp add: busy_classes_def [of s'] same(1) s'(1))
  have room: "size (busy_classes s) < workers_capacity s"
    using inv k pool.start_room [of s "busy_classes s" k] by (simp add: pool_inv_def static_capacity)
  have "length (workers s') \<le> workers_capacity s"
  proof (cases "idle_workers s = []")
    case True
    then have "size (busy_classes s) = length (workers s)"
      using size_busy [OF idle] by (simp add: active_workers_def)
    with room True w(7) show ?thesis by (simp add: s'(1))
  qed (use inv w(7) s'(1) in \<open>simp add: pool_inv_def\<close>)
  moreover have "pool.within s' (busy_classes s')"
    using inv k pool.start_within [of s "busy_classes s" k]
    by (simp add: classes pool_inv_def pool.within_def places)
  moreover have "\<forall>i\<in>busy s'. \<not> is_batch_job (workers s' ! i) \<longrightarrow> ri_cat (workers s' ! i) \<noteq> None"
    using inv w(3,5,6) load(2) [of run] by (simp add: same(1) s'(1) pool_inv_def)
  moreover have "\<forall>j\<in>pool_classes s'. pool_active s' j = int (count (busy_classes s') j)"
    using inv k(1) by (simp add: places classes s'(4) pool_inv_def)
  ultimately show ?thesis
    using inv classes same(2) by (simp add: pool_inv_def places)
qed

text \<open>The conditions the code tests are those of the pool.\<close>

lemma may_start_iff:
  assumes "pool_inv s" "k \<in> pool_classes s"
  shows "pool.may_start s (busy_classes s) k
    \<longleftrightarrow> pool_active s k < int (pool_reserved s k) \<or> active_workers s < general_workers s"
proof -
  have "pool_active s k = int (count (busy_classes s) k)" "idle_ok s" "1 \<le> general_workers s"
    using assms by (simp_all add: pool_inv_def static_ok_def)
  with size_busy [of s] show ?thesis
    unfolding pool.may_start_def by (auto simp: pool_general_def)
qed

lemma slot_free_may_start:
  assumes "pool_inv s" "n \<in> set (map fst (categories s))"
  shows "slot_free n s \<longleftrightarrow> pool.may_start s (busy_classes s) (Commands n)"
  using assms may_start_iff [of s "Commands n"] by (simp add: slot_free_def commands_in_classes)

lemma jobs_may_start:
  assumes "pool_inv s"
  shows "active_jobs r s < reserved_jobs r s \<or> active_workers s < general_workers s
    \<longleftrightarrow> pool.may_start s (busy_classes s) (Jobs r)"
  using assms may_start_iff [of s "Jobs r"] by (auto simp: pool_inv_def static_ok_def reserved_jobs_def)

lemma pool_inv_finish:
  assumes inv: "pool_inv s" and w: "w \<in> busy s"
    and s': "length (workers s') = length (workers s)" "\<And>i. i \<noteq> w \<Longrightarrow> workers s' ! i = workers s ! i"
      "idle_workers s' = idle_workers s @ [w]" "same_places s s'"
      "pool_active s' = (pool_active s)(class_of (workers s ! w) := pool_active s (class_of (workers s ! w)) - 1)"
  shows "pool_inv s' \<and> busy_classes s = add_mset (class_of (workers s ! w)) (busy_classes s')"
proof -
  let ?k = "class_of (workers s ! w)"
  have busy': "busy s' = busy s - {w}" using s'(1,3) by (auto simp: busy_def)
  note places = same_placesD [OF s'(4)]
  have "busy_classes s' = image_mset (\<lambda>i. class_of (workers s ! i)) (mset_set (busy s - {w}))"
    unfolding busy_classes_def busy' by (rule image_mset_cong) (simp add: s'(2))
  moreover have "mset_set (busy s) = add_mset w (mset_set (busy s - {w}))"
    using w by (simp add: mset_set.remove)
  ultimately have classes: "busy_classes s = add_mset ?k (busy_classes s')"
    by (simp add: busy_classes_def [of s])
  then have sub: "busy_classes s' = busy_classes s - {#?k#}" by simp
  have "idle_ok s'" using inv w s'(1,3) by (auto simp: pool_inv_def idle_ok_def busy_def)
  moreover have "pool.within s' (busy_classes s')"
    using inv pool.finish_within [of s "busy_classes s" ?k]
    by (simp add: sub pool_inv_def pool.within_def places)
  moreover have "\<forall>i\<in>busy s'. \<not> is_batch_job (workers s' ! i) \<longrightarrow> ri_cat (workers s' ! i) \<noteq> None"
    using inv by (simp add: busy' s'(2) pool_inv_def)
  moreover have "?k \<in> pool_classes s"
    using inv classes by (auto simp: pool_inv_def pool.within_def)
  then have "\<forall>j\<in>pool_classes s'. pool_active s' j = int (count (busy_classes s') j)"
    using inv by (auto simp: places classes s'(5) pool_inv_def)
  ultimately show ?thesis
    using inv classes s'(1) by (simp add: pool_inv_def places)
qed

section \<open>The operations keep the pool\<close>

lemma class_of_load [simp]:
  "class_of (load_batch_job j r t run) = Jobs r" "is_batch_job (load_batch_job j r t run)"
  "class_of (load_pending p run) = Commands (pc_cat p)" "ri_cat (load_pending p run) = Some (pc_cat p)"
  by (simp_all add: class_of_def load_batch_job_def load_pending_def load_command_def load_injected_def run_reset_def
      split: pending_callback.splits)

lemma pool_active_cat:
  assumes "n \<in> set (map fst (categories s))"
  shows "pool_active (upd_cat n (\<lambda>c. c\<lparr>active_threads := f (active_threads c)\<rparr>) s)
    = (pool_active s)(Commands n := int (f (active_threads (the_cat s n))))"
proof
  show "pool_active (upd_cat n (\<lambda>c. c\<lparr>active_threads := f (active_threads c)\<rparr>) s) k
    = ((pool_active s)(Commands n := int (f (active_threads (the_cat s n))))) k" for k
    using assms by (cases k) (simp_all add: the_cat_upd_cat active_jobs_def)
qed

lemma pool_reserved_upd_cat:
  "(\<And>c. reserved_threads (f c) = reserved_threads c) \<Longrightarrow> pool_reserved (upd_cat n f s) = pool_reserved s"
proof
  show "pool_reserved (upd_cat n f s) k = pool_reserved s k" if "\<And>c. reserved_threads (f c) = reserved_threads c" for k
    using that by (cases k) (simp_all add: the_cat_upd_cat reserved_jobs_def)
qed

lemma pool_part_queued [simp]:
  "pool_part (upd_cat n (\<lambda>c. c\<lparr>queued := f (queued c)\<rparr>) s) = pool_part s"
  by (simp add: pool_part_def upd_cat_def case_prod_unfold comp_def)

lemma pool_active_cong: "pool_part s' = pool_part s \<Longrightarrow> pool_active s' = pool_active s"
proof
  assume same: "pool_part s' = pool_part s"
  then have cats: "map (\<lambda>(n, c). (n, reserved_threads c, active_threads c)) (categories s')
         = map (\<lambda>(n, c). (n, reserved_threads c, active_threads c)) (categories s)"
    by (simp add: pool_part_def)
  show "pool_active s' k = pool_active s k" for k
    using same the_cat_counts [OF cats] by (cases k) (simp_all add: pool_part_def active_jobs_def)
qed

lemma pool_inv_start_job:
  assumes "pool_inv s" "active_jobs r s < reserved_jobs r s \<or> active_workers s < general_workers s"
  shows "pool_inv (start_job r j js s)"
proof -
  let ?s' = "add_active_jobs r 1 (set_queued_jobs r js (start_worker (load_batch_job j r 0) s))"
  have active: "pool_active ?s' = (pool_active s)(Jobs r := pool_active s (Jobs r) + 1)"
  by (intro pool_active_eqI) (auto simp: add_active_jobs_def set_queued_jobs_def active_jobs_def the_cat_def)
  have "pool_reserved ?s' = pool_reserved s"
  by (intro pool_reserved_eqI) (simp_all add: add_active_jobs_def set_queued_jobs_def the_cat_def)
  then have "same_places s ?s'"
    by (simp add: same_places_def add_active_jobs_def set_queued_jobs_def)
  from pool_inv_start [OF assms(1) jobs_in_classes, of r "load_batch_job j r 0" ?s', OF _ _ _ _ _ this active]
    assms jobs_may_start [of s r] show ?thesis
    by (simp add: start_job_def add_active_jobs_def set_queued_jobs_def)
qed

lemma pool_inv_run_batch_jobs: "pool_inv s \<Longrightarrow> pool_inv (run_batch_jobs_loop r js s)"
proof (induction r js s rule: run_batch_jobs_loop.induct)
  case (2 r j js s)
  then show ?case using pool_inv_start_job [of s r j js] by simp
qed simp

lemma pool_inv_start_command:
  assumes "pool_inv s" "slot_free n s" "n \<in> set (map fst (categories s))"
    and load: "\<And>r. class_of (load r) = Commands n" "\<And>r. ri_cat (load r) \<noteq> None"
  shows "pool_inv (upd_cat n (\<lambda>c. c\<lparr>active_threads := active_threads c + 1\<rparr>) (start_worker load s))"
proof -
  let ?f = "\<lambda>c. c\<lparr>active_threads := active_threads c + 1\<rparr>"
  let ?s' = "upd_cat n ?f (start_worker load s)"
  have cat: "the_cat (start_worker load s) = the_cat s" by (simp add: the_cat_def fun_eq_iff)
  have active: "pool_active ?s' = (pool_active s)(Commands n := pool_active s (Commands n) + 1)"
  using assms(3) by (intro pool_active_eqI) (auto simp: the_cat_upd_cat cat active_jobs_def)
  have "pool_reserved ?s' = pool_reserved s"
  by (intro pool_reserved_eqI) (simp_all add: the_cat_upd_cat cat)
  then have "same_places s ?s'" by (simp add: same_places_def)
  moreover have "Commands n \<in> pool_classes s" using assms(3) by (simp add: commands_in_classes)
  ultimately show ?thesis
    using pool_inv_start [OF assms(1), of "Commands n" load ?s'] active slot_free_may_start [OF assms(1,3)] assms(2) load
    by simp
qed

lemma pool_part_queued_active:
  "pool_part (upd_cat n (\<lambda>c. c\<lparr>active_threads := f (active_threads c)\<rparr>) (upd_cat n (\<lambda>c. c\<lparr>queued := g (queued c)\<rparr>) s))
     = pool_part (upd_cat n (\<lambda>c. c\<lparr>active_threads := f (active_threads c)\<rparr>) s)"
  by (simp add: pool_part_def upd_cat_def case_prod_unfold comp_def)

lemma pool_inv_start_pending:
  assumes "pool_inv s" "slot_free (pc_cat p) s" "pc_cat p \<in> set (map fst (categories s))"
  shows "pool_inv (start_pending p s)"
proof -
  let ?act = "\<lambda>c. c\<lparr>active_threads := active_threads c + 1\<rparr>"
  have "pool_inv (upd_cat (pc_cat p) ?act (start_worker (load_pending p) s))"
    using assms by (intro pool_inv_start_command) simp_all
  moreover have "pool_part (start_pending p s) = pool_part (upd_cat (pc_cat p) ?act (start_worker (load_pending p) s))"
    unfolding start_pending_def by (rule pool_part_queued_active)
  ultimately show ?thesis using pool_inv_cong by blast
qed

lemma start_pending_frame [simp]:
  "map fst (categories (start_pending p s)) = map fst (categories s)"
  "pending_commands (start_pending p s) = pending_commands s"
  by (simp_all add: start_pending_def)

lemma pool_inv_run_pending:
  "pool_inv s \<Longrightarrow> \<forall>p\<in>set ps. pc_cat p \<in> set (map fst (categories s)) \<Longrightarrow> pool_inv (snd (run_pending_loop ps s))"
proof (induction ps s rule: run_pending_loop.induct)
  case (2 p ps s)
  have "\<forall>p\<in>set ps. pc_cat p \<in> set (map fst (categories (start_pending p s)))"
    using 2(4) by (simp del: set_map)
  with 2 pool_inv_start_pending [of s p] show ?case
    by (auto simp: split_beta simp del: set_map)
qed simp

lemma run_tagged_part: "pool_part (snd (run_tagged_loop ts s)) = pool_part s"
proof (induction ts s rule: run_tagged_loop.induct)
  case (2 run busy queue ts s)
  obtain e where "snd (proxy_run_worker (load_batch_job (hd queue) False (int (worker_id run)) run) s) = emit e s"
    using proxy_run_worker_event by blast
  moreover have "pool_part (emit e s) = pool_part s" by (simp add: pool_part_def)
  ultimately show ?case
    using 2 by (cases "\<not> busy \<and> queue \<noteq> []") (simp_all add: split_beta)
qed simp

lemma run_tagged_workers_part: "pool_part (run_tagged_workers s) = pool_part s"
  using run_tagged_part [of "tagged_workers s" s] by (simp add: run_tagged_workers_def split_beta pool_part_def)

definition pending_ok :: "sched \<Rightarrow> bool" where
  "pending_ok s \<longleftrightarrow> (\<forall>p\<in>set (pending_commands s). pc_cat p \<in> set (map fst (categories s)))"

lemma start_job_frame [simp]:
  "categories (start_job r j js s) = categories s" "pending_commands (start_job r j js s) = pending_commands s"
  by (simp_all add: start_job_def set_queued_jobs_def add_active_jobs_def)

lemma run_batch_jobs_frame:
  "categories (run_batch_jobs_loop r js s) = categories s \<and> pending_commands (run_batch_jobs_loop r js s) = pending_commands s"
  by (induction r js s rule: run_batch_jobs_loop.induct) simp_all

lemma run_tagged_frame:
  "categories (snd (run_tagged_loop ts s)) = categories s
   \<and> pending_commands (snd (run_tagged_loop ts s)) = pending_commands s"
proof (induction ts s rule: run_tagged_loop.induct)
  case (2 run busy queue ts s)
  then show ?case
    by (cases "\<not> busy \<and> queue \<noteq> []") (simp_all add: split_beta proxy_run_worker_def)
qed simp

lemma run_pending_frame:
  "map fst (categories (snd (run_pending_loop ps s))) = map fst (categories s)
   \<and> set (fst (run_pending_loop ps s)) \<subseteq> set ps
   \<and> pending_commands (snd (run_pending_loop ps s)) = pending_commands s"
proof (induction ps s rule: run_pending_loop.induct)
  case (2 p ps s)
  then show ?case by (auto simp: split_beta)
qed simp

text \<open>The state in which \<open>proxy_process_queue\<close> comes to the waiting commands.\<close>

definition after_jobs :: "sched \<Rightarrow> sched" where
  "after_jobs s = proxy_run_batch_jobs True (proxy_run_batch_jobs False (run_tagged_workers s))"

lemma after_jobs_frame:
  "categories (after_jobs s) = categories s" "pending_commands (after_jobs s) = pending_commands s"
  using run_tagged_frame [of "tagged_workers s" s]
  by (simp_all add: after_jobs_def proxy_run_batch_jobs_def run_batch_jobs_frame run_tagged_workers_def split_beta)

lemma pool_inv_after_jobs: "pool_inv s \<Longrightarrow> pool_inv (after_jobs s)"
  unfolding after_jobs_def proxy_run_batch_jobs_def
  by (intro pool_inv_run_batch_jobs) (simp add: pool_inv_cong [OF run_tagged_workers_part])

lemma pool_inv_process_queue:
  assumes "pool_inv s" "pending_ok s"
  shows "pool_inv (proxy_process_queue s) \<and> pending_ok (proxy_process_queue s)"
proof (cases "max_workers s = 0")
  case False
  let ?t = "after_jobs s"
  have pq: "proxy_process_queue s = run_pending_commands ?t"
    using False by (simp add: proxy_process_queue_def after_jobs_def Let_def)
  have "pool_inv (snd (run_pending_loop (pending_commands ?t) ?t))"
    using assms(2) pool_inv_after_jobs [OF assms(1)]
    by (intro pool_inv_run_pending) (simp_all add: pending_ok_def after_jobs_frame)
  then have "pool_inv (run_pending_commands ?t)"
    by (subst pool_inv_cong [of _ "snd (run_pending_loop (pending_commands ?t) ?t)"])
      (simp_all add: run_pending_commands_def split_beta pool_part_def)
  moreover have "pending_ok (run_pending_commands ?t)"
    using assms(2) run_pending_frame [of "pending_commands ?t" ?t]
    by (auto simp: run_pending_commands_def split_beta pending_ok_def after_jobs_frame simp del: set_map)
  ultimately show ?thesis by (simp add: pq)
qed (use assms in \<open>simp add: proxy_process_queue_def\<close>)

lemma pool_inv_run_or_queue:
  assumes "pool_inv s" "pending_ok s" "pc_cat p \<in> set (map fst (categories s))"
  shows "pool_inv (run_or_queue p s) \<and> pending_ok (run_or_queue p s)"
proof (cases "slot_free (pc_cat p) s")
  case True
  then show ?thesis
    using assms pool_inv_start_command [of s "pc_cat p" "load_pending p"]
    by (auto simp: run_or_queue_def pending_ok_def simp del: set_map)
next
  case False
  let ?s = "upd_cat (pc_cat p) (\<lambda>c. c\<lparr>queued := queued c + 1\<rparr>) (s\<lparr>pending_commands := pending_commands s @ [p]\<rparr>)"
  have "pool_part ?s = pool_part s"
    using pool_part_queued [of "pc_cat p" "\<lambda>q. q + 1" "s\<lparr>pending_commands := pending_commands s @ [p]\<rparr>"]
    by (simp add: pool_part_def)
  then have "pool_inv ?s" using assms(1) pool_inv_cong by blast
  moreover have "pending_ok ?s" using assms(2,3) by (auto simp: pending_ok_def simp del: set_map)
  ultimately show ?thesis using False assms(1,2) by (simp add: run_or_queue_def)
qed

section \<open>Operations outside the pool\<close>

lemma push_part [simp]:
  "push_tagged i j s = Inr s' \<Longrightarrow> pool_part s' = pool_part s"
  "pool_part (push_job r j s) = pool_part s" "pool_part (insert_batch p s) = pool_part s"
  "pool_part (snd (new_object b s)) = pool_part s" "pool_part (set_object p b s) = pool_part s"
  "pool_part (delete_batch p s) = pool_part s" "pool_part (emit e s) = pool_part s"
  "pool_part (call_completion c rs s) = pool_part s" "pool_part (proxy_timer_del t s) = pool_part s"
  by (auto simp: pool_part_def push_tagged_def push_job_def set_queued_jobs_def insert_batch_def new_object_def
      set_object_def delete_batch_def call_completion_def Let_def proxy_timer_del_def
      split: if_splits completion_fn.splits option.splits)

lemma push_pending [simp]:
  "push_tagged i j s = Inr s' \<Longrightarrow> categories s' = categories s \<and> pending_commands s' = pending_commands s"
  "categories (push_job r j s) = categories s" "categories (insert_batch p s) = categories s"
  "categories (snd (new_object b s)) = categories s" "categories (set_object p b s) = categories s"
  "categories (delete_batch p s) = categories s" "categories (call_completion c rs s) = categories s"
  "categories (proxy_timer_del t s) = categories s"
  "pending_commands (push_job r j s) = pending_commands s" "pending_commands (insert_batch p s) = pending_commands s"
  "pending_commands (snd (new_object b s)) = pending_commands s" "pending_commands (set_object p b s) = pending_commands s"
  "pending_commands (delete_batch p s) = pending_commands s" "pending_commands (call_completion c rs s) = pending_commands s"
  "pending_commands (proxy_timer_del t s) = pending_commands s"
  by (auto simp: push_tagged_def push_job_def set_queued_jobs_def insert_batch_def new_object_def
      set_object_def delete_batch_def call_completion_def Let_def proxy_timer_del_def
      split: if_splits completion_fn.splits option.splits)

text \<open>What neither the pool nor the waiting commands see.\<close>

definition outside_pool :: "sched \<Rightarrow> sched \<Rightarrow> bool" where
  "outside_pool s s' \<longleftrightarrow> pool_part s' = pool_part s \<and> categories s' = categories s \<and> pending_commands s' = pending_commands s"

lemma outside_pool_refl [simp, intro]: "outside_pool s s"
  by (simp add: outside_pool_def)

lemma outside_pool_trans: "outside_pool s t \<Longrightarrow> outside_pool t u \<Longrightarrow> outside_pool s u"
  by (simp add: outside_pool_def)

lemma outside_pool_inv: "outside_pool s s' \<Longrightarrow> pool_inv s' = pool_inv s"
  unfolding outside_pool_def by (rule pool_inv_cong) (rule conjunct1)

lemma outside_pool_pending: "outside_pool s s' \<Longrightarrow> pending_ok s' = pending_ok s"
  by (simp add: outside_pool_def pending_ok_def)

lemma outside_pool_ops [simp]:
  "outside_pool s (push_job r j t) = outside_pool s t" "outside_pool s (insert_batch p t) = outside_pool s t"
  "outside_pool s (snd (new_object b t)) = outside_pool s t" "outside_pool s (set_object p b t) = outside_pool s t"
  "outside_pool s (delete_batch p t) = outside_pool s t" "outside_pool s (emit e t) = outside_pool s t"
  "outside_pool s (call_completion c rs t) = outside_pool s t"
  "outside_pool s (proxy_timer_del i t) = outside_pool s t"
  "outside_pool s (t\<lparr>proxy_skip_one_poll := q\<rparr>) = outside_pool s t"
  "outside_pool s (t\<lparr>timer_jobs := ts\<rparr>) = outside_pool s t"
  by (simp_all add: outside_pool_def pool_part_def [of "_\<lparr>proxy_skip_one_poll := _\<rparr>"] pool_part_def [of "_\<lparr>timer_jobs := _\<rparr>"]
      pending_ok_def [of "_\<lparr>proxy_skip_one_poll := _\<rparr>"] pending_ok_def [of "_\<lparr>timer_jobs := _\<rparr>"])
    (simp_all add: pool_part_def pending_ok_def)

lemma outside_pool_push_tagged: "push_tagged i j t = Inr s' \<Longrightarrow> outside_pool s s' = outside_pool s t"
  by (simp add: outside_pool_def)

lemma outside_pool_batch_job_done: "batch_job_done w p s = Inr (clear, s') \<Longrightarrow> outside_pool s s'"
  unfolding batch_job_done_def
  by (auto simp: Let_def split_beta result_simps outside_pool_push_tagged
      split: option.splits if_splits BatchState.splits sum.splits)

lemma outside_pool_queue_batch_jobs: "queue_batch_jobs p i ts s = Inr s' \<Longrightarrow> outside_pool s s'"
proof (induction ts arbitrary: i s)
  case (Cons t ts)
  then obtain s1 where s1: "(if 0 < t then push_tagged (nat t) (p, i) s else Inr (push_job False (p, i) s)) = Inr s1"
    "queue_batch_jobs p (i + 1) ts s1 = Inr s'" by (auto simp: result_simps)
  have "outside_pool s s1" using s1(1) by (auto simp: outside_pool_push_tagged split: if_splits)
  then show ?case using Cons.IH [OF s1(2)] outside_pool_trans by blast
qed simp

lemma outside_pool_proxy_batch: "proxy_batch p s = Inr s' \<Longrightarrow> outside_pool s s'"
proof -
  have insert: "outside_pool s t" if "outside_pool (insert_batch p s) t" for t
    using outside_pool_trans [OF _ that, of s] by simp
  show "proxy_batch p s = Inr s' \<Longrightarrow> outside_pool s s'"
    by (auto simp: proxy_batch_def Let_def split_beta result_simps split: option.splits if_splits
        dest!: outside_pool_queue_batch_jobs intro: insert)
qed

lemma outside_pool_reply_job: "outside_pool s (proxy_schedule_reply_job f s)"
  by (simp add: proxy_schedule_reply_job_def Let_def split_beta)

lemma outside_pool_timer_add: "proxy_timer_add z t f i sq th s = Inr s' \<Longrightarrow> outside_pool s s'"
  by (auto simp: proxy_timer_add_def Let_def outside_pool_def pool_part_def pending_ok_def split: if_splits)

lemma outside_pool_timer_job: "queue_timer_job t s = Inr s' \<Longrightarrow> outside_pool s s'"
  by (auto simp: queue_timer_job_def Let_def split_beta outside_pool_push_tagged split: option.splits if_splits)

section \<open>A worker that has run its job\<close>

text \<open>Whether the thread of a worker is running: it is not idle, or it is tagged and busy.\<close>

fun worker_running :: "worker_ref \<Rightarrow> sched \<Rightarrow> bool" where
  "worker_running (General i) s \<longleftrightarrow> i \<in> busy s"
| "worker_running (Tagged i) s \<longleftrightarrow> 0 < i \<and> i \<le> length (tagged_workers s) \<and> fst (snd (tagged_workers s ! (i - 1)))"

lemma pool_inv_max:
  assumes "pool_inv s"
  shows "max_workers s \<noteq> 0"
proof -
  have "0 < pool_general s" using assms by (simp add: pool_inv_def static_ok_def pool_general_def)
  with assms show ?thesis by (auto simp: pool_inv_def static_ok_def simp flip: of_nat_sum of_nat_add)
qed

lemma outside_pool_parts:
  assumes "outside_pool s s'"
  shows "workers s' = workers s" "idle_workers s' = idle_workers s" "same_places s s'" "pool_active s' = pool_active s"
proof -
  have part: "pool_part s' = pool_part s" using assms by (simp add: outside_pool_def)
  then show "workers s' = workers s" "idle_workers s' = idle_workers s" by (simp_all add: pool_part_def)
  show "pool_active s' = pool_active s" using part by (rule pool_active_cong)
  have cats: "map (\<lambda>(n, c). (n, reserved_threads c, active_threads c)) (categories s')
         = map (\<lambda>(n, c). (n, reserved_threads c, active_threads c)) (categories s)"
    using part by (simp add: pool_part_def)
  then have "map fst (categories s') = map fst (categories s)"
    by (metis (mono_tags, lifting) case_prod_unfold fst_conv map_map comp_apply map_eq_conv)
  moreover have "pool_reserved s' = pool_reserved s"
  using part the_cat_counts [OF cats] by (intro pool_reserved_eqI) (simp_all add: pool_part_def)
  ultimately show "same_places s s'" using part by (simp add: same_places_def pool_part_def)
qed

lemma worker_ran_batch_shape:
  assumes "worker_ran_batch w s = Inr s'"
  obtains t where "outside_pool (worker_returned w s) t" "s' = t \<or> (\<exists>run. s' = set_run w run t)"
proof -
  from assms obtain p clear t where p: "to_run (run_of w s) = RunBatch (Some p)"
    and t: "batch_job_done w p (worker_returned w s) = Inr (clear, t)"
    and s': "s' = (if clear then let s = delete_batch p t in set_run w ((run_of w s)\<lparr>to_run := RunBatch None\<rparr>) s else t)"
    by (auto simp: worker_ran_batch_def result_simps split: runnable.splits option.splits)
  have out: "outside_pool (worker_returned w s) t" using t by (rule outside_pool_batch_job_done)
  show thesis
  proof (cases clear)
    case True
    then show thesis using that [of "delete_batch p t"] out s' by (auto simp: Let_def)
  qed (use that [of t] out s' in simp)
qed

lemma outside_pool_tagged [simp]:
  "outside_pool s (t\<lparr>tagged_workers := ts\<rparr>) = outside_pool s t"
  by (simp add: outside_pool_def pool_part_def pending_ok_def)

lemma same_places_trans: "same_places s t \<Longrightarrow> same_places t u \<Longrightarrow> same_places s u"
  by (simp add: same_places_def)

lemma add_active_jobs_places:
  "same_places s (add_active_jobs r d s)" "pool_active (add_active_jobs r d s) = (pool_active s)(Jobs r := pool_active s (Jobs r) + d)"
  "workers (add_active_jobs r d s) = workers s" "idle_workers (add_active_jobs r d s) = idle_workers s"
  "pending_ok (add_active_jobs r d s) = pending_ok s"
proof -
  show "pool_active (add_active_jobs r d s) = (pool_active s)(Jobs r := pool_active s (Jobs r) + d)"
  by (intro pool_active_eqI) (auto simp: add_active_jobs_def active_jobs_def the_cat_def)
  have "pool_reserved (add_active_jobs r d s) = pool_reserved s"
  by (intro pool_reserved_eqI) (simp_all add: add_active_jobs_def the_cat_def)
  then show "same_places s (add_active_jobs r d s)" by (simp add: same_places_def add_active_jobs_def)
qed (simp_all add: add_active_jobs_def pending_ok_def)

lemma set_run_places:
  "same_places s (set_run (General i) run t) = same_places s t"
  "pool_active (set_run (General i) run t) = pool_active t"
  "pending_ok (set_run (General i) run t) = pending_ok t"
  "workers (set_run (General i) run t) = (workers t)[i := run]" "idle_workers (set_run (General i) run t) = idle_workers t"
proof -
  have "pool_reserved (set_run (General i) run t) = pool_reserved t"
  by (intro pool_reserved_eqI) (simp_all add: the_cat_def)
  then show "same_places s (set_run (General i) run t) = same_places s t" by (simp add: same_places_def)
  show "pool_active (set_run (General i) run t) = pool_active t"
  by (intro pool_active_eqI) (auto simp: active_jobs_def the_cat_def)
qed (simp_all add: pending_ok_def)

lemma idle_update_places:
  "same_places s (t\<lparr>idle_workers := is\<rparr>) = same_places s t" "pool_active (t\<lparr>idle_workers := is\<rparr>) = pool_active t"
  "pending_ok (t\<lparr>idle_workers := is\<rparr>) = pending_ok t"
proof -
  have "pool_reserved (t\<lparr>idle_workers := is\<rparr>) = pool_reserved t"
  by (intro pool_reserved_eqI) (simp_all add: the_cat_def)
  then show "same_places s (t\<lparr>idle_workers := is\<rparr>) = same_places s t" by (simp add: same_places_def)
  show "pool_active (t\<lparr>idle_workers := is\<rparr>) = pool_active t"
  by (intro pool_active_eqI) (auto simp: active_jobs_def the_cat_def)
qed (simp add: pending_ok_def)

text \<open>What the bookkeeping of \<open>RAN\<close> leaves for a worker of the general pool.\<close>

lemma general_ran:
  assumes "pool_inv s" "i \<in> busy s"
    and ran: "(if is_batch_job (workers s ! i) then worker_ran_batch (General i) s else worker_ran_command (General i) s) = Inr t"
  shows "length (workers t) = length (workers s)" "\<And>j. j \<noteq> i \<Longrightarrow> workers t ! j = workers s ! j"
    "idle_workers t = idle_workers s" "same_places s t" "pending_ok t = pending_ok s"
    "pool_active t = (pool_active s)(class_of (workers s ! i) := pool_active s (class_of (workers s ! i)) - 1)"
proof -
  have "length (workers t) = length (workers s) \<and> (\<forall>j. j \<noteq> i \<longrightarrow> workers t ! j = workers s ! j)
    \<and> idle_workers t = idle_workers s \<and> same_places s t \<and> pending_ok t = pending_ok s
    \<and> pool_active t = (pool_active s)(class_of (workers s ! i) := pool_active s (class_of (workers s ! i)) - 1)"
  proof (cases "is_batch_job (workers s ! i)")
    case True
    let ?r = "is_reply_job (workers s ! i)" and ?s = "worker_returned (General i) s"
    have returned: "?s = add_active_jobs ?r (- 1) s" by (simp add: worker_returned_def)
    from True ran obtain u where u: "outside_pool ?s u" "t = u \<or> (\<exists>run. t = set_run (General i) run u)"
      using worker_ran_batch_shape [of "General i" s t] by auto
    note parts = outside_pool_parts [OF u(1), unfolded returned]
    have k: "class_of (workers s ! i) = Jobs ?r" using True by (simp add: class_of_def)
    have "pending_ok u = pending_ok s"
      using outside_pool_pending [OF u(1)] by (simp add: returned add_active_jobs_places)
    moreover have "same_places s u"
      using parts(3) add_active_jobs_places(1) same_places_trans by blast
    ultimately show ?thesis
      using u(2) parts by (auto simp: k add_active_jobs_places set_run_places simp del: set_run.simps) 
  next
    case False
    with ran obtain n where n: "ri_cat (workers s ! i) = Some n"
      and t: "t = upd_cat n (\<lambda>c. c\<lparr>active_threads := active_threads c - 1\<rparr>) s"
      by (auto simp: worker_ran_command_def split: option.splits)
    have k: "class_of (workers s ! i) = Commands n" using False n by (simp add: class_of_def)
    have "Commands n \<in># busy_classes s"
      using assms(2) by (force simp: busy_classes_def k intro: image_eqI [of _ _ i])
    then have in_names: "n \<in> set (map fst (categories s))" and pos: "0 < active_threads (the_cat s n)"
      using assms(1) by (auto simp: pool_inv_def pool.within_def commands_in_classes simp del: set_map
          dest!: subsetD bspec [of _ _ "Commands n"])
    have "same_places s t" unfolding t same_places_def
      by (subst pool_reserved_upd_cat) simp_all
    moreover have "pool_active t = (pool_active s)(Commands n := pool_active s (Commands n) - 1)"
      unfolding t pool_active_cat [OF in_names, of "\<lambda>a. a - 1"] using pos by (auto simp: fun_eq_iff)
    ultimately show ?thesis by (simp add: k t pending_ok_def del: set_map)
  qed
  then show "length (workers t) = length (workers s)" "\<And>j. j \<noteq> i \<Longrightarrow> workers t ! j = workers s ! j"
    "idle_workers t = idle_workers s" "same_places s t" "pending_ok t = pending_ok s"
    "pool_active t = (pool_active s)(class_of (workers s ! i) := pool_active s (class_of (workers s ! i)) - 1)"
    by auto
qed

lemma pool_inv_worker_ran:
  assumes inv: "pool_inv s" "pending_ok s" and w: "worker_running w s" and ran: "worker_ran w route s = Inr s'"
    and tagged: "\<And>i. w = Tagged i \<Longrightarrow> is_batch_job (run_of w s)"
  shows "pool_inv s' \<and> pending_ok s'"
proof -
  from ran obtain t where t: "(if is_batch_job (run_of w s) then worker_ran_batch w s else worker_ran_command w s) = Inr t"
    and s': "s' = (if max_workers t = 0 then emit (Send_worker route ''QUIT'') t
        else case w of Tagged _ \<Rightarrow> t | General i \<Rightarrow> t\<lparr>idle_workers := idle_workers t @ [i]\<rparr>)"
    by (auto simp: worker_ran_def result_simps)
  show ?thesis
  proof (cases w)
    case (General i)
    note ran = general_ran [OF inv(1), of i t]
    from t w have g: "i \<in> busy s"
      "(if is_batch_job (workers s ! i) then worker_ran_batch (General i) s else worker_ran_command (General i) s) = Inr t"
      unfolding General by simp_all
    note ran = ran [OF g]
    have "max_workers t \<noteq> 0" using pool_inv_max [OF inv(1)] ran(4) by (simp add: same_places_def)
    then have "s' = t\<lparr>idle_workers := idle_workers t @ [i]\<rparr>" using s' General by simp
    then show ?thesis
      using pool_inv_finish [OF inv(1) g(1), of s'] ran inv(2) by (simp add: idle_update_places)
  next
    case (Tagged i)
    from t tagged [OF Tagged] obtain u where u: "outside_pool (worker_returned w s) u" "t = u \<or> (\<exists>run. t = set_run w run u)"
      using worker_ran_batch_shape [of w s t] by auto
    have "outside_pool s (worker_returned w s)" using Tagged by (simp add: worker_returned_def)
    with u Tagged have "outside_pool s t" by (auto intro: outside_pool_trans)
    moreover have "s' = t \<or> s' = emit (Send_worker route ''QUIT'') t" using s' Tagged by simp
    ultimately have out: "outside_pool s s'" by auto
    from outside_pool_inv [OF this] outside_pool_pending [OF this] inv show ?thesis by simp
  qed
qed

end
