(* ===== verification/Batch_Lifecycle.thy ===== *)
theory Batch_Lifecycle
  imports Worker_Pool
begin

text \<open>
  The life of a batch in the proxy: from the moment the proxy takes it over until it is freed,
  every job of it that has not ended is in exactly one queue or worker, and the batch is freed
  when none is left. This is what makes the raw \<^verbatim>\<open>Batch*\<close> pointers of the queues and
  of the run descriptions safe to follow.
\<close>

section \<open>Jobs in flight\<close>

definition jobs_of_run :: "run_info \<Rightarrow> batch_job multiset" where
  "jobs_of_run run =
     (if is_batch_job run then
        case to_run run of RunBatch (Some p) \<Rightarrow> {#(p, batch_jobno run)#} | _ \<Rightarrow> {#}
      else {#})"

definition running_jobs :: "sched \<Rightarrow> batch_job multiset" where
  "running_jobs s = (\<Sum>i\<in>busy s. jobs_of_run (workers s ! i))"

fun tagged_job :: "run_info \<times> bool \<times> batch_job list \<Rightarrow> batch_job multiset" where
  "tagged_job (run, b, queue) = (if b then jobs_of_run run else {#}) + mset queue"

definition tagged_jobs :: "(run_info \<times> bool \<times> batch_job list) list \<Rightarrow> batch_job multiset" where
  "tagged_jobs ts = sum_list (map tagged_job ts)"

definition in_flight :: "sched \<Rightarrow> batch_job multiset" where
  "in_flight s = mset (batch_jobs s) + mset (reply_jobs s) + running_jobs s + tagged_jobs (tagged_workers s)"

text \<open>
  A batch the proxy has taken over, with the multiset \<open>J\<close> of its jobs in flight: the numbers of
  the jobs are valid, the count of outstanding jobs is that of the jobs in flight, and the
  completion is in flight exactly when no job is outstanding any more.
\<close>

definition batch_at :: "job_batch \<Rightarrow> batch_job multiset \<Rightarrow> bool" where
  "batch_at b J \<longleftrightarrow>
     (\<forall>j\<in>#J. snd j = -1 \<or> 0 \<le> snd j \<and> nat (snd j) < length (b_jobs b))
     \<and> size {#j \<in># J. snd j \<noteq> -1#} = jobs_outstanding b
     \<and> size {#j \<in># J. snd j = -1#} = (if jobs_outstanding b = 0 then 1 else 0)
     \<and> (jobs_outstanding b = 0 \<longrightarrow> b_complete b \<noteq> None)
     \<and> (jobs_outstanding b \<noteq> 0 \<longrightarrow> length (b_results b) = length (b_jobs b))"

definition of_batch :: "ptr \<Rightarrow> batch_job multiset \<Rightarrow> batch_job multiset" where
  "of_batch p J = {#j \<in># J. fst j = p#}"

text \<open>A batch that is still with the thread that made it.\<close>

definition batch_new :: "job_batch \<Rightarrow> bool" where
  "batch_new b \<longleftrightarrow> batch_fresh b \<and> b_jobs b \<noteq> []"

definition threads_ok :: "sched \<Rightarrow> job_batch \<Rightarrow> bool" where
  "threads_ok s b \<longleftrightarrow> complete_in_thread b \<le> int (length (tagged_workers s))
     \<and> (\<forall>j\<in>set (b_jobs b). snd j \<le> int (length (tagged_workers s)))"

definition runs_batch :: "run_info \<Rightarrow> bool" where
  "runs_batch run \<longleftrightarrow> is_batch_job run \<and> (\<exists>p. to_run run = RunBatch (Some p))"

definition runs_ok :: "sched \<Rightarrow> bool" where
  "runs_ok s \<longleftrightarrow> (\<forall>i\<in>busy s. is_batch_job (workers s ! i) \<longrightarrow> runs_batch (workers s ! i))
     \<and> (\<forall>t\<in>set (tagged_workers s). fst (snd t) \<longrightarrow> runs_batch (fst t))"

definition batch_inv :: "sched \<Rightarrow> bool" where
  "batch_inv s \<longleftrightarrow> runs_ok s \<and> distinct (map fst (batch_heap s))
     \<and> (\<forall>j\<in>#in_flight s. fst j \<in> set (batches s))
     \<and> (\<forall>p\<in>set (batches s). \<exists>b. map_of (batch_heap s) p = Some b \<and> batch_at b (of_batch p (in_flight s)))
     \<and> (\<forall>p b. map_of (batch_heap s) p = Some b \<longrightarrow> threads_ok s b \<and> (p \<notin> set (batches s) \<longrightarrow> batch_new b))"

section \<open>Work that is started\<close>

lemma jobs_of_load [simp]:
  "jobs_of_run (load_batch_job j r t run) = {#j#}" "runs_batch (load_batch_job j r t run)"
  "jobs_of_run (load_pending p run) = {#}" "\<not> is_batch_job (load_pending p run)"
  by (simp_all add: jobs_of_run_def load_batch_job_def load_pending_def load_command_def load_injected_def run_reset_def
      runs_batch_def split: pending_callback.splits)

lemma joinable_irrelevant [simp]:
  "jobs_of_run (run\<lparr>thread_joinable := b\<rparr>) = jobs_of_run run" "runs_batch (run\<lparr>thread_joinable := b\<rparr>) = runs_batch run"
  by (auto simp: jobs_of_run_def runs_batch_def split: runnable.splits option.splits)

lemma running_jobs_start:
  assumes "idle_ok s" "\<And>run. jobs_of_run (load run) = J" "\<And>run. is_batch_job (load run) \<Longrightarrow> runs_batch (load run)"
    and s': "workers s' = workers (start_worker load s)" "idle_workers s' = idle_workers (start_worker load s)"
  shows "running_jobs s' = running_jobs s + J"
    and "\<forall>i\<in>busy s. is_batch_job (workers s ! i) \<longrightarrow> runs_batch (workers s ! i)
      \<Longrightarrow> \<forall>i\<in>busy s'. is_batch_job (workers s' ! i) \<longrightarrow> runs_batch (workers s' ! i)"
proof -
  obtain w run e where w: "w \<notin> busy s" "idle_ok (start_worker load s)"
    "busy (start_worker load s) = insert w (busy s)" "w < length (workers (start_worker load s))"
    "workers (start_worker load s) ! w = (load run)\<lparr>thread_joinable := e\<rparr>"
    "\<And>i. i \<in> busy s \<Longrightarrow> workers (start_worker load s) ! i = workers s ! i"
    "length (workers (start_worker load s)) = (if idle_workers s = [] then Suc (length (workers s)) else length (workers s))"
    "\<exists>ws is ev. start_worker load s = emit ev (s\<lparr>workers := ws, idle_workers := is\<rparr>)"
    by (rule start_worker_shape [OF assms(1), of load]) (rule that)
  have busy': "busy s' = insert w (busy s)" using w(3) s' by (simp add: busy_def)
  have "(\<Sum>i\<in>busy s. jobs_of_run (workers s' ! i)) = running_jobs s"
    unfolding running_jobs_def by (rule sum.cong) (simp_all add: s'(1) w(6))
  then show "running_jobs s' = running_jobs s + J"
    using w(1,5) assms(2) by (simp add: running_jobs_def [of s'] busy' s'(1))
  show "\<forall>i\<in>busy s'. is_batch_job (workers s' ! i) \<longrightarrow> runs_batch (workers s' ! i)"
    if "\<forall>i\<in>busy s. is_batch_job (workers s ! i) \<longrightarrow> runs_batch (workers s ! i)"
    using that w(5,6) assms(3) by (auto simp: busy' s'(1))
qed

text \<open>What a batch depends on beside the workers.\<close>

definition same_batches :: "sched \<Rightarrow> sched \<Rightarrow> bool" where
  "same_batches s s' \<longleftrightarrow> batch_heap s' = batch_heap s \<and> batches s' = batches s
     \<and> length (tagged_workers s') = length (tagged_workers s)"

definition batch_part :: "sched \<Rightarrow> _" where
  "batch_part s = (workers s, idle_workers s, tagged_workers s, batch_heap s, batches s, batch_jobs s, reply_jobs s)"

lemma batch_part_cong:
  assumes "batch_part s' = batch_part s"
  shows "batch_inv s' = batch_inv s" "in_flight s' = in_flight s"
proof -
  have "busy s' = busy s" using assms by (simp add: batch_part_def busy_def)
  with assms have "runs_ok s' = runs_ok s" "threads_ok s' = threads_ok s" "batch_heap s' = batch_heap s" "batches s' = batches s"
    and flight: "in_flight s' = in_flight s"
    by (simp_all add: batch_part_def runs_ok_def threads_ok_def fun_eq_iff in_flight_def running_jobs_def)
  then show "batch_inv s' = batch_inv s" by (simp only: batch_inv_def)
  show "in_flight s' = in_flight s" by (fact flight)
qed

lemma batch_inv_cong:
  assumes "batch_inv s" "same_batches s s'" "in_flight s' = in_flight s" "runs_ok s'"
  shows "batch_inv s'"
  using assms unfolding batch_inv_def same_batches_def threads_ok_def by (elim conjE) (intro conjI; simp only: simp_thms)

lemma batch_inv_start_job:
  assumes "batch_inv s" "idle_ok s" "queued_jobs r s = j # js"
  shows "batch_inv (start_job r j js s)"
proof -
  let ?s' = "start_job r j js s"
  have run: "workers ?s' = workers (start_worker (load_batch_job j r 0) s)"
    "idle_workers ?s' = idle_workers (start_worker (load_batch_job j r 0) s)"
    and rest: "same_batches s ?s'" "tagged_workers ?s' = tagged_workers s"
    by (simp_all add: start_job_def add_active_jobs_def set_queued_jobs_def same_batches_def)
  note start = running_jobs_start [of s "load_batch_job j r 0" "{#j#}" ?s', OF assms(2) _ _ run]
  have "in_flight ?s' = in_flight s"
    using assms(3) start(1) rest(2)
    by (auto simp: in_flight_def start_job_def add_active_jobs_def set_queued_jobs_def queued_jobs_def split: if_splits)
  moreover have "runs_ok ?s'"
    using assms(1) start(2) rest(2) by (auto simp: batch_inv_def runs_ok_def)
  ultimately show ?thesis using assms(1) rest(1) by - (rule batch_inv_cong [of s ?s'])
qed

lemma batch_inv_start_command:
  assumes "batch_inv s" "idle_ok s"
    and s': "workers s' = workers (start_worker (load_pending p) s)" "idle_workers s' = idle_workers (start_worker (load_pending p) s)"
      "same_batches s s'" "tagged_workers s' = tagged_workers s" "batch_jobs s' = batch_jobs s" "reply_jobs s' = reply_jobs s"
  shows "batch_inv s'"
proof -
  note start = running_jobs_start [of s "load_pending p" "{#}" s', OF assms(2) _ _ s'(1,2)]
  have "in_flight s' = in_flight s" using start(1) s' by (simp add: in_flight_def)
  moreover have "runs_ok s'" using assms(1) start(2) s'(4) by (auto simp: batch_inv_def runs_ok_def)
  ultimately show ?thesis using assms(1) s'(3) by - (rule batch_inv_cong [of s s'])
qed

text \<open>One round of the loop over the tagged threads.\<close>

lemma run_tagged_loop_round:
  obtains t' e where "run_tagged_loop ((run, bs, queue) # ts) s
      = (t' # fst (run_tagged_loop ts (s\<lparr>worker_events := worker_events s @ e\<rparr>)),
         snd (run_tagged_loop ts (s\<lparr>worker_events := worker_events s @ e\<rparr>)))"
    "tagged_job t' = tagged_job (run, bs, queue)" "fst (snd t') \<Longrightarrow> (bs \<longrightarrow> runs_batch run) \<Longrightarrow> runs_batch (fst t')"
proof (cases "\<not> bs \<and> queue \<noteq> []")
  case True
  let ?load = "load_batch_job (hd queue) False (int (worker_id run)) run"
  obtain e where e: "snd (proxy_run_worker ?load s) = emit e s" using proxy_run_worker_event by blast
  obtain b where b: "fst (proxy_run_worker ?load s) = ?load\<lparr>thread_joinable := b\<rparr>" using proxy_run_worker_run by blast
  have "mset queue = add_mset (hd queue) (mset (tl queue))" using True by (cases queue) simp_all
  then show thesis
    using True e b by (intro that [of "(?load\<lparr>thread_joinable := b\<rparr>, True, tl queue)" "[e]"])
      (simp_all add: split_beta emit_def)
next
  case False
  then show thesis by (intro that [of "(run, bs, queue)" "[]"]) (simp_all add: split_beta)
qed

lemma run_tagged_loop_jobs:
  "tagged_jobs (fst (run_tagged_loop ts s)) = tagged_jobs ts \<and> length (fst (run_tagged_loop ts s)) = length ts
   \<and> ((\<forall>t\<in>set ts. fst (snd t) \<longrightarrow> runs_batch (fst t))
      \<longrightarrow> (\<forall>t\<in>set (fst (run_tagged_loop ts s)). fst (snd t) \<longrightarrow> runs_batch (fst t)))
   \<and> (\<exists>es. snd (run_tagged_loop ts s) = s\<lparr>worker_events := worker_events s @ es\<rparr>)"
proof (induction ts arbitrary: s)
  case Nil
  have "s = s\<lparr>worker_events := worker_events s @ []\<rparr>" by simp
  then show ?case by (metis fst_conv run_tagged_loop.simps(1) snd_conv)
next
  case (Cons t ts)
  obtain run b queue where t: "t = (run, b, queue)" by (cases t)
  obtain t' e where round: "run_tagged_loop ((run, b, queue) # ts) s
      = (t' # fst (run_tagged_loop ts (s\<lparr>worker_events := worker_events s @ e\<rparr>)),
         snd (run_tagged_loop ts (s\<lparr>worker_events := worker_events s @ e\<rparr>)))"
    "tagged_job t' = tagged_job (run, b, queue)" "fst (snd t') \<Longrightarrow> (b \<longrightarrow> runs_batch run) \<Longrightarrow> runs_batch (fst t')"
    by (rule run_tagged_loop_round [of run b queue ts s]) (rule that)
  note IH = Cons.IH [of "s\<lparr>worker_events := worker_events s @ e\<rparr>"]
  obtain es where es: "snd (run_tagged_loop ts (s\<lparr>worker_events := worker_events s @ e\<rparr>))
      = s\<lparr>worker_events := worker_events s @ e @ es\<rparr>"
    using IH by auto
  then have "\<exists>es. snd (run_tagged_loop (t # ts) s) = s\<lparr>worker_events := worker_events s @ es\<rparr>"
    unfolding t round(1) by (intro exI [of _ "e @ es"]) simp
  moreover have "\<forall>t\<in>set (fst (run_tagged_loop (t # ts) s)). fst (snd t) \<longrightarrow> runs_batch (fst t)"
    if "\<forall>t\<in>set (t # ts). fst (snd t) \<longrightarrow> runs_batch (fst t)"
    using that IH round(3) unfolding t round(1) by simp
  moreover have "tagged_jobs (fst (run_tagged_loop (t # ts) s)) = tagged_jobs (t # ts)"
    "length (fst (run_tagged_loop (t # ts) s)) = length (t # ts)"
    using IH round(2) unfolding t round(1) by (simp_all add: tagged_jobs_def)
  ultimately show ?case by blast
qed

lemma batch_inv_run_tagged:
  assumes "batch_inv s"
  shows "batch_inv (run_tagged_workers s)"
proof -
  define ts where "ts = fst (run_tagged_loop (tagged_workers s) s)"
  note jobs = run_tagged_loop_jobs [of "tagged_workers s" s, folded ts_def]
  from jobs obtain es where "snd (run_tagged_loop (tagged_workers s) s) = s\<lparr>worker_events := worker_events s @ es\<rparr>"
    by blast
  then have run: "run_tagged_workers s = s\<lparr>worker_events := worker_events s @ es, tagged_workers := ts\<rparr>"
    by (simp add: run_tagged_workers_def split_beta ts_def)
  from jobs have same: "tagged_jobs ts = tagged_jobs (tagged_workers s)" "length ts = length (tagged_workers s)"
    by blast+
  have "runs_ok s" using assms by (simp add: batch_inv_def)
  with jobs have "\<forall>t\<in>set ts. fst (snd t) \<longrightarrow> runs_batch (fst t)" by (simp add: runs_ok_def)
  with \<open>runs_ok s\<close> have "runs_ok (run_tagged_workers s)" by (simp add: run runs_ok_def busy_def)
  then show ?thesis
    using assms same by - (rule batch_inv_cong [of s], simp_all add: run in_flight_def running_jobs_def busy_def same_batches_def)
qed

text \<open>The loops of \<open>proxy_process_queue\<close>; they need the idle workers in order, which they keep.\<close>

definition sched_inv :: "sched \<Rightarrow> bool" where
  "sched_inv s \<longleftrightarrow> pool_inv s \<and> pending_ok s \<and> batch_inv s"

lemma queued_start_job: "queued_jobs r (start_job r j js s) = js"
  by (simp add: start_job_def queued_jobs_def set_queued_jobs_def add_active_jobs_def)

lemma batch_inv_run_batch_jobs:
  "pool_inv s \<Longrightarrow> batch_inv s \<Longrightarrow> queued_jobs r s = js \<Longrightarrow> batch_inv (run_batch_jobs_loop r js s)"
proof (induction r js s rule: run_batch_jobs_loop.induct)
  case (2 r j js s)
  then have "batch_inv (start_job r j js s)"
    by (intro batch_inv_start_job) (simp_all add: pool_inv_def)
  with 2 show ?case using pool_inv_start_job [of s r j js] queued_start_job by simp
qed simp

lemma batch_inv_run_pending:
  "pool_inv s \<Longrightarrow> \<forall>p\<in>set ps. pc_cat p \<in> set (map fst (categories s)) \<Longrightarrow> batch_inv s
     \<Longrightarrow> batch_inv (snd (run_pending_loop ps s))"
proof (induction ps s rule: run_pending_loop.induct)
  case (2 p ps s)
  have names: "\<forall>p\<in>set ps. pc_cat p \<in> set (map fst (categories (start_pending p s)))"
    using 2(4) by (simp del: set_map)
  have "batch_inv (start_pending p s)"
    using 2(3,5) by - (rule batch_inv_start_command [of s _ p], simp_all add: pool_inv_def start_pending_def same_batches_def)
  with 2 names pool_inv_start_pending [of s p] show ?case
    by (auto simp: split_beta simp del: set_map)
qed simp

lemma sched_inv_process_queue:
  assumes "sched_inv s"
  shows "sched_inv (proxy_process_queue s)"
proof (cases "max_workers s = 0")
  case False
  let ?t1 = "run_tagged_workers s" and ?t = "after_jobs s"
  have t1: "pool_inv ?t1" "batch_inv ?t1"
    using assms batch_inv_run_tagged [of s] pool_inv_cong [OF run_tagged_workers_part, of s] by (simp_all add: sched_inv_def)
  let ?t2 = "proxy_run_batch_jobs False ?t1"
  have t2: "pool_inv ?t2" "batch_inv ?t2"
    using t1 by (simp_all add: proxy_run_batch_jobs_def pool_inv_run_batch_jobs batch_inv_run_batch_jobs)
  have t: "pool_inv ?t" "batch_inv ?t"
    using t2 by (simp_all add: after_jobs_def proxy_run_batch_jobs_def [of True] pool_inv_run_batch_jobs batch_inv_run_batch_jobs)
  let ?u = "snd (run_pending_loop (pending_commands ?t) ?t)"
  have "batch_inv ?u"
    using t assms by (intro batch_inv_run_pending) (simp_all add: sched_inv_def pending_ok_def after_jobs_frame del: set_map)
  moreover have "proxy_process_queue s = ?u\<lparr>pending_commands := fst (run_pending_loop (pending_commands ?t) ?t)\<rparr>"
    using False by (simp add: proxy_process_queue_def after_jobs_def run_pending_commands_def Let_def split_beta)
  then have "batch_part (proxy_process_queue s) = batch_part ?u" by (simp add: batch_part_def)
  note batch_part_cong(1) [OF this]
  ultimately have "batch_inv (proxy_process_queue s)" by simp
  with assms pool_inv_process_queue [of s] show ?thesis by (simp add: sched_inv_def)
qed (use assms in \<open>simp add: proxy_process_queue_def\<close>)

lemma sched_inv_run_or_queue:
  assumes "sched_inv s" "pc_cat p \<in> set (map fst (categories s))"
  shows "sched_inv (run_or_queue p s)"
proof -
  have inv: "pool_inv s" "pending_ok s" "batch_inv s" "idle_ok s" using assms(1) by (simp_all add: sched_inv_def pool_inv_def)
  have "batch_inv (run_or_queue p s)"
  proof (cases "slot_free (pc_cat p) s")
    case True
    then show ?thesis
      using inv by - (rule batch_inv_start_command [of s _ p], simp_all add: run_or_queue_def same_batches_def)
  next
    case False
    then have "batch_part (run_or_queue p s) = batch_part s" by (simp add: run_or_queue_def batch_part_def)
    from batch_part_cong(1) [OF this] inv show ?thesis by simp
  qed
  with pool_inv_run_or_queue [OF inv(1,2) assms(2)] show ?thesis by (simp add: sched_inv_def)
qed

section \<open>The end of a job\<close>

text \<open>The counts of a batch when one of its jobs, or its completion, leaves the jobs in flight.\<close>

lemma filter_empty_size: "size (filter_mset P K) = 0 \<Longrightarrow> x \<in># K \<Longrightarrow> \<not> P x"
  by (metis count_filter_mset count_greater_zero_iff nonempty_has_size size_eq_0_iff_empty filter_mset_eq_conv
      filter_mset_False set_mset_filter mem_Collect_eq empty_iff set_mset_empty)

lemma batch_at_more:
  assumes "batch_at b (add_mset j K)" "snd j \<noteq> -1" "jobs_outstanding b \<noteq> 1"
  shows "batch_at (b\<lparr>jobs_outstanding := jobs_outstanding b - 1\<rparr>) K"
  using assms by (auto simp: batch_at_def split: if_splits)

lemma batch_at_last:
  assumes "batch_at b (add_mset j K)" "snd j \<noteq> -1" "jobs_outstanding b = 1"
  shows "K = {#}"
proof -
  from assms have "size {#x \<in># K. snd x \<noteq> -1#} = 0" "size {#x \<in># K. snd x = -1#} = 0"
    by (auto simp: batch_at_def)
  then have "\<not> snd x \<noteq> -1 \<and> \<not> snd x = -1" if "x \<in># K" for x
    using that filter_empty_size [of "\<lambda>x. snd x \<noteq> -1" K x] filter_empty_size [of "\<lambda>x. snd x = -1" K x] by blast
  then show ?thesis by (meson multiset_nonemptyE)
qed

lemma batch_at_completion:
  assumes "batch_at b (add_mset j K)" "snd j = -1"
  shows "K = {#}"
proof -
  from assms have "jobs_outstanding b = 0" by (auto simp: batch_at_def split: if_splits)
  with assms have "size {#x \<in># K. snd x \<noteq> -1#} = 0" "size {#x \<in># K. snd x = -1#} = 0"
    by (auto simp: batch_at_def)
  then have "\<not> snd x \<noteq> -1 \<and> \<not> snd x = -1" if "x \<in># K" for x
    using that filter_empty_size [of "\<lambda>x. snd x \<noteq> -1" K x] filter_empty_size [of "\<lambda>x. snd x = -1" K x] by blast
  then show ?thesis by (meson multiset_nonemptyE)
qed

lemma batch_at_complete:
  assumes "batch_at b (add_mset j K)" "snd j \<noteq> -1" "jobs_outstanding b = 1" "b_complete b \<noteq> None"
  shows "batch_at (b\<lparr>jobs_outstanding := 0\<rparr>) {#(p, -1)#}"
  using assms by (simp add: batch_at_def)

lemma batch_at_outstanding: "batch_at b (add_mset j K) \<Longrightarrow> snd j \<noteq> -1 \<Longrightarrow> jobs_outstanding b \<noteq> 0"
  by (auto simp: batch_at_def)

text \<open>What is queued: everything in flight but what the general workers run.\<close>

definition queue_part :: "sched \<Rightarrow> batch_job multiset" where
  "queue_part s = mset (batch_jobs s) + mset (reply_jobs s) + tagged_jobs (tagged_workers s)"

lemma in_flight_parts: "in_flight s = queue_part s + running_jobs s"
  by (simp add: in_flight_def queue_part_def)

lemma tagged_jobs_update:
  "i < length ts \<Longrightarrow> tagged_jobs (ts[i := t]) + tagged_job (ts ! i) = tagged_jobs ts + tagged_job t"
proof (induction ts arbitrary: i)
  case (Cons u us)
  show ?case
  proof (cases i)
    case (Suc k)
    with Cons show ?thesis by (simp add: tagged_jobs_def add.assoc add.left_commute)
  qed (simp add: tagged_jobs_def)
qed simp

lemma push_tagged_shape:
  assumes "push_tagged i j s = Inr s'"
  obtains k run b q where "k < length (tagged_workers s)" "tagged_workers s ! k = (run, b, q)"
    "s' = s\<lparr>tagged_workers := (tagged_workers s)[k := (run, b, q @ [j])]\<rparr>"
proof -
  obtain run b q where t: "tagged_workers s ! (i - 1) = (run, b, q)" by (cases "tagged_workers s ! (i - 1)")
  with assms show thesis by (intro that [of "i - 1" run b q]) (auto simp: push_tagged_def split: if_splits)
qed

lemma queue_part_push:
  "queue_part (push_job r j s) = add_mset j (queue_part s)"
  "push_tagged i j s = Inr s' \<Longrightarrow> queue_part s' = add_mset j (queue_part s)"
proof -
  show "queue_part (push_job r j s) = add_mset j (queue_part s)"
    by (simp add: queue_part_def push_job_def set_queued_jobs_def queued_jobs_def)
  show "queue_part s' = add_mset j (queue_part s)" if push: "push_tagged i j s = Inr s'"
  proof -
    obtain k run b q where k: "k < length (tagged_workers s)" "tagged_workers s ! k = (run, b, q)"
      and s': "s' = s\<lparr>tagged_workers := (tagged_workers s)[k := (run, b, q @ [j])]\<rparr>"
      by (rule push_tagged_shape [OF push])
    have "tagged_jobs ((tagged_workers s)[k := (run, b, q @ [j])]) + tagged_job (run, b, q)
        = add_mset j (tagged_jobs (tagged_workers s)) + tagged_job (run, b, q)"
      using tagged_jobs_update [OF k(1), of "(run, b, q @ [j])"] by (simp add: k(2))
    then have "tagged_jobs ((tagged_workers s)[k := (run, b, q @ [j])]) = add_mset j (tagged_jobs (tagged_workers s))"
      by (simp only: add_right_cancel)
    then show ?thesis by (simp add: queue_part_def s')
  qed
qed

text \<open>The part of the state that the end of a job leaves alone: all but the queues and the heap.\<close>

definition same_runs :: "sched \<Rightarrow> sched \<Rightarrow> bool" where
  "same_runs s s' \<longleftrightarrow> workers s' = workers s \<and> idle_workers s' = idle_workers s \<and> batches s' = batches s
     \<and> map (\<lambda>t. (fst t, fst (snd t))) (tagged_workers s') = map (\<lambda>t. (fst t, fst (snd t))) (tagged_workers s)"

lemma same_runs_push:
  "same_runs s (push_job r j s)" "push_tagged i j s = Inr s' \<Longrightarrow> same_runs s s'" "same_runs s (set_object p b s)"
proof -
  show "same_runs s s'" if push: "push_tagged i j s = Inr s'"
  proof -
    obtain k run b q where k: "k < length (tagged_workers s)" "tagged_workers s ! k = (run, b, q)"
      and s': "s' = s\<lparr>tagged_workers := (tagged_workers s)[k := (run, b, q @ [j])]\<rparr>"
      by (rule push_tagged_shape [OF push])
    have "map (\<lambda>t. (fst t, fst (snd t))) ((tagged_workers s)[k := (run, b, q @ [j])])
        = (map (\<lambda>t. (fst t, fst (snd t))) (tagged_workers s))[k := (run, b)]"
      by (simp add: map_update)
    also have "\<dots> = map (\<lambda>t. (fst t, fst (snd t))) (tagged_workers s)"
      by (rule list_update_same_conv [THEN iffD2]) (use k in simp_all)
    finally show ?thesis by (simp add: same_runs_def s')
  qed
qed (simp_all add: same_runs_def push_job_def set_queued_jobs_def set_object_def)

lemma same_runs_trans: "same_runs s t \<Longrightarrow> same_runs t u \<Longrightarrow> same_runs s u"
  by (simp add: same_runs_def)

lemma same_runs_length: "same_runs s s' \<Longrightarrow> length (tagged_workers s') = length (tagged_workers s)"
  unfolding same_runs_def by (elim conjE) (drule map_eq_imp_length_eq)

lemma map_of_set_object:
  "map_of (batch_heap (set_object p b s)) q = (if q = p \<and> map_of (batch_heap s) p \<noteq> None then Some b else map_of (batch_heap s) q)"
proof -
  have "map_of (map (\<lambda>(k, c). (k, if k = p then b else c)) h) q
      = (if q = p \<and> map_of h p \<noteq> None then Some b else map_of h q)" for h
    by (induction h) auto
  then show ?thesis by (simp add: set_object_def)
qed

lemma distinct_set_object [simp]: "map fst (batch_heap (set_object p b s)) = map fst (batch_heap s)"
  by (simp add: set_object_def case_prod_unfold comp_def)

lemma set_object_parts [simp]:
  "batches (set_object p b s) = batches s" "queue_part (set_object p b s) = queue_part s"
  "tagged_workers (set_object p b s) = tagged_workers s" "workers (set_object p b s) = workers s"
  "idle_workers (set_object p b s) = idle_workers s" "batch_jobs (set_object p b s) = batch_jobs s"
  "reply_jobs (set_object p b s) = reply_jobs s"
  by (simp_all add: set_object_def queue_part_def)

lemma call_completion_parts [simp]:
  "batch_part (call_completion c rs s) = batch_part s"
  by (simp add: call_completion_def batch_part_def Let_def split: completion_fn.splits)

text \<open>
  The outcome of \<open>batch_job_done\<close> for a batch that is there: the batch is left with one job
  less, is at its end, or has its completion queued.
\<close>

lemma batch_job_done_cases:
  assumes heap: "map_of (batch_heap s) p = Some b" and thr: "threads_ok s b"
    and out: "batch_jobno (run_of w s) \<noteq> -1 \<Longrightarrow> jobs_outstanding b \<noteq> 0"
  obtains (completed) "batch_jobno (run_of w s) = -1" "batch_job_done w p s = Inr (True, s)"
  | (more) "batch_jobno (run_of w s) \<noteq> -1" "jobs_outstanding b \<noteq> 1"
      "batch_job_done w p s = Inr (False, set_object p (b\<lparr>jobs_outstanding := jobs_outstanding b - 1\<rparr>) s)"
  | (ended) b' u where "batch_jobno (run_of w s) \<noteq> -1" "jobs_outstanding b = 1"
      "batch_job_done w p s = Inr (True, u)" "batch_part u = batch_part (set_object p b' s)"
  | (complete) u where "batch_jobno (run_of w s) \<noteq> -1" "jobs_outstanding b = 1" "b_complete b \<noteq> None"
      "batch_job_done w p s = Inr (False, u)" "queue_part u = add_mset (p, -1) (queue_part s)"
      "same_runs s u" "batch_heap u = batch_heap (set_object p (b\<lparr>jobs_outstanding := 0\<rparr>) s)"
proof -
  let ?b = "b\<lparr>jobs_outstanding := jobs_outstanding b - 1\<rparr>"
  let ?s = "set_object p ?b s"
  show thesis
  proof (cases "batch_jobno (run_of w s) = -1")
    case True
    then show thesis using completed heap by (simp add: batch_job_done_def)
  next
    case job: False
    note finished = job_finished_def Let_def
    show thesis
    proof (cases "jobs_outstanding b = 1")
      case False
      then show thesis using more job heap out by (simp add: batch_job_done_def finished)
    next
      case last: True
      show thesis
      proof (cases "b_complete b")
        case None
        then show thesis
          using ended [of ?s ?b] job heap last by (simp add: batch_job_done_def finished)
      next
        case (Some c)
        consider "complete_in_thread b = -1" | "0 < complete_in_thread b" | "complete_in_thread b \<noteq> -1" "complete_in_thread b \<le> 0"
          by linarith
        then show thesis
        proof cases
          case 1
          then show thesis
            using ended [of "call_completion c (b_results b) (set_object p (b\<lparr>jobs_outstanding := 0, b_results := []\<rparr>) ?s)"
                "b\<lparr>jobs_outstanding := 0, b_results := []\<rparr>"] job heap last Some
            by (simp add: batch_job_done_def finished job_completion_def)
              (simp add: batch_part_def set_object_def case_prod_unfold comp_def)
        next
          case 2
          then obtain u where u: "push_tagged (nat (complete_in_thread b)) (p, -1) ?s = Inr u"
            using thr by (simp add: threads_ok_def push_tagged_def nat_le_iff)
          have "batch_heap u = batch_heap ?s" using u by (auto simp: push_tagged_def split: if_splits)
          moreover have "same_runs s u"
            using same_runs_push(2) [OF u] same_runs_push(3) same_runs_trans by blast
          moreover have "batch_job_done w p s = Inr (False, u)"
            using job heap last Some 2 u by (simp add: batch_job_done_def finished)
          ultimately show thesis
            using complete [of u] job last Some queue_part_push(2) [OF u] by simp
        next
          case 3
          let ?u = "push_job (is_reply_job (run_of w ?s)) (p, -1) ?s"
          have "same_runs s ?u" using same_runs_push(1,3) same_runs_trans by blast
          moreover have "batch_job_done w p s = Inr (False, ?u)"
            using job heap last Some 3 by (simp add: batch_job_done_def finished)
          moreover have "batch_heap ?u = batch_heap ?s" by (simp add: push_job_def set_queued_jobs_def)
          ultimately show thesis
            using complete [of ?u] job last Some by (simp add: queue_part_push)
        qed
      qed
    qed
  qed
qed

section \<open>A worker that has run a job\<close>

fun worker_index :: "worker_ref \<Rightarrow> nat set" where
  "worker_index (General i) = {i}"
| "worker_index (Tagged i) = {}"

definition other_runs :: "worker_ref \<Rightarrow> sched \<Rightarrow> batch_job multiset" where
  "other_runs w s = (\<Sum>i\<in>busy s - worker_index w. jobs_of_run (workers s ! i))"

text \<open>What is in flight beside the job of a running worker.\<close>

lemma in_flight_without:
  assumes "worker_running w s"
  shows "in_flight s = jobs_of_run (run_of w s) + (queue_part (worker_returned w s) + other_runs w s)"
proof (cases w)
  case (General i)
  then have "i \<in> busy s" using assms by simp
  then have "running_jobs s = jobs_of_run (workers s ! i) + other_runs w s"
    by (simp add: running_jobs_def other_runs_def General sum.remove)
  moreover have "queue_part (worker_returned w s) = queue_part s"
    by (simp add: General worker_returned_def add_active_jobs_def queue_part_def)
  ultimately show ?thesis by (simp add: in_flight_parts General add.left_commute)
next
  case (Tagged i)
  obtain k run q where k: "k = i - 1" "k < length (tagged_workers s)" "tagged_workers s ! k = (run, True, q)"
    using assms Tagged by (cases "tagged_workers s ! (i - 1)") auto
  have returned: "worker_returned w s = s\<lparr>tagged_workers := (tagged_workers s)[k := (run, False, q)]\<rparr>"
    using k by (simp add: Tagged worker_returned_def)
  have "tagged_jobs (tagged_workers s) + mset q = tagged_jobs ((tagged_workers s)[k := (run, False, q)]) + jobs_of_run run + mset q"
    using tagged_jobs_update [OF k(2), of "(run, False, q)"] by (simp add: k(3) add.assoc)
  then have "tagged_jobs (tagged_workers s) = tagged_jobs ((tagged_workers s)[k := (run, False, q)]) + jobs_of_run run"
    by (simp only: add_right_cancel)
  moreover have "run_of w s = run" using k by (simp add: Tagged)
  moreover have "running_jobs s = other_runs w s" by (simp add: running_jobs_def other_runs_def Tagged)
  ultimately show ?thesis by (simp add: in_flight_parts queue_part_def returned ac_simps)
qed

definition make_idle :: "worker_ref \<Rightarrow> sched \<Rightarrow> sched" where
  "make_idle w s = (case w of Tagged _ \<Rightarrow> s | General i \<Rightarrow> s\<lparr>idle_workers := idle_workers s @ [i]\<rparr>)"

lemma returned_runs:
  "workers (worker_returned w s) = workers s" "idle_workers (worker_returned w s) = idle_workers s"
  "batches (worker_returned w s) = batches s" "batch_heap (worker_returned w s) = batch_heap s"
  "length (tagged_workers (worker_returned w s)) = length (tagged_workers s)"
  "batch_jobno (run_of w (worker_returned w s)) = batch_jobno (run_of w s)"
  by (auto simp: worker_returned_def add_active_jobs_def split: worker_ref.splits prod.splits)
    (metis (no_types, lifting) fst_conv list_update_beyond not_le nth_list_update_eq)+

lemma set_run_idle_tagged:
  assumes "k < length ts" "\<not> fst (snd (ts ! k))"
  shows "tagged_jobs (ts[k := (run, snd (ts ! k))]) = tagged_jobs ts"
proof -
  have "tagged_job (run, snd (ts ! k)) = tagged_job (ts ! k)"
    using assms(2) by (cases "ts ! k") auto
  with tagged_jobs_update [OF assms(1), of "(run, snd (ts ! k))"] show ?thesis by simp
qed

lemma same_runs_nth:
  assumes "same_runs s u" "k < length (tagged_workers s)"
  shows "fst (tagged_workers u ! k) = fst (tagged_workers s ! k)" "fst (snd (tagged_workers u ! k)) = fst (snd (tagged_workers s ! k))"
proof -
  have "map (\<lambda>t. (fst t, fst (snd t))) (tagged_workers u) ! k = map (\<lambda>t. (fst t, fst (snd t))) (tagged_workers s) ! k"
    using assms(1) by (simp add: same_runs_def)
  with assms same_runs_length [OF assms(1)]
  show "fst (tagged_workers u ! k) = fst (tagged_workers s ! k)" "fst (snd (tagged_workers u ! k)) = fst (snd (tagged_workers s ! k))"
    by simp_all
qed

lemma delete_batch_parts [simp]:
  "workers (delete_batch p s) = workers s" "idle_workers (delete_batch p s) = idle_workers s"
  "tagged_workers (delete_batch p s) = tagged_workers s" "queue_part (delete_batch p s) = queue_part s"
  by (simp_all add: delete_batch_def queue_part_def)

text \<open>After the worker is given back, what is in flight is what is queued and what the others run.\<close>

lemma make_idle_general:
  assumes "i \<in> busy s" "workers u = workers s" "idle_workers u = idle_workers s" "tagged_workers u = ts"
    and v: "v = u \<or> v = set_run (General i) run (delete_batch p u)"
  shows "in_flight (make_idle (General i) v) = queue_part u + other_runs (General i) s"
    and "busy (make_idle (General i) v) = busy s - {i}" "tagged_workers (make_idle (General i) v) = ts"
    and "\<And>j. j \<in> busy s - {i} \<Longrightarrow> workers (make_idle (General i) v) ! j = workers s ! j"
proof -
  let ?v = "make_idle (General i) v"
  show busy': "busy ?v = busy s - {i}" and "tagged_workers ?v = ts"
    using assms by (auto simp: make_idle_def busy_def)
  show runs: "workers ?v ! j = workers s ! j" if "j \<in> busy s - {i}" for j
    using v assms(2) that by (auto simp: make_idle_def)
  have "queue_part ?v = queue_part u" using v by (auto simp: make_idle_def queue_part_def delete_batch_def)
  moreover have "running_jobs ?v = other_runs (General i) s"
    unfolding running_jobs_def other_runs_def busy' by (rule sum.cong) (simp_all add: runs)
  ultimately show "in_flight ?v = queue_part u + other_runs (General i) s" by (simp add: in_flight_parts)
qed

lemma make_idle_tagged:
  assumes w: "worker_running (Tagged i) s" and u: "same_runs (worker_returned (Tagged i) s) u"
    and v: "v = u \<or> v = set_run (Tagged i) run (delete_batch p u)"
  shows "in_flight v = queue_part u + other_runs (Tagged i) s" "workers v = workers s" "idle_workers v = idle_workers s"
    and "(\<forall>t\<in>set (tagged_workers s). fst (snd t) \<longrightarrow> runs_batch (fst t))
      \<Longrightarrow> (\<forall>t\<in>set (tagged_workers v). fst (snd t) \<longrightarrow> runs_batch (fst t))"
proof -
  obtain k r q where k: "k = i - 1" "k < length (tagged_workers s)" "tagged_workers s ! k = (r, True, q)"
    using w by (cases "tagged_workers s ! (i - 1)") auto
  have returned: "tagged_workers (worker_returned (Tagged i) s) = (tagged_workers s)[k := (r, False, q)]"
    using k by (simp add: worker_returned_def)
  have len: "length (tagged_workers u) = length (tagged_workers s)"
    using same_runs_length [OF u] by (simp add: returned)
  have flag: "\<not> fst (snd (tagged_workers u ! k))"
    using same_runs_nth [OF u, of k] k(2) by (simp add: returned)
  have v': "v = u \<or> v = (delete_batch p u)\<lparr>tagged_workers := (tagged_workers u)[k := (run, snd (tagged_workers u ! k))]\<rparr>"
    using v k(1) by simp
  show same: "workers v = workers s" "idle_workers v = idle_workers s"
    using v' u by (auto simp: same_runs_def returned_runs)
  have "queue_part v = queue_part u"
    using v' set_run_idle_tagged [of k "tagged_workers u" run] flag k(2) len by (auto simp: queue_part_def delete_batch_def)
  moreover have "running_jobs v = other_runs (Tagged i) s"
    by (simp add: running_jobs_def other_runs_def busy_def same)
  ultimately show "in_flight v = queue_part u + other_runs (Tagged i) s" by (simp add: in_flight_parts)
  show "\<forall>t\<in>set (tagged_workers v). fst (snd t) \<longrightarrow> runs_batch (fst t)"
    if ok: "\<forall>t\<in>set (tagged_workers s). fst (snd t) \<longrightarrow> runs_batch (fst t)"
  proof
    fix t assume "t \<in> set (tagged_workers v)"
    then obtain m where m: "m < length (tagged_workers v)" "t = tagged_workers v ! m" by (metis in_set_conv_nth)
    have len': "length (tagged_workers v) = length (tagged_workers s)" using v' len by auto
    show "fst (snd t) \<longrightarrow> runs_batch (fst t)"
    proof (cases "m = k")
      case True
      then have "\<not> fst (snd t)" using v' flag m len len' by auto
      then show ?thesis by simp
    next
      case False
      then have "tagged_workers v ! m = tagged_workers u ! m" using v' by auto
      with False m same_runs_nth [OF u, of m] ok len' show ?thesis by (simp add: returned)
    qed
  qed
qed

lemma make_idle_flight:
  assumes "worker_running w s" "runs_ok s" "same_runs (worker_returned w s) u"
    and v: "v = u \<or> v = set_run w run (delete_batch p u)"
  shows "in_flight (make_idle w v) = queue_part u + other_runs w s" "runs_ok (make_idle w v)"
    "length (tagged_workers (make_idle w v)) = length (tagged_workers s)"
proof -
  have "in_flight (make_idle w v) = queue_part u + other_runs w s \<and> runs_ok (make_idle w v)
    \<and> length (tagged_workers (make_idle w v)) = length (tagged_workers s)"
  proof (cases w)
    case (General i)
    have u: "workers u = workers s" "idle_workers u = idle_workers s"
      "\<And>t. t \<in> set (tagged_workers u) \<Longrightarrow> fst (snd t) \<Longrightarrow> runs_batch (fst t)"
      using assms(2,3) General
    proof -
      have "map (\<lambda>t. (fst t, fst (snd t))) (tagged_workers u) = map (\<lambda>t. (fst t, fst (snd t))) (tagged_workers s)"
        using assms(3) General by (simp add: same_runs_def worker_returned_def add_active_jobs_def)
      then have "(fst t, fst (snd t)) \<in> (\<lambda>t. (fst t, fst (snd t))) ` set (tagged_workers s)" if "t \<in> set (tagged_workers u)" for t
        using that by (metis (no_types, lifting) image_eqI list.set_map)
      then show "runs_batch (fst t)" if "t \<in> set (tagged_workers u)" "fst (snd t)" for t
        using that assms(2) by (fastforce simp: runs_ok_def)
    qed (use assms(3) in \<open>auto simp: same_runs_def returned_runs\<close>)
    have i: "i \<in> busy s" using assms(1) General by simp
    note fin = make_idle_general [OF i u(1,2) refl v [unfolded General]]
    have "runs_ok (make_idle (General i) v)"
      using fin(2,4) u(3) assms(2) by (auto simp: runs_ok_def fin(3))
    with fin same_runs_length [OF assms(3)] show ?thesis by (simp add: General returned_runs)
  next
    case (Tagged i)
    note fin = make_idle_tagged [OF assms(1,3)[unfolded Tagged] v[unfolded Tagged]]
    have "busy v = busy s" using fin(2,3) by (simp add: busy_def)
    then have "runs_ok v" using fin(2,4) assms(2) by (simp add: runs_ok_def)
    moreover have "length (tagged_workers v) = length (tagged_workers s)"
      using v same_runs_length [OF assms(3)] Tagged by (auto simp: returned_runs)
    ultimately show ?thesis using fin(1) by (simp add: Tagged make_idle_def)
  qed
  then show "in_flight (make_idle w v) = queue_part u + other_runs w s" "runs_ok (make_idle w v)"
    "length (tagged_workers (make_idle w v)) = length (tagged_workers s)" by blast+
qed

text \<open>A batch is freed, or its description changes with its jobs in flight.\<close>

lemma of_batch_simps [simp]:
  "of_batch p (add_mset j M) = (if fst j = p then add_mset j (of_batch p M) else of_batch p M)"
  "of_batch p {#} = {#}" "of_batch p (A + B) = of_batch p A + of_batch p B"
  by (simp_all add: of_batch_def)

lemma in_of_batch: "of_batch p M = {#} \<Longrightarrow> j \<in># M \<Longrightarrow> fst j \<noteq> p"
  using filter_empty_size [of "\<lambda>j. fst j = p" M j] by (simp add: of_batch_def)

lemma batch_inv_remove:
  assumes "batch_inv s" "in_flight s = add_mset (p, i) R" "of_batch p R = {#}"
    and s': "in_flight s' = R" "runs_ok s'" "batches s' = filter (\<lambda>q. q \<noteq> p) (batches s)"
      "map_of (batch_heap s') = (map_of (batch_heap s))(p := None)" "distinct (map fst (batch_heap s'))"
      "length (tagged_workers s') = length (tagged_workers s)"
  shows "batch_inv s'"
proof -
  have "fst j \<in> set (batches s')" if "j \<in># R" for j
    using that assms(1,2) in_of_batch [OF assms(3) that] by (simp add: batch_inv_def s'(3))
  moreover have "\<exists>b. map_of (batch_heap s') q = Some b \<and> batch_at b (of_batch q R)" if "q \<in> set (batches s')" for q
  proof -
    from that have "q \<in> set (batches s)" "q \<noteq> p" by (simp_all add: s'(3))
    with assms(1,2) show ?thesis unfolding batch_inv_def s'(4) by fastforce
  qed
  moreover have "threads_ok s' b \<and> (q \<notin> set (batches s') \<longrightarrow> batch_new b)" if "map_of (batch_heap s') q = Some b" for q b
  proof -
    from that have "map_of (batch_heap s) q = Some b" "q \<noteq> p" by (auto simp: s'(4) split: if_splits)
    with assms(1) show ?thesis unfolding batch_inv_def by (auto simp: s'(3,6) threads_ok_def)
  qed
  ultimately show ?thesis unfolding batch_inv_def s'(1) using s'(2,5) by blast
qed

lemma batch_inv_change:
  assumes "batch_inv s" "p \<in> set (batches s)" "map_of (batch_heap s) p = Some b"
    and s': "\<And>q. q \<noteq> p \<Longrightarrow> of_batch q (in_flight s') = of_batch q (in_flight s)" "runs_ok s'" "batches s' = batches s"
      "batch_heap s' = batch_heap (set_object p b' s)" "length (tagged_workers s') = length (tagged_workers s)"
      "batch_at b' (of_batch p (in_flight s'))" "b_jobs b' = b_jobs b" "complete_in_thread b' = complete_in_thread b"
  shows "batch_inv s'"
proof -
  have heap: "map_of (batch_heap s') q = (if q = p then Some b' else map_of (batch_heap s) q)" for q
    using assms(3) by (simp add: s'(4) map_of_set_object)
  from assms(1) have inv: "\<And>j. j \<in># in_flight s \<Longrightarrow> fst j \<in> set (batches s)"
      "\<And>q. q \<in> set (batches s) \<Longrightarrow> \<exists>b. map_of (batch_heap s) q = Some b \<and> batch_at b (of_batch q (in_flight s))"
      "\<And>q b. map_of (batch_heap s) q = Some b \<Longrightarrow> threads_ok s b"
      "\<And>q b. map_of (batch_heap s) q = Some b \<Longrightarrow> q \<notin> set (batches s) \<Longrightarrow> batch_new b"
      "distinct (map fst (batch_heap s))"
    unfolding batch_inv_def by blast+
  have "fst j \<in> set (batches s')" if "j \<in># in_flight s'" for j
  proof (cases "fst j = p")
    case False
    from that have "j \<in># of_batch (fst j) (in_flight s')" by (simp add: of_batch_def)
    then have "j \<in># of_batch (fst j) (in_flight s)" by (simp only: s'(1) [OF False])
    then have "j \<in># in_flight s" by (simp add: of_batch_def)
    then show ?thesis using inv(1) by (simp add: s'(3))
  qed (use assms(2) s'(3) in simp)
  moreover have "\<exists>b. map_of (batch_heap s') q = Some b \<and> batch_at b (of_batch q (in_flight s'))" if "q \<in> set (batches s')" for q
  proof (cases "q = p")
    case False
    with inv(2) [of q] that show ?thesis by (simp add: heap s'(1,3))
  qed (use s'(6) in \<open>simp add: heap\<close>)
  moreover have "threads_ok s' c \<and> (q \<notin> set (batches s') \<longrightarrow> batch_new c)" if "map_of (batch_heap s') q = Some c" for q c
  proof (cases "q = p")
    case True
    with that have "c = b'" by (simp add: heap)
    with inv(3) [OF assms(3)] assms(2) True show ?thesis by (simp add: threads_ok_def s'(3,5,7,8))
  next
    case False
    with that have "map_of (batch_heap s) q = Some c" by (simp add: heap)
    from inv(3,4) [OF this] show ?thesis by (simp add: threads_ok_def s'(3,5))
  qed
  moreover have "distinct (map fst (batch_heap s'))" using inv(5) by (simp add: s'(4))
  ultimately show ?thesis unfolding batch_inv_def using s'(2) by blast
qed

lemma make_idle_parts [simp]:
  "batches (make_idle w v) = batches v" "batch_heap (make_idle w v) = batch_heap v" "max_workers (make_idle w v) = max_workers v"
  by (simp_all add: make_idle_def split: worker_ref.splits)

lemma set_run_parts [simp]:
  "batches (set_run w r s) = batches s" "batch_heap (set_run w r s) = batch_heap s" "max_workers (set_run w r s) = max_workers s"
  by (cases w; simp)+

lemma map_of_delete: "map_of (batch_heap (delete_batch p s)) = (map_of (batch_heap s))(p := None)"
proof -
  have "map_of (filter (\<lambda>(q, _). q \<noteq> p) h) = (map_of h)(p := None)" for h :: "(ptr \<times> job_batch) list"
    by (induction h) auto
  then show ?thesis by (simp add: delete_batch_def)
qed

lemma distinct_delete: "distinct (map fst (batch_heap s)) \<Longrightarrow> distinct (map fst (batch_heap (delete_batch p s)))"
  by (simp add: delete_batch_def distinct_map_filter)

lemma running_batch:
  assumes "batch_inv s" "worker_running w s" "is_batch_job (run_of w s)"
  obtains p where "to_run (run_of w s) = RunBatch (Some p)" "jobs_of_run (run_of w s) = {#(p, batch_jobno (run_of w s))#}"
proof -
  have "runs_batch (run_of w s)"
  proof (cases w)
    case (General i)
    with assms show ?thesis by (simp add: batch_inv_def runs_ok_def)
  next
    case (Tagged i)
    with assms(2) have "tagged_workers s ! (i - 1) \<in> set (tagged_workers s)" by (intro nth_mem) auto
    with assms Tagged show ?thesis by (auto simp: batch_inv_def runs_ok_def)
  qed
  then show thesis using that assms(3) by (auto simp: runs_batch_def jobs_of_run_def)
qed

text \<open>
  The bookkeeping for a worker that returns from a job of a batch follows no dangling pointer
  and keeps the account of the jobs in flight.
\<close>

lemma batch_inv_worker_ran_batch:
  assumes inv: "batch_inv s" and w: "worker_running w s" "is_batch_job (run_of w s)"
  obtains v where "worker_ran_batch w s = Inr v" "batch_inv (make_idle w v)"
proof -
  note obtained = that
  obtain p where p: "to_run (run_of w s) = RunBatch (Some p)" "jobs_of_run (run_of w s) = {#(p, batch_jobno (run_of w s))#}"
    by (rule running_batch [OF inv w])
  let ?t = "worker_returned w s" and ?j = "(p, batch_jobno (run_of w s))"
  let ?R = "queue_part ?t + other_runs w s"
  have flight: "in_flight s = add_mset ?j ?R" using in_flight_without [OF w(1)] p(2) by simp
  have runs: "runs_ok s" and distinct: "distinct (map fst (batch_heap s))" and pin: "p \<in> set (batches s)"
    using inv flight by (auto simp: batch_inv_def)
  then obtain b where b: "map_of (batch_heap s) p = Some b" "batch_at b (add_mset ?j (of_batch p ?R))"
    using inv flight unfolding batch_inv_def by force
  have thr: "threads_ok ?t b" using inv b(1) unfolding batch_inv_def by (auto simp: threads_ok_def returned_runs)
  have heap: "map_of (batch_heap ?t) p = Some b" using b(1) by (simp add: returned_runs)
  have out: "jobs_outstanding b \<noteq> 0" if "batch_jobno (run_of w ?t) \<noteq> -1"
    using batch_at_outstanding [OF b(2)] that by (simp add: returned_runs)
  have freed: thesis
    if res: "batch_job_done w p ?t = Inr (True, u)" and u: "same_runs ?t u" "queue_part u = queue_part ?t"
      "map fst (batch_heap u) = map fst (batch_heap s)" "\<And>q. q \<noteq> p \<Longrightarrow> map_of (batch_heap u) q = map_of (batch_heap s) q"
      and none: "of_batch p ?R = {#}" for u
  proof -
    let ?v = "set_run w ((run_of w (delete_batch p u))\<lparr>to_run := RunBatch None\<rparr>) (delete_batch p u)"
    note fin = make_idle_flight [OF w(1) runs u(1), of ?v "(run_of w (delete_batch p u))\<lparr>to_run := RunBatch None\<rparr>" p, OF disjI2, OF refl]
    have "worker_ran_batch w s = Inr ?v" using p(1) res by (simp add: worker_ran_batch_def Let_def)
    moreover have "batch_inv (make_idle w ?v)"
    proof (rule batch_inv_remove [OF inv flight none])
      show "in_flight (make_idle w ?v) = ?R" using fin(1) u(2) by simp
      show "batches (make_idle w ?v) = filter (\<lambda>q. q \<noteq> p) (batches s)"
        using u(1) by (simp add: delete_batch_def same_runs_def returned_runs)
      show "map_of (batch_heap (make_idle w ?v)) = (map_of (batch_heap s))(p := None)"
        using u(4) by (auto simp: map_of_delete fun_eq_iff)
      show "distinct (map fst (batch_heap (make_idle w ?v)))"
        using distinct u(3) by (simp add: distinct_delete)
    qed (use fin in simp_all)
    ultimately show thesis by (rule obtained)
  qed
  have kept: thesis
    if res: "batch_job_done w p ?t = Inr (False, u)" and u: "same_runs ?t u" "batch_heap u = batch_heap (set_object p b' s)"
      and b': "batch_at b' (of_batch p (queue_part u + other_runs w s))" "b_jobs b' = b_jobs b" "complete_in_thread b' = complete_in_thread b"
      and others: "\<And>q. q \<noteq> p \<Longrightarrow> of_batch q (queue_part u) = of_batch q (queue_part ?t)" for u b'
  proof -
    note fin = make_idle_flight [OF w(1) runs u(1), of u _ p, OF disjI1, OF refl]
    have "worker_ran_batch w s = Inr u" using p(1) res by (simp add: worker_ran_batch_def)
    moreover have "batch_inv (make_idle w u)"
    proof (rule batch_inv_change [OF inv pin b(1)])
      show "batch_at b' (of_batch p (in_flight (make_idle w u)))" using fin(1) b'(1) by simp
      show "of_batch q (in_flight (make_idle w u)) = of_batch q (in_flight s)" if "q \<noteq> p" for q
        using that fin(1) others [OF that] by (simp add: flight)
      show "batches (make_idle w u) = batches s" using u(1) by (simp add: same_runs_def returned_runs)
    qed (use fin u(2) b' in simp_all)
    ultimately show thesis by (rule obtained)
  qed
  show thesis
  proof (rule batch_job_done_cases [OF heap thr, of w], goal_cases)
    case 1
    then show ?case by (rule out)
  next
    case completed: 2
    then show thesis
      using freed [of ?t] batch_at_completion [OF b(2)] by (simp add: same_runs_def returned_runs)
  next
    case more: 3
    let ?b = "b\<lparr>jobs_outstanding := jobs_outstanding b - 1\<rparr>"
    have "batch_at ?b (of_batch p ?R)"
      using batch_at_more [OF b(2)] more by (simp add: returned_runs)
    moreover have "batch_heap (set_object p ?b ?t) = batch_heap (set_object p ?b s)"
      by (simp add: set_object_def returned_runs)
    ultimately show thesis
      using kept [OF more(3), of ?b] same_runs_push(3) by simp
  next
    case ended: (4 b' u)
    then have none: "of_batch p ?R = {#}" using batch_at_last [OF b(2)] by (simp add: returned_runs)
    have parts: "same_runs ?t u" "queue_part u = queue_part ?t" "batch_heap u = batch_heap (set_object p b' ?t)"
      using ended(4) by (simp_all add: batch_part_def same_runs_def queue_part_def)
    then show thesis
      using freed [OF ended(3) parts(1,2) _ _ none] by (simp add: map_of_set_object returned_runs)
  next
    case complete: (5 u)
    have last: "of_batch p ?R = {#}" using batch_at_last [OF b(2)] complete(1,2) by (simp add: returned_runs)
    have "batch_at (b\<lparr>jobs_outstanding := 0\<rparr>) {#(p, -1)#}"
      using batch_at_complete [OF b(2)] complete(1-3) by (simp add: returned_runs)
    moreover have "batch_heap u = batch_heap (set_object p (b\<lparr>jobs_outstanding := 0\<rparr>) s)"
      using complete(7) by (simp add: set_object_def returned_runs)
    ultimately show thesis
      using kept [OF complete(4,6), of "b\<lparr>jobs_outstanding := 0\<rparr>"] complete(5) last by simp
  qed
qed

lemma sched_inv_worker_ran:
  assumes inv: "sched_inv s" and w: "worker_running w s"
  obtains s' where "worker_ran w route s = Inr s'" "sched_inv s'"
proof -
  have pool: "pool_inv s" "pending_ok s" and batch: "batch_inv s" using inv by (simp_all add: sched_inv_def)
  have tagged: "is_batch_job (run_of w s)" if "w = Tagged i" for i
  proof -
    have "tagged_workers s ! (i - 1) \<in> set (tagged_workers s)" using w that by (intro nth_mem) auto
    then show ?thesis using batch w that by (auto simp: batch_inv_def runs_ok_def runs_batch_def)
  qed
  have "\<exists>v. (if is_batch_job (run_of w s) then worker_ran_batch w s else worker_ran_command w s) = Inr v
      \<and> batch_inv (make_idle w v)"
  proof (cases "is_batch_job (run_of w s)")
    case True
    with batch w show ?thesis by (metis batch_inv_worker_ran_batch)
  next
    case False
    then obtain i where i: "w = General i" "i \<in> busy s" using tagged w by (cases w) auto
    with pool(1) False obtain c where c: "ri_cat (workers s ! i) = Some c" by (auto simp: pool_inv_def)
    let ?v = "upd_cat c (\<lambda>c. c\<lparr>active_threads := active_threads c - 1\<rparr>) s"
    note fin = make_idle_general [OF i(2), of ?v "tagged_workers s" ?v undefined undefined, OF _ _ _ disjI1 [OF refl]]
    have "jobs_of_run (workers s ! i) = {#}" using False i(1) by (simp add: jobs_of_run_def)
    then have "in_flight s = queue_part s + other_runs (General i) s"
      using in_flight_without [OF w] by (simp add: i(1) worker_returned_def add_active_jobs_def queue_part_def)
    moreover have "queue_part ?v = queue_part s" by (simp add: queue_part_def)
    ultimately have "in_flight (make_idle (General i) ?v) = in_flight s" using fin(1) by simp
    moreover have "runs_ok s" using batch by (simp add: batch_inv_def)
    then have "runs_ok (make_idle (General i) ?v)" using fin(2-4) by (simp add: runs_ok_def)
    moreover have "same_batches s (make_idle (General i) ?v)" using fin(3) by (simp add: same_batches_def)
    ultimately have "batch_inv (make_idle (General i) ?v)" using batch by (meson batch_inv_cong)
    then show ?thesis using False c i(1) by (simp add: worker_ran_command_def)
  qed
  then obtain v where v: "(if is_batch_job (run_of w s) then worker_ran_batch w s else worker_ran_command w s) = Inr v"
    "batch_inv (make_idle w v)" by blast
  define s' where "s' = (if max_workers v = 0 then emit (Send_worker route ''QUIT'') v else make_idle w v)"
  have ran: "worker_ran w route s = Inr s'"
    using v(1) by (simp add: worker_ran_def s'_def make_idle_def split: worker_ref.splits)
  have "pool_inv s'" "pending_ok s'"
    using pool_inv_worker_ran [OF pool w ran tagged] by simp_all
  moreover have "max_workers v \<noteq> 0"
    using pool_inv_max [OF \<open>pool_inv s'\<close>] by (auto simp: s'_def)
  ultimately have "sched_inv s'" using v(2) by (simp add: sched_inv_def s'_def)
  with ran show thesis by (rule that)
qed

section \<open>Batches that arrive\<close>

lemma fresh_ptr_not_in: "map_of h (fresh_ptr h) = None"
proof -
  have "p \<le> foldr max (map fst h) 0" if "p \<in> fst ` set h" for p
    using that by (induction h) (auto simp: le_max_iff_disj)
  then have "fresh_ptr h \<notin> fst ` set h" by (force simp: fresh_ptr_def)
  then show ?thesis by (simp add: map_of_eq_None_iff)
qed

lemma new_object_parts [simp]:
  "workers (snd (new_object b s)) = workers s" "idle_workers (snd (new_object b s)) = idle_workers s"
  "tagged_workers (snd (new_object b s)) = tagged_workers s" "batches (snd (new_object b s)) = batches s"
  "batch_jobs (snd (new_object b s)) = batch_jobs s" "reply_jobs (snd (new_object b s)) = reply_jobs s"
  "map_of (batch_heap (snd (new_object b s))) = (map_of (batch_heap s))(fst (new_object b s) \<mapsto> b)"
  "map_of (batch_heap s) (fst (new_object b s)) = None"
  by (simp_all add: new_object_def Let_def fresh_ptr_not_in map_add_def fun_eq_iff split: option.splits)

lemma batch_inv_new_object:
  assumes "batch_inv s" "batch_new b" "threads_ok s b"
  shows "batch_inv (snd (new_object b s))"
proof -
  let ?s = "snd (new_object b s)" and ?p = "fst (new_object b s)"
  from assms(1) have inv: "runs_ok s" "distinct (map fst (batch_heap s))" "\<forall>j\<in>#in_flight s. fst j \<in> set (batches s)"
      "\<And>q. q \<in> set (batches s) \<Longrightarrow> \<exists>b. map_of (batch_heap s) q = Some b \<and> batch_at b (of_batch q (in_flight s))"
      "\<And>q b. map_of (batch_heap s) q = Some b \<Longrightarrow> threads_ok s b \<and> (q \<notin> set (batches s) \<longrightarrow> batch_new b)"
    unfolding batch_inv_def by blast+
  have same: "in_flight ?s = in_flight s" "runs_ok ?s = runs_ok s" "threads_ok ?s = threads_ok s"
    by (simp_all add: in_flight_def running_jobs_def busy_def runs_ok_def threads_ok_def fun_eq_iff)
  have "?p \<noteq> q" if "q \<in> set (batches s)" for q using inv(4) [OF that] new_object_parts(8) [of s b] by auto
  moreover have "distinct (map fst (batch_heap ?s))"
    using inv(2) new_object_parts(8) [of s b] by (simp add: new_object_def Let_def map_of_eq_None_iff)
  ultimately show ?thesis
    using inv assms(2,3) unfolding batch_inv_def same new_object_parts by auto
qed

text \<open>Queueing the jobs of a batch.\<close>

fun numbered :: "ptr \<Rightarrow> int \<Rightarrow> nat \<Rightarrow> batch_job multiset" where
  "numbered p i 0 = {#}"
| "numbered p i (Suc n) = add_mset (p, i) (numbered p (i + 1) n)"

lemma push_effect:
  assumes "t \<le> int (length (tagged_workers s))"
  obtains s' where "(if 0 < t then push_tagged (nat t) j s else Inr (push_job False j s)) = Inr s'"
    "same_runs s s'" "batch_heap s' = batch_heap s" "queue_part s' = add_mset j (queue_part s)"
proof (cases "0 < t")
  case True
  with assms obtain s' where s': "push_tagged (nat t) j s = Inr s'" by (simp add: push_tagged_def nat_le_iff)
  then have "batch_heap s' = batch_heap s" by (auto simp: push_tagged_def split: if_splits)
  with True s' same_runs_push(2) [OF s'] queue_part_push(2) [OF s'] show thesis by (intro that) simp_all
next
  case False
  have "batch_heap (push_job False j s) = batch_heap s" by (simp add: push_job_def set_queued_jobs_def)
  with False same_runs_push(1) queue_part_push(1) show thesis by (intro that [of "push_job False j s"]) simp_all
qed

lemma queue_batch_jobs_effect:
  assumes "\<forall>t\<in>set ts. t \<le> int (length (tagged_workers s))"
  obtains s' where "queue_batch_jobs p i ts s = Inr s'" "same_runs s s'" "batch_heap s' = batch_heap s"
    "queue_part s' = queue_part s + numbered p i (length ts)"
  using assms
proof (induction ts arbitrary: i s thesis)
  case Nil
  then show ?case by (simp add: same_runs_def)
next
  case (Cons t ts)
  obtain s1 where s1: "(if 0 < t then push_tagged (nat t) (p, i) s else Inr (push_job False (p, i) s)) = Inr s1"
    "same_runs s s1" "batch_heap s1 = batch_heap s" "queue_part s1 = add_mset (p, i) (queue_part s)"
    by (rule push_effect [of t s "(p, i)"]) (use Cons.prems(2) in simp)
  have "\<forall>t\<in>set ts. t \<le> int (length (tagged_workers s1))"
    using Cons.prems(2) same_runs_length [OF s1(2)] by simp
  then obtain s' where s': "queue_batch_jobs p (i + 1) ts s1 = Inr s'" "same_runs s1 s'" "batch_heap s' = batch_heap s1"
    "queue_part s' = queue_part s1 + numbered p (i + 1) (length ts)"
    using Cons.IH by blast
  have "queue_batch_jobs p i (t # ts) s = Inr s'" using s1(1) s'(1) by simp
  then show ?case
    using Cons.prems(1) [of s'] s'(2-4) s1(2-4) same_runs_trans by simp
qed

lemma of_batch_numbered: "of_batch q (numbered p i n) = (if q = p then numbered p i n else {#})"
  by (induction p i n rule: numbered.induct) auto

lemma in_numbered: "j \<in># numbered p i n \<Longrightarrow> fst j = p \<and> i \<le> snd j \<and> snd j < i + int n"
  by (induction p i n rule: numbered.induct) auto

lemma size_numbered: "size (numbered p i n) = n"
  by (induction p i n rule: numbered.induct) simp_all

lemma batch_at_numbered:
  assumes "batch_new b"
  shows "batch_at b (numbered p 0 (length (b_jobs b)))"
proof -
  let ?J = "numbered p 0 (length (b_jobs b))"
  have nonneg: "0 \<le> snd j \<and> nat (snd j) < length (b_jobs b)" if "j \<in># ?J" for j
    using in_numbered [OF that] by auto
  then have "{#j \<in># ?J. snd j \<noteq> -1#} = {#j \<in># ?J. True#}" "{#j \<in># ?J. snd j = -1#} = {#j \<in># ?J. False#}"
    by (intro filter_mset_cong; force)+
  then have "{#j \<in># ?J. snd j \<noteq> -1#} = ?J" "{#j \<in># ?J. snd j = -1#} = {#}" by simp_all
  with nonneg assms show ?thesis by (simp add: batch_at_def batch_new_def batch_fresh_def size_numbered)
qed

lemma running_jobs_same: "same_runs s s' \<Longrightarrow> running_jobs s' = running_jobs s \<and> (runs_ok s \<longrightarrow> runs_ok s')"
proof -
  assume same: "same_runs s s'"
  have "running_jobs s' = running_jobs s" using same by (simp add: same_runs_def running_jobs_def busy_def)
  moreover have "runs_ok s'" if "runs_ok s"
  proof -
    have "runs_batch (fst t)" if t: "t \<in> set (tagged_workers s')" "fst (snd t)" for t
    proof -
      from t(1) obtain k where k: "k < length (tagged_workers s')" "t = tagged_workers s' ! k" by (metis in_set_conv_nth)
      with same_runs_nth [OF same, of k] same_runs_length [OF same] t(2) \<open>runs_ok s\<close> show ?thesis
        by (simp add: runs_ok_def)
    qed
    then show ?thesis using that same by (simp add: runs_ok_def same_runs_def busy_def)
  qed
  ultimately show ?thesis by blast
qed

text \<open>
  A new batch is taken over: its pointer is put among the batches and its jobs are queued.
\<close>

lemma batch_inv_take_over:
  assumes inv: "batch_inv s" and p: "map_of (batch_heap s) p = Some b" "p \<notin> set (batches s)"
    and s': "queue_part s' = queue_part s + numbered p 0 (length (b_jobs b))" "batch_heap s' = batch_heap s"
      "batches s' = batches s @ [p]" "running_jobs s' = running_jobs s" "runs_ok s'"
      "length (tagged_workers s') = length (tagged_workers s)"
  shows "batch_inv s'"
proof -
  from inv have inv: "distinct (map fst (batch_heap s))" "\<And>j. j \<in># in_flight s \<Longrightarrow> fst j \<in> set (batches s)"
      "\<And>q. q \<in> set (batches s) \<Longrightarrow> \<exists>b. map_of (batch_heap s) q = Some b \<and> batch_at b (of_batch q (in_flight s))"
      "\<And>q b. map_of (batch_heap s) q = Some b \<Longrightarrow> threads_ok s b \<and> (q \<notin> set (batches s) \<longrightarrow> batch_new b)"
    unfolding batch_inv_def by blast+
  have flight: "in_flight s' = in_flight s + numbered p 0 (length (b_jobs b))"
    by (simp add: in_flight_parts s'(1,4) ac_simps)
  have none: "of_batch p (in_flight s) = {#}"
    using inv(2) p(2) by (auto simp: of_batch_def filter_mset_eq_conv)
  have "fst j \<in> set (batches s')" if "j \<in># in_flight s'" for j
    using that inv(2) [of j] in_numbered [of j p 0 "length (b_jobs b)"] by (simp add: flight s'(3)) blast
  moreover have "\<exists>b. map_of (batch_heap s') q = Some b \<and> batch_at b (of_batch q (in_flight s'))" if "q \<in> set (batches s')" for q
  proof (cases "q = p")
    case True
    then show ?thesis
      using p inv(4) [OF p(1)] none by (simp add: s'(2) flight of_batch_numbered batch_at_numbered)
  next
    case False
    with that inv(3) [of q] show ?thesis by (simp add: s'(2,3) flight of_batch_numbered)
  qed
  moreover have "threads_ok s' c \<and> (q \<notin> set (batches s') \<longrightarrow> batch_new c)" if "map_of (batch_heap s') q = Some c" for q c
    using that inv(4) [of q c] by (simp add: s'(2,3,6) threads_ok_def)
  ultimately show ?thesis unfolding batch_inv_def using s'(5) inv(1) by (simp only: s'(2) simp_thms) blast
qed

lemma batch_inv_proxy_batch:
  assumes inv: "batch_inv s" and p: "map_of (batch_heap s) p = Some b" "p \<notin> set (batches s)"
  obtains s' where "proxy_batch p s = Inr s'" "batch_inv s'"
proof -
  let ?s = "insert_batch p s"
  have s: "same_runs s (?s\<lparr>batches := batches s\<rparr>)" "queue_part ?s = queue_part s" "batches ?s = batches s @ [p]"
    "batch_heap ?s = batch_heap s" "tagged_workers ?s = tagged_workers s" "workers ?s = workers s" "idle_workers ?s = idle_workers s"
    using p(2) by (simp_all add: insert_batch_def same_runs_def queue_part_def)
  have new: "batch_new b" "threads_ok s b" using inv p unfolding batch_inv_def by blast+
  define ts where "ts = (if tagged_thread_jobs b then batch_threads b else replicate (length (b_jobs b)) 0)"
  have ts: "length ts = length (b_jobs b)" "\<forall>t\<in>set ts. t \<le> int (length (tagged_workers ?s))"
    using new(2) by (auto simp: ts_def batch_threads_def threads_ok_def s(5) split: if_splits)
  from ts(2) obtain u where u: "queue_batch_jobs p 0 ts ?s = Inr u" "same_runs ?s u" "batch_heap u = batch_heap ?s"
    "queue_part u = queue_part ?s + numbered p 0 (length ts)"
    by (rule queue_batch_jobs_effect)
  let ?s' = "u\<lparr>proxy_skip_one_poll := True\<rparr>"
  have "proxy_batch p s = Inr ?s'"
    using p(1) u(1) by (auto simp: proxy_batch_def batch_size_def ts_def split: if_splits)
  moreover have "batch_inv ?s'"
  proof (rule batch_inv_take_over [OF inv p])
    have busy: "busy ?s = busy s" by (simp add: busy_def s)
    have "runs_ok ?s" using inv by (simp add: batch_inv_def runs_ok_def busy s)
    then have runs: "runs_ok u" "running_jobs u = running_jobs ?s" using running_jobs_same [OF u(2)] by blast+
    then show "runs_ok ?s'" by (simp add: runs_ok_def busy_def)
    show "running_jobs ?s' = running_jobs s" using runs(2) busy by (simp add: running_jobs_def busy_def s)
    show "queue_part ?s' = queue_part s + numbered p 0 (length (b_jobs b))"
      using u(4) ts(1) s(2) by (simp add: queue_part_def)
    show "batches ?s' = batches s @ [p]" using u(2) s(3) by (simp add: same_runs_def)
    show "length (tagged_workers ?s') = length (tagged_workers s)" using same_runs_length [OF u(2)] s(5) by simp
  qed (use u(3) s(4) in simp)
  ultimately show thesis by (rule that)
qed

text \<open>
  A batch of one job that the proxy makes and queues itself, as for a reply or a timer: the
  jobs it adds to a queue are those of \<open>proxy_batch\<close>.
\<close>

lemma batch_inv_own_batch:
  assumes inv: "batch_inv s" and b: "batch_new b" "threads_ok s b" "length (b_jobs b) = 1"
    and p: "p = fst (new_object b s)"
    and s': "same_runs (insert_batch p (snd (new_object b s))) s'"
      "queue_part s' = add_mset (p, 0) (queue_part s)" "batch_heap s' = batch_heap (snd (new_object b s))"
  shows "batch_inv s'"
proof -
  let ?t = "snd (new_object b s)"
  have t: "batch_inv ?t" "map_of (batch_heap ?t) p = Some b"
    using batch_inv_new_object [OF inv b(1,2)] by (simp_all add: p)
  have pn: "p \<notin> set (batches ?t)"
  proof -
    have "\<exists>c. map_of (batch_heap s) q = Some c" if "q \<in> set (batches s)" for q
      using inv that unfolding batch_inv_def by blast
    from this [of p] show ?thesis by (auto simp: p)
  qed
  have ins: "batches (insert_batch p ?t) = batches ?t @ [p]" "workers (insert_batch p ?t) = workers ?t"
    "idle_workers (insert_batch p ?t) = idle_workers ?t" "tagged_workers (insert_batch p ?t) = tagged_workers ?t"
    using pn by (simp_all add: insert_batch_def)
  have busy: "busy (insert_batch p ?t) = busy ?t" by (simp add: busy_def ins)
  have "runs_ok (insert_batch p ?t)" using t(1) by (simp add: batch_inv_def runs_ok_def busy ins)
  then have runs: "runs_ok s'" "running_jobs s' = running_jobs ?t"
    using running_jobs_same [OF s'(1)] by (simp_all add: running_jobs_def busy ins)
  show ?thesis
  proof (rule batch_inv_take_over [OF t pn])
    show "queue_part s' = queue_part ?t + numbered p 0 (length (b_jobs b))"
      using s'(2) by (simp add: b(3) queue_part_def [of ?t] queue_part_def [of s])
    show "batches s' = batches ?t @ [p]" using s'(1) ins(1) by (simp add: same_runs_def)
    show "length (tagged_workers s') = length (tagged_workers ?t)" using same_runs_length [OF s'(1)] ins(4) by simp
  qed (use runs s'(3) in simp_all)
qed

lemma same_runs_skip [simp]: "same_runs s (u\<lparr>proxy_skip_one_poll := b\<rparr>) = same_runs s u"
  by (simp add: same_runs_def)

lemma batch_new_one: "batch_new (add_job_on f t new_batch)" "length (b_jobs (add_job_on f t new_batch)) = 1"
  by (simp_all add: batch_new_def batch_fresh_def add_job_on_def new_batch_def Let_def)

lemma threads_ok_one: "threads_ok s (add_job_on f t new_batch) \<longleftrightarrow> t \<le> int (length (tagged_workers s))"
  by (simp add: threads_ok_def add_job_on_def new_batch_def Let_def)

lemma batch_inv_reply_job:
  assumes "batch_inv s"
  shows "batch_inv (proxy_schedule_reply_job f s)"
proof -
  let ?b = "add_job_on f 0 new_batch"
  let ?p = "fst (new_object ?b s)"
  let ?t = "insert_batch ?p (snd (new_object ?b s))"
  have s': "proxy_schedule_reply_job f s = (push_job True (?p, 0) ?t)\<lparr>proxy_skip_one_poll := True\<rparr>"
    by (simp add: proxy_schedule_reply_job_def Let_def split_beta)
  show ?thesis
  proof (rule batch_inv_own_batch [OF assms, of ?b ?p])
    show "same_runs ?t (proxy_schedule_reply_job f s)" unfolding s' by (simp add: same_runs_push(1))
    have "queue_part ?t = queue_part s" by (simp add: queue_part_def insert_batch_def)
    then show "queue_part (proxy_schedule_reply_job f s) = add_mset (?p, 0) (queue_part s)"
      unfolding s' using queue_part_push(1) [of True "(?p, 0)" ?t] by (simp add: queue_part_def)
    show "batch_heap (proxy_schedule_reply_job f s) = batch_heap (snd (new_object ?b s))"
      unfolding s' by (simp add: push_job_def set_queued_jobs_def insert_batch_def)
  qed (simp_all add: batch_new_one [simplified] threads_ok_one)
qed

lemma batch_inv_timer_jobs [simp]: "batch_inv (s\<lparr>timer_jobs := ts\<rparr>) = batch_inv s"
  by (rule batch_part_cong) (simp add: batch_part_def)

lemma batch_inv_timer_job:
  assumes inv: "batch_inv s"
    and t: "\<And>t. map_of (timer_jobs s) timer_id = Some t \<Longrightarrow> td_thread t \<le> int (length (tagged_workers s))"
  obtains s' where "queue_timer_job timer_id s = Inr s'" "batch_inv s'"
proof -
  note obtained = that
  show thesis
  proof (cases "map_of (timer_jobs s) timer_id")
    case None
    then show thesis using obtained inv by (simp add: queue_timer_job_def)
  next
    case (Some tm)
    show thesis
    proof (cases "td_squelch tm \<and> td_running tm \<or> td_thread tm = -1")
      case True
      let ?s = "if td_squelch tm \<and> td_running tm then s else emit (Call_in_proxy (td_function tm)) s"
      have "batch_part ?s = batch_part s" by (simp add: batch_part_def)
      from batch_part_cong(1) [OF this] inv have "batch_inv ?s" by (rule iffD2)
      moreover have "queue_timer_job timer_id s = Inr ?s" using True Some by (auto simp: queue_timer_job_def)
      ultimately show thesis by (intro obtained)
    next
      case False
      let ?job = "add_job_on (td_function tm) (td_thread tm) new_batch :: job_batch"
      define b where "b = (if td_squelch tm then ?job\<lparr>b_complete := Some (TimerCompletion timer_id),
          complete_in_thread := run_in_proxy\<rparr> else ?job)"
      define s1 where "s1 = (if td_squelch tm then s\<lparr>timer_jobs := AList.update timer_id (tm\<lparr>td_running := True\<rparr>) (timer_jobs s)\<rparr> else s)"
      define p where "p = fst (new_object b s1)"
      let ?t = "insert_batch p (snd (new_object b s1))"
      have s1: "batch_inv s1" "tagged_workers s1 = tagged_workers s" using inv by (simp_all add: s1_def)
      have b: "batch_new b" "threads_ok s1 b" "length (b_jobs b) = 1"
        using batch_new_one t [OF Some]
        by (auto simp: b_def batch_new_def batch_fresh_def threads_ok_def s1(2) run_in_proxy_def add_job_on_def new_batch_def Let_def)
      have "tagged_workers ?t = tagged_workers s" using s1(2) by (simp add: insert_batch_def)
      then obtain s' where s': "(if 0 < td_thread tm then push_tagged (nat (td_thread tm)) (p, 0) ?t else Inr (push_job False (p, 0) ?t)) = Inr s'"
        "same_runs ?t s'" "batch_heap s' = batch_heap ?t" "queue_part s' = add_mset (p, 0) (queue_part ?t)"
        using push_effect [of "td_thread tm" ?t "(p, 0)"] t [OF Some] by (metis (no_types, lifting))
      have "queue_timer_job timer_id s = Inr s'"
        using False Some s'(1) by (auto simp: queue_timer_job_def b_def s1_def p_def Let_def split_beta)
      moreover have "queue_part ?t = queue_part s1" "batch_heap ?t = batch_heap (snd (new_object b s1))"
        by (simp_all add: queue_part_def insert_batch_def)
      then have "batch_inv s'" using batch_inv_own_batch [OF s1(1) b p_def s'(2)] s'(3,4) by simp
      ultimately show thesis by (rule obtained)
    qed
  qed
qed

end
