(* ===== verification/Scheduler_Steps.thy ===== *)
theory Scheduler_Steps
  imports Batch_Lifecycle
begin

text \<open>
  Runs of the scheduler: the operations of the proxy on its workers and queues, and what the
  worker threads and the threads of the user do meanwhile, as a step relation; its invariants,
  and the properties of \<^verbatim>\<open>worker.cpp\<close> and \<^verbatim>\<open>jobs.cpp\<close> that follow.
\<close>

section \<open>The queues of the categories\<close>

text \<open>
  The counter \<open>queued\<close> of a category is the number of its commands that wait, and stays
  within \<open>max_queue\<close> unless that is negative.
\<close>

definition waiting :: "bytes \<Rightarrow> pending_command list \<Rightarrow> int" where
  "waiting n ps = int (length (filter (\<lambda>p. pc_cat p = n) ps))"

definition queue_inv :: "sched \<Rightarrow> bool" where
  "queue_inv s \<longleftrightarrow> (\<forall>n\<in>set (map fst (categories s)).
     queued (the_cat s n) = waiting n (pending_commands s)
     \<and> (0 \<le> max_queue (the_cat s n) \<longrightarrow> queued (the_cat s n) \<le> max_queue (the_cat s n)))"

lemma waiting_simps [simp]:
  "waiting n [] = 0" "waiting n (p # ps) = (if pc_cat p = n then 1 else 0) + waiting n ps"
  "waiting n (ps @ qs) = waiting n ps + waiting n qs"
  by (simp_all add: waiting_def)

lemma waiting_nonneg [simp]: "0 \<le> waiting n ps"
  by (simp add: waiting_def)

lemma the_cat_start_worker [simp]: "the_cat (start_worker load s) = the_cat s"
  by (simp add: the_cat_def fun_eq_iff)

lemma the_cat_start_pending:
  assumes "pc_cat p \<in> set (map fst (categories s))"
  shows "max_queue (the_cat (start_pending p s) n) = max_queue (the_cat s n)"
    "queued (the_cat (start_pending p s) n) = queued (the_cat s n) - (if pc_cat p = n then 1 else 0)"
    "active_threads (the_cat (start_pending p s) n) = active_threads (the_cat s n) + (if pc_cat p = n then 1 else 0)"
    "reserved_threads (the_cat (start_pending p s) n) = reserved_threads (the_cat s n)"
  using assms by (auto simp: start_pending_def the_cat_upd_cat simp del: set_map)

lemma run_pending_counts:
  assumes "\<forall>p\<in>set ps. pc_cat p \<in> set (map fst (categories s))"
  shows "max_queue (the_cat (snd (run_pending_loop ps s)) n) = max_queue (the_cat s n)
    \<and> queued (the_cat (snd (run_pending_loop ps s)) n)
        = queued (the_cat s n) - waiting n ps + waiting n (fst (run_pending_loop ps s))
    \<and> waiting n (fst (run_pending_loop ps s)) \<le> waiting n ps"
  using assms
proof (induction ps s rule: run_pending_loop.induct)
  case (2 p ps s)
  have names: "pc_cat p \<in> set (map fst (categories s))"
    "\<forall>q\<in>set ps. pc_cat q \<in> set (map fst (categories (start_pending p s)))"
    using 2(3) by (simp_all del: set_map)
  show ?case
  proof (cases "active_workers s < max_workers s \<and> slot_free (pc_cat p) s")
    case True
    with 2(1) names(2) the_cat_start_pending [OF names(1), of n] show ?thesis by simp
  next
    case False
    with 2(2,3) show ?thesis by (auto simp: split_beta)
  qed
qed simp

lemma queue_inv_cong: "categories s' = categories s \<Longrightarrow> pending_commands s' = pending_commands s \<Longrightarrow> queue_inv s' = queue_inv s"
  by (simp add: queue_inv_def the_cat_def)

lemma queue_inv_process_queue:
  assumes "queue_inv s" "pending_ok s"
  shows "queue_inv (proxy_process_queue s)"
proof (cases "max_workers s = 0")
  case False
  let ?t = "after_jobs s"
  let ?r = "run_pending_loop (pending_commands ?t) ?t"
  have pq: "proxy_process_queue s = (snd ?r)\<lparr>pending_commands := fst ?r\<rparr>"
    using False by (simp add: proxy_process_queue_def after_jobs_def run_pending_commands_def Let_def split_beta)
  have names: "map fst (categories (snd ?r)) = map fst (categories s)"
    using run_pending_frame [of "pending_commands ?t" ?t] by (simp add: after_jobs_frame)
  have "the_cat (after_jobs s) = the_cat s" by (simp add: the_cat_def after_jobs_frame fun_eq_iff)
  with run_pending_counts [of "pending_commands ?t" ?t] assms(2)
  have counts: "max_queue (the_cat (snd ?r) n) = max_queue (the_cat s n)
    \<and> queued (the_cat (snd ?r) n) = queued (the_cat s n) - waiting n (pending_commands s) + waiting n (fst ?r)
    \<and> waiting n (fst ?r) \<le> waiting n (pending_commands s)" for n
    by (simp add: after_jobs_frame pending_ok_def del: set_map)
  have same: "the_cat ((snd ?r)\<lparr>pending_commands := fst ?r\<rparr>) = the_cat (snd ?r)" by (simp add: the_cat_def fun_eq_iff)
  show ?thesis unfolding queue_inv_def
  proof
    fix n assume "n \<in> set (map fst (categories (proxy_process_queue s)))"
    with names have "n \<in> set (map fst (categories s))" by (simp add: pq del: set_map)
    with assms(1) counts [of n] show "queued (the_cat (proxy_process_queue s) n) = waiting n (pending_commands (proxy_process_queue s))
        \<and> (0 \<le> max_queue (the_cat (proxy_process_queue s) n)
          \<longrightarrow> queued (the_cat (proxy_process_queue s) n) \<le> max_queue (the_cat (proxy_process_queue s) n))"
      unfolding pq queue_inv_def same by force
  qed
qed (use assms in \<open>simp add: proxy_process_queue_def\<close>)

lemma queue_inv_run_or_queue:
  assumes "queue_inv s" "pc_cat p \<in> set (map fst (categories s))"
  shows "queue_inv (run_or_queue p s)"
proof -
  have pend: "the_cat (s\<lparr>pending_commands := ps\<rparr>) = the_cat s" for ps by (simp add: the_cat_def fun_eq_iff)
  show ?thesis
    using assms unfolding queue_inv_def run_or_queue_def
    by (auto simp: the_cat_upd_cat pend queue_full_def simp del: set_map split: if_splits)
qed

section \<open>Steps\<close>

text \<open>
  A step is an operation of the proxy thread, or of another thread on what it shares with the
  proxy: a batch that is made (\<open>new\<close>), and a job or completion function that a worker thread
  has run, which changes the results stored in the batch. A worker sends \<open>RAN\<close> when it was
  given something to run and has done so. The identifiers of tagged threads in batches and
  timers are those \<open>add_tagged_thread\<close> returned, and the pointer of a \<open>BATCH\<close> message is that
  of a batch the proxy has not been given before.
\<close>

inductive sched_step :: "sched \<Rightarrow> sched \<Rightarrow> bool" where
  new: "batch_built b \<Longrightarrow> b_jobs b \<noteq> [] \<Longrightarrow> threads_ok s b \<Longrightarrow> sched_step s (snd (new_object b s))"
| take_batch: "map_of (batch_heap s) p = Some b \<Longrightarrow> p \<notin> set (batches s) \<Longrightarrow> proxy_batch p s = Inr s' \<Longrightarrow> sched_step s s'"
| reply_job: "sched_step s (proxy_schedule_reply_job f s)"
| timer_add: "proxy_timer_add z t f i sq th s = Inr s' \<Longrightarrow> sched_step s s'"
| timer_del: "sched_step s (proxy_timer_del t s)"
| timer_fires: "(\<And>tm. map_of (timer_jobs s) t = Some tm \<Longrightarrow> td_thread tm \<le> int (length (tagged_workers s)))
    \<Longrightarrow> queue_timer_job t s = Inr s' \<Longrightarrow> sched_step s s'"
| command: "pc_cat p \<in> set (map fst (categories s)) \<Longrightarrow> sched_step s (run_or_queue p s)"
| process_queue: "sched_step s (proxy_process_queue s)"
| runs_job: "worker_running w s \<Longrightarrow> jobs_of_run (run_of w s) = {#(p, int i)#} \<Longrightarrow> map_of (batch_heap s) p = Some b
    \<Longrightarrow> run_job invoke i b = Inr b' \<Longrightarrow> sched_step s (set_object p b' s)"
| runs_completion: "worker_running w s \<Longrightarrow> jobs_of_run (run_of w s) = {#(p, -1)#} \<Longrightarrow> map_of (batch_heap s) p = Some b
    \<Longrightarrow> job_completion b = Inr (r, b') \<Longrightarrow> sched_step s (set_object p b' s)"
| ran: "worker_running w s \<Longrightarrow> route_worker route = Inr (w, True) \<Longrightarrow> proxy_worker_message [route, ''RAN''] s = Inr s'
    \<Longrightarrow> sched_step s s'"

text \<open>The state in which the proxy thread starts, before it computes the limits.\<close>

definition sched_start :: "sched \<Rightarrow> bool" where
  "sched_start s \<longleftrightarrow> distinct (map fst (categories s)) \<and> 1 \<le> general_workers s
     \<and> (\<forall>(n, c)\<in>set (categories s). active_threads c = 0 \<and> queued c = 0)
     \<and> workers s = [] \<and> idle_workers s = [] \<and> pending_commands s = [] \<and> batches s = []
     \<and> batch_jobs s = [] \<and> reply_jobs s = [] \<and> batch_jobs_active s = 0 \<and> reply_jobs_active s = 0
     \<and> (\<forall>t\<in>set (tagged_workers s). \<not> fst (snd t) \<and> snd (snd t) = [])
     \<and> distinct (map fst (batch_heap s)) \<and> (\<forall>(p, b)\<in>set (batch_heap s). batch_new b \<and> threads_ok s b)"

inductive sched_reachable :: "sched \<Rightarrow> bool" where
  start: "sched_start s0 \<Longrightarrow> proxy_reserve_workers s0 = Inr s \<Longrightarrow> sched_reachable s"
| step: "sched_reachable s \<Longrightarrow> sched_step s s' \<Longrightarrow> sched_reachable s'"

section \<open>The start\<close>

lemma sum_names:
  "distinct (map fst cs) \<Longrightarrow> (\<Sum>n\<in>set (map fst cs). f (case map_of cs n of Some c \<Rightarrow> c | None \<Rightarrow> d))
     = sum_list (map (\<lambda>(_, c). f c) cs)"
proof (induction cs)
  case (Cons e cs)
  obtain n c where e: "e = (n, c)" by (cases e)
  have "(\<Sum>m\<in>set (map fst cs). f (case map_of (e # cs) m of Some c \<Rightarrow> c | None \<Rightarrow> d))
      = (\<Sum>m\<in>set (map fst cs). f (case map_of cs m of Some c \<Rightarrow> c | None \<Rightarrow> d))"
    by (rule sum.cong) (use Cons.prems e in \<open>auto simp: image_iff\<close>)
  with Cons e show ?case by (simp add: image_iff)
qed simp

lemma sum_classes:
  "distinct (map fst (categories s)) \<Longrightarrow> 0 \<le> batch_jobs_reserved s \<Longrightarrow> 0 \<le> reply_jobs_reserved s
   \<Longrightarrow> int (\<Sum>k\<in>pool_classes s. pool_reserved s k)
     = batch_jobs_reserved s + reply_jobs_reserved s + sum_list (map (\<lambda>(_, c). int (reserved_threads c)) (categories s))"
proof -
  assume s: "distinct (map fst (categories s))" "0 \<le> batch_jobs_reserved s" "0 \<le> reply_jobs_reserved s"
  have "(\<Sum>k\<in>pool_classes s. pool_reserved s k)
      = (\<Sum>k\<in>{Jobs True, Jobs False}. pool_reserved s k) + (\<Sum>k\<in>Commands ` set (map fst (categories s)). pool_reserved s k)"
    unfolding pool_classes_def by (rule sum.union_disjoint) auto
  also have "(\<Sum>k\<in>Commands ` set (map fst (categories s)). pool_reserved s k)
      = (\<Sum>n\<in>set (map fst (categories s)). reserved_threads (the_cat s n))"
    by (subst sum.reindex) (simp_all add: inj_on_def)
  also have "\<dots> = sum_list (map (\<lambda>(_, c). reserved_threads c) (categories s))"
    unfolding the_cat_def using s(1) by (rule sum_names)
  finally show ?thesis
    using s by (simp add: reserved_jobs_def sum_list_of_nat [symmetric] case_prod_unfold comp_def)
qed

lemma pool_inv_start_state:
  assumes "distinct (map fst (categories s))" "1 \<le> general_workers s" "0 \<le> batch_jobs_reserved s" "0 \<le> reply_jobs_reserved s"
    and "max_workers s = general_workers s + batch_jobs_reserved s + reply_jobs_reserved s
        + sum_list (map (\<lambda>(_, c). int (reserved_threads c)) (categories s))"
      "workers_capacity s = nat (max_workers s)" "workers s = []" "idle_workers s = []"
      "batch_jobs_active s = 0" "reply_jobs_active s = 0" "\<forall>(n, c)\<in>set (categories s). active_threads c = 0"
  shows "pool_inv s"
proof -
  have none: "busy_classes s = {#}" using assms(7) by (simp add: busy_classes_def busy_def)
  have "active_threads (the_cat s n) = 0" for n
    using assms(11) by (auto simp: the_cat_def new_category_def split: option.splits dest!: map_of_SomeD)
  then have "pool_active s k = 0" for k
    using assms(9,10) by (cases k) (simp_all add: active_jobs_def)
  moreover have "static_ok s"
    using sum_classes [of s] assms(1-6) by (simp add: static_ok_def pool_general_def)
  ultimately show ?thesis
    using assms(7,8) by (simp add: pool_inv_def none idle_ok_def busy_def pool.within_def)
qed

lemma start_inv:
  assumes "sched_start s0" "proxy_reserve_workers s0 = Inr s"
  shows "sched_inv s \<and> queue_inv s"
proof -
  from assms(2) obtain r1 r2 n where
    s: "s = s0\<lparr>batch_jobs_reserved := r1, reply_jobs_reserved := r2, max_workers := n, workers_capacity := nat n\<rparr>"
    and r: "r1 = (if batch_jobs_reserved s0 < 0 then (general_workers s0 + 1) div 2 else batch_jobs_reserved s0)"
      "r2 = (if reply_jobs_reserved s0 < 0 then (general_workers s0 + 7) div 8 else reply_jobs_reserved s0)"
    and n: "n = general_workers s0 + r1 + r2 + sum_list (map (\<lambda>(_, c). int (reserved_threads c)) (categories s0))"
    by (auto simp: proxy_reserve_workers_def Let_def split: if_splits)
  have "0 \<le> r1" "0 \<le> r2" using r assms(1) by (auto simp: sched_start_def)
  with assms(1) n have "pool_inv s" by (intro pool_inv_start_state) (auto simp: s sched_start_def)
  moreover have "queue_inv s"
  proof -
    have "queued (the_cat s m) = 0" for m
      using assms(1) by (auto simp: s sched_start_def the_cat_def new_category_def split: option.splits dest!: map_of_SomeD)
    with assms(1) show ?thesis by (simp add: queue_inv_def s sched_start_def)
  qed
  moreover have "batch_inv s"
  proof -
    have "tagged_jobs ts = {#}" if "\<forall>t\<in>set ts. \<not> fst (snd t) \<and> snd (snd t) = []" for ts
      using that by (induction ts) (auto simp: tagged_jobs_def)
    then have flight: "in_flight s = {#}" using assms(1) by (simp add: in_flight_def running_jobs_def busy_def s sched_start_def)
    have "threads_ok s = threads_ok s0" by (simp add: threads_ok_def s fun_eq_iff)
    with assms(1) flight show ?thesis
      by (auto simp: batch_inv_def s sched_start_def runs_ok_def busy_def)
  qed
  ultimately show ?thesis using assms(1) by (simp add: sched_inv_def pending_ok_def s sched_start_def)
qed

section \<open>Every step\<close>

lemma sched_inv_outside:
  assumes "sched_inv s" "queue_inv s" "outside_pool s s'" "batch_inv s'"
  shows "sched_inv s' \<and> queue_inv s'"
proof -
  have "categories s' = categories s" "pending_commands s' = pending_commands s"
    using assms(3) by (simp_all add: outside_pool_def)
  then have "queue_inv s'" using queue_inv_cong assms(2) by blast
  then show ?thesis
    using assms(1,4) outside_pool_inv [OF assms(3)] outside_pool_pending [OF assms(3)] by (simp add: sched_inv_def)
qed

text \<open>A worker that has run a job or a completion changes only the results of the batch.\<close>

definition same_account :: "job_batch \<Rightarrow> job_batch \<Rightarrow> bool" where
  "same_account b b' \<longleftrightarrow> b_jobs b' = b_jobs b \<and> b_complete b' = b_complete b \<and> jobs_outstanding b' = jobs_outstanding b
     \<and> complete_in_thread b' = complete_in_thread b \<and> (jobs_outstanding b \<noteq> 0 \<longrightarrow> length (b_results b') = length (b_results b))"

lemma batch_inv_set_object:
  assumes inv: "batch_inv s" and p: "p \<in> set (batches s)" "map_of (batch_heap s) p = Some b" and same: "same_account b b'"
  shows "batch_inv (set_object p b' s)"
proof -
  let ?s = "set_object p b' s"
  have heap: "map_of (batch_heap ?s) q = (if q = p then Some b' else map_of (batch_heap s) q)" for q
    using p(2) by (simp add: map_of_set_object)
  have flight: "in_flight ?s = in_flight s" "runs_ok ?s = runs_ok s" "threads_ok ?s = threads_ok s"
    by (simp_all add: in_flight_def running_jobs_def busy_def runs_ok_def threads_ok_def fun_eq_iff)
  have "batch_at b (of_batch p (in_flight s))" "threads_ok s b" using inv p unfolding batch_inv_def by fastforce+
  then have "batch_at b' (of_batch p (in_flight s))" "threads_ok s b'"
    using same by (auto simp: batch_at_def threads_ok_def same_account_def)
  with inv p(1) show ?thesis
    unfolding batch_inv_def flight distinct_set_object set_object_parts(1) heap by auto
qed

lemma running_pointer:
  assumes "batch_inv s" "worker_running w s" "jobs_of_run (run_of w s) = {#(p, i)#}"
  shows "p \<in> set (batches s)" "(p, i) \<in># in_flight s"
  using assms in_flight_without [OF assms(2)] by (auto simp: batch_inv_def)

lemma queue_inv_worker_ran:
  assumes "queue_inv s" "worker_ran w route s = Inr s'"
  shows "queue_inv s'"
proof -
  from assms(2) obtain t where t: "(if is_batch_job (run_of w s) then worker_ran_batch w s else worker_ran_command w s) = Inr t"
    and s': "s' = (if max_workers t = 0 then emit (Send_worker route ''QUIT'') t
        else case w of Tagged _ \<Rightarrow> t | General i \<Rightarrow> t\<lparr>idle_workers := idle_workers t @ [i]\<rparr>)"
    by (auto simp: worker_ran_def result_simps)
  have "queue_inv t"
  proof (cases "is_batch_job (run_of w s)")
    case True
    with t obtain u where u: "outside_pool (worker_returned w s) u" "t = u \<or> (\<exists>run. t = set_run w run u)"
      using worker_ran_batch_shape [of w s t] by auto
    have returned: "categories (worker_returned w s) = categories s" "pending_commands (worker_returned w s) = pending_commands s"
      by (simp_all add: worker_returned_def add_active_jobs_def split: worker_ref.split)
    have "categories (set_run w run u) = categories u" "pending_commands (set_run w run u) = pending_commands u" for run
      by (cases w; simp)+
    with u returned have "categories t = categories s" "pending_commands t = pending_commands s"
      by (auto simp: outside_pool_def)
    with assms(1) show ?thesis using queue_inv_cong by blast
  next
    case False
    with t obtain n where "t = upd_cat n (\<lambda>c. c\<lparr>active_threads := active_threads c - 1\<rparr>) s"
      by (auto simp: worker_ran_command_def split: option.splits)
    with assms(1) show ?thesis by (auto simp: queue_inv_def the_cat_upd_cat simp del: set_map)
  qed
  moreover have "categories s' = categories t" "pending_commands s' = pending_commands t"
    unfolding s' by (simp_all split: worker_ref.split)
  ultimately show ?thesis using queue_inv_cong by blast
qed

lemma run_job_account: "run_job invoke i b = Inr b' \<Longrightarrow> same_account b b'"
  by (auto simp: run_job_def same_account_def split: if_splits)

lemma ran_message:
  "worker_running w s \<Longrightarrow> route_worker route = Inr (w, True) \<Longrightarrow> proxy_worker_message [route, ''RAN''] s = worker_ran w route s"
  by (cases w) (auto simp: proxy_worker_message_def busy_def)

lemma completion_runs_alone:
  assumes "batch_inv s" "worker_running w s" "jobs_of_run (run_of w s) = {#(p, -1)#}" "map_of (batch_heap s) p = Some b"
  shows "jobs_outstanding b = 0"
proof -
  note pointer = running_pointer [OF assms(1-3)]
  then have "batch_at b (of_batch p (in_flight s))" using assms(1,4) unfolding batch_inv_def by fastforce
  moreover from pointer(2) have "(p, -1) \<in># {#j \<in># of_batch p (in_flight s). snd j = -1#}" by (simp add: of_batch_def)
  then have "{#j \<in># of_batch p (in_flight s). snd j = -1#} \<noteq> {#}" by (metis empty_not_add_mset multi_member_split)
  ultimately show ?thesis by (auto simp: batch_at_def split: if_splits)
qed

lemma step_inv:
  assumes "sched_step s s'" and inv: "sched_inv s" "queue_inv s"
  shows "sched_inv s' \<and> queue_inv s'"
  using assms(1)
proof cases
  case (new b)
  have "batch_inv (snd (new_object b s))"
    using inv(1) new batch_built_fresh by (intro batch_inv_new_object) (auto simp: sched_inv_def batch_new_def)
  with inv new show ?thesis by (intro sched_inv_outside [of s]) simp_all
next
  case (take_batch p b)
  then have "batch_inv s'" using batch_inv_proxy_batch [of s p b] inv(1) by (auto simp: sched_inv_def)
  with inv take_batch show ?thesis by (intro sched_inv_outside [of s] outside_pool_proxy_batch)
next
  case (reply_job f)
  with inv show ?thesis
    by (intro sched_inv_outside [of s]) (simp_all add: outside_pool_reply_job batch_inv_reply_job sched_inv_def)
next
  case (timer_add z t f i sq th)
  have "batch_inv s'"
    using timer_add inv(1) batch_part_cong [of s' s]
    by (auto simp: proxy_timer_add_def Let_def batch_part_def sched_inv_def split: if_splits)
  with inv timer_add show ?thesis by (intro sched_inv_outside [of s] outside_pool_timer_add)
next
  case (timer_del t)
  have "batch_inv s'"
    using inv(1) batch_part_cong [of s' s] unfolding timer_del
    by (auto simp: proxy_timer_del_def batch_part_def sched_inv_def split: option.splits)
  with inv timer_del show ?thesis by (intro sched_inv_outside [of s]) simp_all
next
  case (timer_fires t)
  then have "batch_inv s'" using batch_inv_timer_job [of s t] inv(1) by (auto simp: sched_inv_def)
  with inv timer_fires show ?thesis by (intro sched_inv_outside [of s] outside_pool_timer_job)
next
  case (command p)
  with inv show ?thesis by (simp add: sched_inv_run_or_queue queue_inv_run_or_queue del: set_map)
next
  case process_queue
  with inv show ?thesis by (simp add: sched_inv_process_queue queue_inv_process_queue sched_inv_def [of s] )
next
  case (runs_job w p i b invoke b')
  have "batch_inv s" using inv(1) by (simp add: sched_inv_def)
  with runs_job have "batch_inv s'"
    using batch_inv_set_object running_pointer(1) run_job_account by (metis (no_types))
  with inv runs_job show ?thesis by (intro sched_inv_outside [of s]) simp_all
next
  case (runs_completion w p b r b')
  have batch: "batch_inv s" using inv(1) by (simp add: sched_inv_def)
  have "same_account b b'"
    using completion_runs_alone [OF batch runs_completion(2-4)] runs_completion(5)
    by (auto simp: job_completion_def same_account_def split: option.splits)
  with batch runs_completion have "batch_inv s'"
    using batch_inv_set_object running_pointer(1) by (metis (no_types))
  with inv runs_completion show ?thesis by (intro sched_inv_outside [of s]) simp_all
next
  case (ran w route)
  then have "worker_ran w route s = Inr s'" by (simp add: ran_message)
  with inv ran(1) show ?thesis using sched_inv_worker_ran queue_inv_worker_ran by (metis sum.inject(2))
qed

lemma reachable_inv: "sched_reachable s \<Longrightarrow> sched_inv s \<and> queue_inv s"
  by (induction rule: sched_reachable.induct) (use start_inv step_inv in blast)+

section \<open>Work that has to wait\<close>

text \<open>
  What a state has no room for: jobs of a kind and commands of a category. Starting work
  only ever takes room, so what was found to have no room stays so.
\<close>

definition no_room :: "bool \<Rightarrow> sched \<Rightarrow> bool" where
  "no_room r s \<longleftrightarrow> \<not> (active_workers s < max_workers s
     \<and> (active_jobs r s < reserved_jobs r s \<or> active_workers s < general_workers s))"

definition no_slot :: "bytes \<Rightarrow> sched \<Rightarrow> bool" where
  "no_slot n s \<longleftrightarrow> \<not> (active_workers s < max_workers s \<and> slot_free n s)"

definition busier :: "sched \<Rightarrow> sched \<Rightarrow> bool" where
  "busier s s' \<longleftrightarrow> active_workers s \<le> active_workers s' \<and> max_workers s' = max_workers s
     \<and> general_workers s' = general_workers s
     \<and> (\<forall>r. active_jobs r s \<le> active_jobs r s' \<and> reserved_jobs r s' = reserved_jobs r s)
     \<and> (\<forall>n. active_threads (the_cat s n) \<le> active_threads (the_cat s' n)
          \<and> reserved_threads (the_cat s' n) = reserved_threads (the_cat s n))"

lemma busier_refl: "busier s s"
  by (simp add: busier_def)

lemma busier_trans: "busier s t \<Longrightarrow> busier t u \<Longrightarrow> busier s u"
  unfolding busier_def by (metis order_trans)

lemma busier_blocked: "busier s s' \<Longrightarrow> no_room r s \<Longrightarrow> no_room r s'" "busier s s' \<Longrightarrow> no_slot n s \<Longrightarrow> no_slot n s'"
  unfolding busier_def no_room_def no_slot_def slot_free_def by (smt (verit) of_nat_le_iff order_trans leD leI)+

lemma active_workers_start [simp]: "active_workers (start_worker load s) = active_workers s + 1"
  by (cases "idle_workers s") (simp_all add: active_workers_def start_worker_def get_idle_worker_def proxy_run_worker_def Let_def)

lemma busier_start_job: "busier s (start_job r j js s)"
  by (auto simp: busier_def start_job_def set_queued_jobs_def add_active_jobs_def active_jobs_def reserved_jobs_def
      active_workers_def [of "_\<lparr>reply_jobs := _\<rparr>"] active_workers_def [of "_\<lparr>batch_jobs := _\<rparr>"]
      active_workers_def [of "_\<lparr>reply_jobs := _, reply_jobs_active := _\<rparr>"]
      active_workers_def [of "_\<lparr>batch_jobs := _, batch_jobs_active := _\<rparr>"] the_cat_def
      simp flip: active_workers_def)

lemma busier_start_pending: "busier s (start_pending p s)"
proof -
  have "active_workers (upd_cat n f t) = active_workers t" for n f t by (simp add: active_workers_def)
  then show ?thesis by (auto simp: busier_def start_pending_def active_jobs_def reserved_jobs_def the_cat_upd_cat simp del: set_map)
qed

lemma run_batch_jobs_blocked:
  "queued_jobs r s = js \<Longrightarrow> busier s (run_batch_jobs_loop r js s)
     \<and> (queued_jobs r (run_batch_jobs_loop r js s) \<noteq> [] \<longrightarrow> no_room r (run_batch_jobs_loop r js s))
     \<and> queued_jobs (\<not> r) (run_batch_jobs_loop r js s) = queued_jobs (\<not> r) s
     \<and> tagged_workers (run_batch_jobs_loop r js s) = tagged_workers s"
proof (induction r js s rule: run_batch_jobs_loop.induct)
  case (2 r j js s)
  have next_queue: "queued_jobs r (start_job r j js s) = js" "queued_jobs (\<not> r) (start_job r j js s) = queued_jobs (\<not> r) s"
    "tagged_workers (start_job r j js s) = tagged_workers s"
    by (simp_all add: start_job_def set_queued_jobs_def add_active_jobs_def queued_jobs_def)
  show ?case
  proof (cases "no_room r s")
    case True
    then show ?thesis by (auto simp: no_room_def busier_refl)
  next
    case False
    with 2(1) next_queue have "busier (start_job r j js s) (run_batch_jobs_loop r js (start_job r j js s))
      \<and> (queued_jobs r (run_batch_jobs_loop r js (start_job r j js s)) \<noteq> []
          \<longrightarrow> no_room r (run_batch_jobs_loop r js (start_job r j js s)))
      \<and> queued_jobs (\<not> r) (run_batch_jobs_loop r js (start_job r j js s)) = queued_jobs (\<not> r) s
      \<and> tagged_workers (run_batch_jobs_loop r js (start_job r j js s)) = tagged_workers s"
      unfolding no_room_def by simp
    moreover have "run_batch_jobs_loop r (j # js) s = run_batch_jobs_loop r js (start_job r j js s)"
      using False by (simp add: no_room_def)
    ultimately show ?thesis using busier_trans [OF busier_start_job [of s r j js]] by simp
  qed
qed (simp add: busier_refl)

lemma run_pending_blocked:
  "busier s (snd (run_pending_loop ps s))
   \<and> (\<forall>p\<in>set (fst (run_pending_loop ps s)). no_slot (pc_cat p) (snd (run_pending_loop ps s)))
   \<and> queued_jobs r (snd (run_pending_loop ps s)) = queued_jobs r s
   \<and> tagged_workers (snd (run_pending_loop ps s)) = tagged_workers s"
proof (induction ps s rule: run_pending_loop.induct)
  case (2 p ps s)
  have same: "queued_jobs r (start_pending p s) = queued_jobs r s" "tagged_workers (start_pending p s) = tagged_workers s"
    by (simp_all add: start_pending_def queued_jobs_def)
  consider (full) "\<not> active_workers s < max_workers s" | (free) "active_workers s < max_workers s" "slot_free (pc_cat p) s"
    | (skip) "active_workers s < max_workers s" "\<not> slot_free (pc_cat p) s" by blast
  then show ?case
  proof cases
    case full
    then show ?thesis by (simp add: busier_refl no_slot_def)
  next
    case free
    with 2(1) same show ?thesis using busier_trans [OF busier_start_pending [of s p]] by simp
  next
    case skip
    with 2(2) have "busier s (snd (run_pending_loop ps s))" by simp
    moreover have "no_slot (pc_cat p) s" using skip by (simp add: no_slot_def)
    ultimately have "no_slot (pc_cat p) (snd (run_pending_loop ps s))" by (rule busier_blocked(2))
    with skip 2(2) show ?thesis by (simp add: split_beta)
  qed
qed (simp add: busier_refl)

lemma run_tagged_blocked:
  "t \<in> set (fst (run_tagged_loop ts s)) \<Longrightarrow> fst (snd t) \<or> snd (snd t) = []"
proof (induction ts arbitrary: s)
  case (Cons u ts)
  obtain run b queue where "u = (run, b, queue)" by (cases u)
  with Cons show ?case by (cases "\<not> b \<and> queue \<noteq> []") (auto simp: split_beta)
qed simp

section \<open>Properties\<close>

text \<open>
  C17: \<open>proxy_process_queue\<close> leaves no work waiting that could run. Unless the proxy is
  shutting down: when batch jobs or reply jobs are still queued afterwards, every thread is
  busy, or the places reserved for such jobs and the general places are all taken; the same
  holds of every command still waiting and the places of its category; and a tagged thread
  is running or has an empty queue.
\<close>

theorem process_queue_leaves_no_runnable_work:
  assumes "max_workers s \<noteq> 0" and s'_def: "s' = proxy_process_queue s"
  shows "(queued_jobs reply s' \<noteq> [] \<longrightarrow> \<not> (active_workers s' < max_workers s'
            \<and> (active_jobs reply s' < reserved_jobs reply s' \<or> active_workers s' < general_workers s')))
    \<and> (\<forall>p\<in>set (pending_commands s'). \<not> (active_workers s' < max_workers s' \<and> slot_free (pc_cat p) s'))
    \<and> (\<forall>(run, running, queue)\<in>set (tagged_workers s'). running \<or> queue = [])"
proof -
  let ?a = "run_tagged_workers s"
  let ?b = "run_batch_jobs_loop False (queued_jobs False ?a) ?a"
  let ?c = "run_batch_jobs_loop True (queued_jobs True ?b) ?b"
  let ?d = "run_pending_loop (pending_commands ?c) ?c"
  have s': "s' = (snd ?d)\<lparr>pending_commands := fst ?d\<rparr>"
    using assms(1) by (simp add: s'_def proxy_process_queue_def proxy_run_batch_jobs_def run_pending_commands_def Let_def split_beta)
  note b = run_batch_jobs_blocked [of False ?a, OF refl] and c = run_batch_jobs_blocked [of True ?b, OF refl]
    and d = run_pending_blocked [of ?c "pending_commands ?c"]
  have same: "active_workers s' = active_workers (snd ?d)" "the_cat s' = the_cat (snd ?d)" "active_jobs r s' = active_jobs r (snd ?d)"
    "reserved_jobs r s' = reserved_jobs r (snd ?d)" "queued_jobs r s' = queued_jobs r (snd ?d)" for r
    by (simp_all add: s' active_workers_def the_cat_def fun_eq_iff active_jobs_def reserved_jobs_def queued_jobs_def)
  have "queued_jobs r ?c \<noteq> [] \<longrightarrow> no_room r ?c" for r
    using b c busier_blocked(1) [of ?b ?c r] by (cases r) auto
  then have "queued_jobs r s' \<noteq> [] \<longrightarrow> no_room r (snd ?d)" for r
    using d [of r] busier_blocked(1) [of ?c "snd ?d" r] by (simp add: same)
  moreover have "tagged_workers s' = fst (run_tagged_loop (tagged_workers s) s)"
    using b c d by (simp add: s' run_tagged_workers_def split_beta)
  ultimately show ?thesis
    using d run_tagged_blocked [of _ "tagged_workers s" s] unfolding no_room_def no_slot_def slot_free_def same
    by (fastforce simp: s')
qed

text \<open>A state with one category, one general thread and one thread reserved for the category.\<close>

definition sample_sched :: sched where
  "sample_sched =
     \<lparr>proxy_joinable = True, categories = [(''a'', new_category default_Access 1 5)], command_aliases = [],
      general_workers = 1, max_workers = 0, workers = [], workers_capacity = 0, idle_workers = [], tagged_workers = [],
      batch_heap = [], batches = [], batch_jobs = [], reply_jobs = [], batch_jobs_active = 0, reply_jobs_active = 0,
      batch_jobs_reserved = 0, reply_jobs_reserved = 0, pending_commands = [], proxy_skip_one_poll = False,
      timers_created = False, timer_heap = [], timer_jobs = [], timer_zmq_id = [], worker_events = []\<rparr>"

definition sample_ready :: sched where
  "sample_ready = sample_sched\<lparr>max_workers := 2, workers_capacity := 2\<rparr>"

definition sample_command :: pending_command where
  "sample_command = \<lparr>pc_cat = ''a'', pc_command = ''a.b'', pc_data_parts = [], pc_callback = PendingFunction (UserFn 1),
     pc_conn = conn_of_id 0, pc_access = default_Access, pc_remote = ''r''\<rparr>"

text \<open>Two commands and a reply job: the first command runs, the rest has to wait for a place.\<close>

definition sample_busy :: sched where
  "sample_busy = proxy_process_queue (run_or_queue sample_command (run_or_queue sample_command
     (proxy_process_queue (proxy_schedule_reply_job (UserFn 3) sample_ready))))"

lemma sample_reachable: "sched_reachable sample_ready" "sched_reachable sample_busy"
proof -
  have "proxy_reserve_workers sample_sched = Inr sample_ready"
    by (simp add: proxy_reserve_workers_def sample_ready_def sample_sched_def new_category_def)
  moreover have "sched_start sample_sched"
    by (simp add: sched_start_def sample_sched_def new_category_def)
  ultimately show ready: "sched_reachable sample_ready" by (intro sched_reachable.start)
  let ?s = "proxy_process_queue (proxy_schedule_reply_job (UserFn 3) sample_ready)"
  have "sched_reachable ?s"
    by (rule sched_reachable.step [OF sched_reachable.step [OF ready sched_step.reply_job] sched_step.process_queue])
  moreover have "''a'' \<in> set (map fst (categories ?s))" by code_simp
  then have "sched_step ?s (run_or_queue sample_command ?s)"
    by (intro sched_step.command) (simp add: sample_command_def)
  moreover have "''a'' \<in> set (map fst (categories (run_or_queue sample_command ?s)))" by code_simp
  then have "sched_step (run_or_queue sample_command ?s) (run_or_queue sample_command (run_or_queue sample_command ?s))"
    by (intro sched_step.command) (simp add: sample_command_def)
  ultimately show "sched_reachable sample_busy"
    unfolding sample_busy_def by (meson sched_reachable.step sched_step.process_queue)
qed

theorem process_queue_leaves_no_runnable_work_witness:
  "length (pending_commands sample_busy) = 1 \<and> \<not> slot_free ''a'' sample_busy"
proof -
  let ?s = "run_or_queue sample_command (run_or_queue sample_command
     (proxy_process_queue (proxy_schedule_reply_job (UserFn 3) sample_ready)))"
  have "max_workers ?s \<noteq> 0" by code_simp
  moreover have "length (pending_commands sample_busy) = 1" "map pc_cat (pending_commands sample_busy) = [''a'']" by code_simp+
  moreover have "active_workers sample_busy = 2" "max_workers sample_busy = 2" by code_simp+
  moreover have "\<not> slot_free ''a'' sample_busy" by code_simp
  ultimately show ?thesis
    using process_queue_leaves_no_runnable_work [of ?s sample_busy False, OF _ sample_busy_def] by auto
qed



text \<open>
  C4: no use of a freed batch. In every reachable state, each job that is queued or running
  names a batch that is still allocated, with a number that is valid in it, and its result
  slot exists as long as jobs of the batch are outstanding; and the message \<open>RAN\<close> of any worker
  that was given work is processed without following a dangling pointer, freeing a batch
  twice or reading a run description of the wrong kind.
\<close>

theorem batch_pointers_valid:
  assumes "sched_reachable s"
  shows "(\<forall>p i. (p, i) \<in># in_flight s \<longrightarrow> (\<exists>b. map_of (batch_heap s) p = Some b
           \<and> (i = -1 \<and> jobs_outstanding b = 0
              \<or> 0 \<le> i \<and> nat i < length (b_jobs b) \<and> length (b_results b) = length (b_jobs b))))
    \<and> (\<forall>w route. worker_running w s \<and> route_worker route = Inr (w, True)
           \<longrightarrow> (\<exists>s'. proxy_worker_message [route, ''RAN''] s = Inr s'))"
proof -
  have inv: "sched_inv s" "batch_inv s" using reachable_inv [OF assms] by (simp_all add: sched_inv_def)
  have "\<exists>b. map_of (batch_heap s) p = Some b
      \<and> (i = -1 \<and> jobs_outstanding b = 0 \<or> 0 \<le> i \<and> nat i < length (b_jobs b) \<and> length (b_results b) = length (b_jobs b))"
    if j: "(p, i) \<in># in_flight s" for p i
  proof -
    from inv(2) j obtain b where b: "map_of (batch_heap s) p = Some b" "batch_at b (of_batch p (in_flight s))"
      unfolding batch_inv_def by fastforce
    let ?J = "of_batch p (in_flight s)"
    from b(2) have at: "\<forall>j\<in>#?J. snd j = -1 \<or> 0 \<le> snd j \<and> nat (snd j) < length (b_jobs b)"
        "size {#j \<in># ?J. snd j \<noteq> -1#} = jobs_outstanding b"
        "size {#j \<in># ?J. snd j = -1#} = (if jobs_outstanding b = 0 then 1 else 0)"
        "jobs_outstanding b \<noteq> 0 \<longrightarrow> length (b_results b) = length (b_jobs b)"
      unfolding batch_at_def by blast+
    have m: "(p, i) \<in># ?J" using j by (simp add: of_batch_def)
    then have present: "P (p, i) \<Longrightarrow> size {#j \<in># ?J. P j#} \<noteq> 0" for P using filter_empty_size [of P ?J "(p, i)"] by metis
    show ?thesis
    proof (cases "i = -1")
      case True
      with present [of "\<lambda>j. snd j = -1"] at(3) b(1) show ?thesis by (simp split: if_splits)
    next
      case False
      with present [of "\<lambda>j. snd j \<noteq> -1"] at(2,4) bspec [OF at(1) m] b(1) show ?thesis by simp
    qed
  qed
  moreover have "\<exists>s'. proxy_worker_message [route, ''RAN''] s = Inr s'"
    if "worker_running w s" "route_worker route = Inr (w, True)" for w route
    using sched_inv_worker_ran [OF inv(1) that(1)] ran_message [OF that] by metis
  ultimately show ?thesis by blast
qed

theorem batch_pointers_valid_witness:
  "\<exists>b. map_of (batch_heap sample_busy) 1 = Some b \<and> length (b_results b) = 1"
proof -
  have "busy sample_busy = {0, 1}" by code_simp
  then have "running_jobs sample_busy = jobs_of_run (workers sample_busy ! 0) + jobs_of_run (workers sample_busy ! 1)"
    by (simp add: running_jobs_def)
  moreover have "jobs_of_run (workers sample_busy ! 0) = {#(1, 0)#}" by code_simp
  ultimately have "(1, 0) \<in># in_flight sample_busy" by (simp add: in_flight_def)
  with batch_pointers_valid [OF sample_reachable(2)]
  obtain b where b: "map_of (batch_heap sample_busy) 1 = Some b" "length (b_results b) = length (b_jobs b)" by fastforce
  moreover have "map_option (\<lambda>b. length (b_jobs b)) (map_of (batch_heap sample_busy) 1) = Some 1" by code_simp
  ultimately show ?thesis by auto
qed

text \<open>
  C19: no batch leaks. A batch the proxy has taken over always has a job in flight, or its
  completion; so when the queues are empty and no worker runs a job, every batch has been
  freed.
\<close>

theorem batches_not_leaked:
  assumes "sched_reachable s" "p \<in> set (batches s)"
  shows "\<exists>i. (p, i) \<in># in_flight s"
proof -
  from reachable_inv [OF assms(1)] assms(2) obtain b where "batch_at b (of_batch p (in_flight s))"
    unfolding sched_inv_def batch_inv_def by blast
  then have "of_batch p (in_flight s) \<noteq> {#}" by (auto simp: batch_at_def split: if_splits)
  then obtain j where "j \<in># of_batch p (in_flight s)" by (meson multiset_nonemptyE)
  then show ?thesis by (cases j) (auto simp: of_batch_def)
qed

theorem batches_not_leaked_witness: "\<exists>i. (1, i) \<in># in_flight sample_busy"
proof -
  have "1 \<in> set (batches sample_busy)" by code_simp
  from batches_not_leaked [OF sample_reachable(2) this] show ?thesis .
qed

text \<open>
  C20: in every reachable state the counter \<open>queued\<close> of a category is the number of its
  commands that wait in \<open>pending_commands\<close>, and it stays within \<open>max_queue\<close> unless that is
  negative, which means unlimited.
\<close>

theorem queue_counters:
  assumes "sched_reachable s" "n \<in> set (map fst (categories s))"
  shows "queued (the_cat s n) = int (length (filter (\<lambda>p. pc_cat p = n) (pending_commands s)))
    \<and> (0 \<le> max_queue (the_cat s n) \<longrightarrow> queued (the_cat s n) \<le> max_queue (the_cat s n))"
  using reachable_inv [OF assms(1)] assms(2) unfolding queue_inv_def waiting_def by blast

theorem queue_counters_witness:
  "queued (the_cat sample_busy ''a'') = 1 \<and> 1 \<le> max_queue (the_cat sample_busy ''a'')"
proof -
  have "''a'' \<in> set (map fst (categories sample_busy))" by code_simp
  from queue_counters [OF sample_reachable(2) this]
  have q: "queued (the_cat sample_busy ''a'') = int (length (filter (\<lambda>p. pc_cat p = ''a'') (pending_commands sample_busy)))"
    "0 \<le> max_queue (the_cat sample_busy ''a'') \<longrightarrow> queued (the_cat sample_busy ''a'') \<le> max_queue (the_cat sample_busy ''a'')"
    by blast+
  moreover have "length (filter (\<lambda>p. pc_cat p = ''a'') (pending_commands sample_busy)) = 1" by code_simp
  moreover have "max_queue (the_cat sample_busy ''a'') = 5" by code_simp
  ultimately show ?thesis by simp
qed

text \<open>
  A reply job and a command run and return, \<open>QUIT\<close> arrives, and another command comes in
  while the proxy waits for its workers to end.
\<close>

definition sample_quit :: "sched result" where
  "sample_quit =
     bind_result (proxy_worker_message [''w0'', ''RAN'']
         (run_or_queue sample_command (proxy_process_queue (proxy_schedule_reply_job (UserFn 3) sample_ready)))) (\<lambda>s.
     bind_result (proxy_worker_message [''w1'', ''RAN''] s) (\<lambda>s.
     Inr (run_or_queue sample_command (proxy_control_quit s))))"


end
