(* ===== verification/Round_Trips.thy ===== *)
theory Round_Trips
  imports Control Scheduler_Steps
begin

text \<open>
  What one thread asks for is what the proxy reads: the control messages that the calls of
  \<^verbatim>\<open>src/arqmamq/arqmamq.h\<close> build, read back by the handlers of
  \<^verbatim>\<open>proxy.cpp\<close>.
\<close>

section \<open>Reading fields in order\<close>

text \<open>The entries of a dict after a key.\<close>

definition after_key :: "bytes \<Rightarrow> (bytes \<times> 'a) list \<Rightarrow> (bytes \<times> 'a) list" where
  "after_key k d = dropWhile (\<lambda>kv. fst kv \<le> k) d"

lemma after_key_ok: "bt_dict_ok d \<Longrightarrow> bt_dict_ok (after_key k d)"
  unfolding bt_dict_ok_def after_key_def by (induction d) auto

lemma map_of_after_key: "bt_dict_ok d \<Longrightarrow> k < k' \<Longrightarrow> map_of (after_key k d) k' = map_of d k'"
  unfolding after_key_def by (induction d) (auto simp: bt_dict_ok_def)

lemma after_key_again: "k < k' \<Longrightarrow> after_key k' (after_key k d) = after_key k' d"
  unfolding after_key_def by (induction d) auto

lemma after_key_start: "[] \<notin> fst ` set d \<Longrightarrow> after_key [] d = d"
  unfolding after_key_def by (cases d) (auto simp: le_less)

context dict_cursor
begin

lemma field_after:
  assumes "at c (after_key k0 d)" "bt_dict_ok d" "k0 < k" "\<And>v. map_of d k = Some v \<Longrightarrow> \<exists>x. convert v = Some x"
  obtains c' where "bind_result (skip_to k c) (\<lambda>(found, c).
             if found then bind_result (consume c) (\<lambda>(x, c). Inr (Some x, c)) else Inr (None, c))
           = Inr (Option.bind (map_of d k) convert, c')" "at c' (after_key k d)"
proof -
  have "k \<noteq> []" using assms(3) by auto
  from field_lookup [OF assms(1) this after_key_ok [OF assms(2)]] assms(4) obtain c' where
    "bind_result (skip_to k c) (\<lambda>(found, c). if found then bind_result (consume c) (\<lambda>(x, c). Inr (Some x, c)) else Inr (None, c))
       = Inr (Option.bind (map_of (after_key k0 d) k) convert, c')" "at c' (dropWhile (\<lambda>kv. fst kv \<le> k) (after_key k0 d))"
    by (auto simp: map_of_after_key [OF assms(2,3)])
  moreover have "dropWhile (\<lambda>kv. fst kv \<le> k) (after_key k0 d) = after_key k d"
    using after_key_again [OF assms(3), of d] by (simp add: after_key_def)
  ultimately show thesis using that map_of_after_key [OF assms(2,3)] by simp
qed

text \<open>Going to a field without reading it.\<close>

lemma skip_after:
  assumes "at c (after_key k0 d)" "bt_dict_ok d" "k0 < k"
  obtains c' where "skip_to k c = Inr (map_of d k \<noteq> None, c')"
    "at c' ((case map_of d k of None \<Rightarrow> [] | Some v \<Rightarrow> [(k, v)]) @ after_key k d)"
proof -
  have "k \<noteq> []" using assms(3) by auto
  from skip_to_found [OF assms(1) this after_key_ok [OF assms(2)]] obtain c' where
    "skip_to k c = Inr (map_of (after_key k0 d) k \<noteq> None, c')" "at c' (dropWhile (\<lambda>kv. fst kv < k) (after_key k0 d))" .
  moreover have "dropWhile (\<lambda>kv. fst kv \<le> k) (after_key k0 d) = after_key k d"
    using after_key_again [OF assms(3), of d] by (simp add: after_key_def)
  ultimately show thesis
    using that dict_split [OF after_key_ok [OF assms(2)], of k k0] map_of_after_key [OF assms(2,3)] by simp
qed

end

text \<open>
  The value a field of a dict stands for: the one its entry converts to, or a default when
  there is no entry.
\<close>

definition holds :: "bt_dict \<Rightarrow> bytes \<Rightarrow> (bt_value \<Rightarrow> 'a option) \<Rightarrow> 'a \<Rightarrow> 'a \<Rightarrow> bool" where
  "holds d k conv dflt x \<longleftrightarrow> (case map_of d k of None \<Rightarrow> x = dflt | Some v \<Rightarrow> conv v = Some x)"

definition str_value :: "bt_value \<Rightarrow> bytes option" where
  "str_value v = (case v of BtString x \<Rightarrow> Some x | BtStringView x \<Rightarrow> Some x | _ \<Rightarrow> None)"

definition bool_value :: "bt_value \<Rightarrow> bool option" where
  "bool_value v = (case int_of_value v of Some i \<Rightarrow> if 0 \<le> i \<and> i \<le> 1 then Some (i = 1) else None | None \<Rightarrow> None)"

definition ms_value :: "bt_value \<Rightarrow> int option" where
  "ms_value v = (case int_of_value v of Some i \<Rightarrow> if 0 \<le> i \<and> i < 2 ^ 63 then Some i else None | None \<Rightarrow> None)"

definition object_value :: "(obj \<Rightarrow> 'a option) \<Rightarrow> (ptr \<times> obj) list \<Rightarrow> bt_value \<Rightarrow> 'a option" where
  "object_value as m v = (case v of BtUint64 w \<Rightarrow> Option.bind (map_of m (unat w)) as | _ \<Rightarrow> None)"

lemma sint_in_range: "- (2 ^ 63) \<le> i \<Longrightarrow> i < 2 ^ 63 \<Longrightarrow> sint (word_of_int i :: 64 word) = i"
  by (simp add: sint_sbintrunc' signed_take_bit_int_eq_self)

lemma to_ms_id: "0 \<le> i \<Longrightarrow> i < 2 ^ 63 \<Longrightarrow> to_ms i = i"
  by (simp add: to_ms_def sint_in_range)

lemma uint64_range: "0 \<le> i \<Longrightarrow> i < 2 ^ 63 \<Longrightarrow> int_type_ok uint64 \<and> in_range uint64 i"
  by (simp add: int_type_ok_def in_range_def smin_def umax_def uint64_def)

lemma bool_range: "0 \<le> i \<Longrightarrow> i \<le> 1 \<Longrightarrow> int_type_ok bool_type \<and> in_range bool_type i"
  by (simp add: int_type_ok_def in_range_def smin_def umax_def bool_type_def)

lemma read_string_at:
  assumes "cursor_at c (after_key k0 d)" "bt_dict_ok d" "k0 < k" "holds d k str_value [] x"
  obtains c' where "read_string k c = Inr (x, c')" "cursor_at c' (after_key k d)"
proof -
  let ?conv = "\<lambda>v. case v of BtString s \<Rightarrow> Some s | BtStringView s \<Rightarrow> Some s | _ \<Rightarrow> None"
  have "\<exists>y. ?conv v = Some y" if "map_of d k = Some v" for v
    using assms(4) that by (simp add: holds_def str_value_def)
  from string_field.field_after [OF assms(1-3) this] obtain c' where
    "opt_field k dict_consume_string c = Inr (Option.bind (map_of d k) ?conv, c')" "cursor_at c' (after_key k d)"
    unfolding opt_field_def by blast
  then show thesis
    using that assms(4) by (auto simp: read_string_def or_else_def holds_def str_value_def split: option.splits)
qed

lemma int_field_at:
  assumes "cursor_at c (after_key k0 d)" "bt_dict_ok d" "k0 < k"
    and "\<And>v. map_of d k = Some v \<Longrightarrow> \<exists>i. int_of_value v = Some i \<and> int_type_ok T \<and> in_range T i"
  obtains c' where "opt_field k (dict_consume_integer T) c = Inr (Option.bind (map_of d k) int_of_value, c')"
    "cursor_at c' (after_key k d)"
proof -
  let ?conv = "\<lambda>v. case int_of_value v of Some i \<Rightarrow> if int_type_ok T \<and> in_range T i then Some i else None | None \<Rightarrow> None"
  have "\<exists>x. ?conv v = Some x" if "map_of d k = Some v" for v using assms(4) [OF that] by auto
  from int_field.field_after [OF assms(1-3) this] obtain c' where
    "opt_field k (dict_consume_integer T) c = Inr (Option.bind (map_of d k) ?conv, c')" "cursor_at c' (after_key k d)"
    unfolding opt_field_def by blast
  moreover have "Option.bind (map_of d k) ?conv = Option.bind (map_of d k) int_of_value"
    using assms(4) by (cases "map_of d k") auto
  ultimately show thesis using that by simp
qed

lemma read_bool_at:
  assumes "cursor_at c (after_key k0 d)" "bt_dict_ok d" "k0 < k" "holds d k bool_value False b"
  obtains c' where "read_bool k c = Inr (b, c')" "cursor_at c' (after_key k d)"
proof -
  have "\<exists>i. int_of_value v = Some i \<and> int_type_ok bool_type \<and> in_range bool_type i" if "map_of d k = Some v" for v
    using assms(4) that bool_range by (auto simp: holds_def bool_value_def split: option.splits if_splits)
  from int_field_at [OF assms(1-3) this] obtain c' where
    "opt_field k (dict_consume_integer bool_type) c = Inr (Option.bind (map_of d k) int_of_value, c')" "cursor_at c' (after_key k d)" .
  then show thesis
    using that assms(4) by (auto simp: read_bool_def holds_def bool_value_def split: option.splits if_splits)
qed

lemma read_ms_at:
  assumes "cursor_at c (after_key k0 d)" "bt_dict_ok d" "k0 < k" "holds d k ms_value dflt t"
  obtains c' where "read_ms k dflt c = Inr (t, c')" "cursor_at c' (after_key k d)"
proof -
  have "\<exists>i. int_of_value v = Some i \<and> int_type_ok uint64 \<and> in_range uint64 i" if "map_of d k = Some v" for v
    using assms(4) that uint64_range by (auto simp: holds_def ms_value_def split: option.splits if_splits)
  from int_field_at [OF assms(1-3) this] obtain c' where
    "opt_field k (dict_consume_integer uint64) c = Inr (Option.bind (map_of d k) int_of_value, c')" "cursor_at c' (after_key k d)" .
  then show thesis
    using that assms(4) to_ms_id by (auto simp: read_ms_def or_else_def holds_def ms_value_def split: option.splits if_splits)
qed

text \<open>
  A field with an object: the object is taken out of memory, and those that other fields hold,
  which are of other types, stay.
\<close>

definition drop_object :: "bt_value option \<Rightarrow> (ptr \<times> obj) list \<Rightarrow> (ptr \<times> obj) list" where
  "drop_object v m = (case v of Some (BtUint64 w) \<Rightarrow> filter (\<lambda>(q, _). q \<noteq> unat w) m | _ \<Rightarrow> m)"

lemma object_field_at:
  assumes "cursor_at c (after_key k0 d)" "bt_dict_ok d" "k0 < k" "holds d k (object_value as (objects s)) x0 x"
  obtains c' where "object_field k as c s = Inr (if map_of d k = None then None else Some x, c', s\<lparr>objects := drop_object (map_of d k) (objects s)\<rparr>)"
    "cursor_at c' (after_key k d)"
proof -
  have ptr: "\<exists>w. v = BtUint64 w \<and> Option.bind (map_of (objects s) (unat w)) as = Some x" if "map_of d k = Some v" for v
    using assms(4) that by (auto simp: holds_def object_value_def split: bt_value.splits)
  have "\<exists>i. int_of_value v = Some i \<and> int_type_ok uint64 \<and> in_range uint64 i" if "map_of d k = Some v" for v
  proof -
    from ptr [OF that] obtain w where v: "v = BtUint64 w" by blast
    have "uint w < 2 ^ 64" using uint_lt2p [of w] by simp
    with v show ?thesis by (simp add: int_type_ok_def in_range_def smin_def umax_def uint64_def)
  qed
  from int_field_at [OF assms(1-3) this] obtain c' where
    c': "opt_field k (dict_consume_integer uint64) c = Inr (Option.bind (map_of d k) int_of_value, c')" "cursor_at c' (after_key k d)" .
  show thesis
  proof (cases "map_of d k")
    case None
    with c' that show thesis by (simp add: object_field_def drop_object_def)
  next
    case (Some v)
    with ptr obtain w where "v = BtUint64 w" "Option.bind (map_of (objects s) (unat w)) as = Some x" by blast
    with c' that Some show thesis
      by (auto simp: object_field_def drop_object_def deserialize_object_def)
  qed
qed

lemma map_of_filter_key: "q \<noteq> p \<Longrightarrow> map_of (filter (\<lambda>(r, _). r \<noteq> p) m) q = map_of m q"
  by (induction m) auto

lemma object_value_drop:
  assumes "object_value as m v = Some x" "object_value as' m v' = Some y" "\<And>z. as z = None \<or> as' z = None"
  shows "object_value as' (drop_object (Some v) m) v' = Some y"
proof -
  obtain w z where w: "v = BtUint64 w" "map_of m (unat w) = Some z" "as z = Some x"
    using assms(1) by (auto simp: object_value_def bind_eq_Some_conv split: bt_value.splits)
  obtain w' z' where w': "v' = BtUint64 w'" "map_of m (unat w') = Some z'" "as' z' = Some y"
    using assms(2) by (auto simp: object_value_def bind_eq_Some_conv split: bt_value.splits)
  have "unat w' \<noteq> unat w" using w w' assms(3) [of z] by auto
  then show ?thesis using w(1) w' by (simp add: object_value_def drop_object_def map_of_filter_key)
qed

lemma holds_drop:
  assumes "holds d k (object_value as m) x0 x" "holds d k' (object_value as' m) y0 y" "\<And>z. as z = None \<or> as' z = None"
  shows "holds d k' (object_value as' (drop_object (map_of d k) m)) y0 y"
proof (cases "map_of d k")
  case None
  with assms(2) show ?thesis by (simp add: drop_object_def)
next
  case (Some v)
  with assms show ?thesis using object_value_drop [of as m v x as' _ y] by (auto simp: holds_def split: option.splits)
qed

section \<open>What the options of a message mean\<close>

text \<open>
  A message to send as the caller describes it: the arguments the proxy is to read, with the
  parts of the message and the timeout a request is given.
\<close>

record sending = send_args +
  sp_parts :: "bytes list"
  sp_timeout :: int

definition new_sending :: "bytes \<Rightarrow> sending" where
  "new_sending cmd = \<lparr>sa_conn = conn_of_id 0, sa_hint = [], sa_incoming = False, sa_keep_alive = DEFAULT_SEND_KEEP_ALIVE,
     sa_optional = False, sa_outgoing = False, sa_request = None, sa_send = [], sa_fail = 0, sa_full = 0,
     sp_parts = [cmd], sp_timeout = DEFAULT_REQUEST_TIMEOUT\<rparr>"

fun spec_option :: "send_option \<Rightarrow> sending \<Rightarrow> sending" where
  "spec_option (SendPart arg) a = a\<lparr>sp_parts := sp_parts a @ [arg]\<rparr>"
| "spec_option (SendOpt opt) a = (case opt of Some x \<Rightarrow> spec_option x a | None \<Rightarrow> a)"
| "spec_option (SendDataParts data) a = a\<lparr>sp_parts := sp_parts a @ data\<rparr>"
| "spec_option (SendHint hint) a = a\<lparr>sa_hint := hint\<rparr>"
| "spec_option (SendOptional b) a = a\<lparr>sa_optional := b\<rparr>"
| "spec_option (SendIncoming b) a = a\<lparr>sa_incoming := b\<rparr>"
| "spec_option (SendOutgoing b) a = a\<lparr>sa_outgoing := b\<rparr>"
| "spec_option (SendKeepAlive t) a = a\<lparr>sa_keep_alive := t\<rparr>"
| "spec_option (SendRequestTimeout t) a = a\<lparr>sp_timeout := t\<rparr>"
| "spec_option (SendQueueFailure f) a = a\<lparr>sa_fail := f\<rparr>"
| "spec_option (SendQueueFull f) a = a\<lparr>sa_full := f\<rparr>"

text \<open>Durations must not be negative: the proxy reads them as unsigned numbers.\<close>

fun send_option_ok :: "send_option \<Rightarrow> bool" where
  "send_option_ok (SendPart arg) \<longleftrightarrow> size_ok arg"
| "send_option_ok (SendOpt opt) \<longleftrightarrow> (case opt of Some x \<Rightarrow> send_option_ok x | None \<Rightarrow> True)"
| "send_option_ok (SendDataParts data) \<longleftrightarrow> list_all size_ok data"
| "send_option_ok (SendHint hint) \<longleftrightarrow> size_ok hint"
| "send_option_ok (SendKeepAlive t) \<longleftrightarrow> 0 \<le> t \<and> t < 2 ^ 63"
| "send_option_ok (SendRequestTimeout t) \<longleftrightarrow> 0 \<le> t \<and> t < 2 ^ 63"
| "send_option_ok _ \<longleftrightarrow> True"

section \<open>Building the dict\<close>

lemma map_of_put [simp]: "map_of (dict_put k v d) = (map_of d)(k \<mapsto> v)"
  by (induction k v d rule: dict_put.induct) (auto simp: fun_eq_iff)

lemma set_put: "set (dict_put k v d) \<subseteq> insert (k, v) (set d)"
  by (induction k v d rule: dict_put.induct) auto

lemma put_keys [simp]: "fst ` set (dict_put k v d) = insert k (fst ` set d)"
  by (induction k v d rule: dict_put.induct) auto

lemma put_ok: "bt_dict_ok d \<Longrightarrow> bt_dict_ok (dict_put k v d)"
proof (induction k v d rule: dict_put.induct)
  case (2 k v k' v' d)
  have "fst kv \<in> insert k (fst ` set d)" if "kv \<in> set (dict_put k v d)" for kv
    using that put_keys [of k v d] by blast
  with 2 show ?case by (fastforce simp: bt_dict_ok_def)
qed (simp add: bt_dict_ok_def)

lemma holds_put [simp]:
  "holds (dict_put k v d) k' conv x0 x \<longleftrightarrow> (if k = k' then conv v = Some x else holds d k' conv x0 x)"
  by (simp add: holds_def)

definition dict_fine :: "bt_dict \<Rightarrow> bool" where
  "dict_fine d \<longleftrightarrow> bt_dict_ok d \<and> list_all entry_ok d \<and> [] \<notin> fst ` set d"

lemma put_fine: "dict_fine d \<Longrightarrow> k \<noteq> [] \<Longrightarrow> size_ok k \<Longrightarrow> bt_value_ok v \<Longrightarrow> dict_fine (dict_put k v d)"
  using set_put [of k v d] by (auto simp: dict_fine_def put_ok list_all_iff entry_ok_def)

lemma value_simps [simp]:
  "str_value (BtString x) = Some x" "str_value (BtStringView x) = Some x" "bool_value (bt_bool b) = Some b"
  "0 \<le> t \<Longrightarrow> t < 2 ^ 63 \<Longrightarrow> ms_value (bt_ll t) = Some t"
  "bt_value_ok (bt_bool b)" "bt_value_ok (bt_ll t)" "bt_value_ok (bt_ptr p)"
  by (cases b; simp add: str_value_def bool_value_def bt_bool_def bt_value_of_int_def bool_type_def ms_value_def bt_ll_def
      int64_def sint_in_range bt_ptr_def uint64_def)+

lemma foldr_max_append: "foldr max (ks @ [k]) (0 :: nat) = max (foldr max ks 0) k"
  by (induction ks) auto

lemma fresh_ptr_append: "fresh_ptr (m @ [(fresh_ptr m, x)]) = Suc (fresh_ptr m)"
proof -
  have "foldr max (map fst (m @ [(fresh_ptr m, x)])) 0 = fresh_ptr m"
    unfolding map_append list.map fst_conv foldr_max_append by (simp add: fresh_ptr_def)
  then show ?thesis by (simp add: fresh_ptr_def [of "m @ [(fresh_ptr m, x)]"])
qed

lemma object_value_new:
  assumes "fresh_ptr m < 2 ^ 64"
  shows "object_value as (m @ [(fresh_ptr m, x)]) (bt_ptr (fresh_ptr m)) = as x"
proof -
  have "unat (word_of_nat (fresh_ptr m) :: 64 word) = fresh_ptr m"
    using assms by (rule unat_word64)
  then show ?thesis
    by (simp add: object_value_def bt_ptr_def bt_value_of_int_def uint64_def fresh_ptr_not_in map_add_def)
qed

lemma object_value_mono: "object_value as m v = Some y \<Longrightarrow> object_value as (m @ [e]) v = Some y"
  by (auto simp: object_value_def bind_eq_Some_conv map_add_def split: bt_value.splits option.splits)

lemma holds_mono: "holds d k (object_value as m) x0 x \<Longrightarrow> holds d k (object_value as (m @ [e])) x0 x"
  by (auto simp: holds_def intro: object_value_mono split: option.splits)

text \<open>The dict \<open>d\<close>, with objects in the memory \<open>m\<close>, stands for the options of \<open>a\<close>.\<close>

definition represents :: "bt_dict \<Rightarrow> (ptr \<times> obj) list \<Rightarrow> sending \<Rightarrow> bool" where
  "represents d m a \<longleftrightarrow> dict_fine d
     \<and> holds d ''hint'' str_value [] (sa_hint a) \<and> holds d ''incoming'' bool_value False (sa_incoming a)
     \<and> holds d ''keep_alive'' ms_value DEFAULT_SEND_KEEP_ALIVE (sa_keep_alive a)
     \<and> holds d ''optional'' bool_value False (sa_optional a) \<and> holds d ''outgoing'' bool_value False (sa_outgoing a)
     \<and> holds d ''request_timeout'' ms_value DEFAULT_REQUEST_TIMEOUT (sp_timeout a)
     \<and> holds d ''send_fail'' (object_value as_queue_failure m) 0 (sa_fail a)
     \<and> holds d ''send_full_q'' (object_value as_queue_full m) 0 (sa_full a)"

definition parts_are :: "bt_list \<Rightarrow> bytes list \<Rightarrow> bool" where
  "parts_are vs ps \<longleftrightarrow> list_all2 (\<lambda>v p. str_value v = Some p \<and> size_ok p) vs ps"

lemma represents_mono: "represents d m a \<Longrightarrow> represents d (m @ [e]) a"
  by (simp add: represents_def holds_mono)

text \<open>The keys that \<open>build_send\<close> and \<open>request\<close> set beside the options.\<close>

lemma represents_put_other:
  assumes "represents d m a" "k \<in> {''conn_id'', ''conn_pubkey'', ''conn_route'', ''request'', ''request_callback'', ''request_tag'', ''send''}"
    and "bt_value_ok v"
  shows "represents (dict_put k v d) m a"
proof -
  have "k \<noteq> []" "size_ok k" using assms(2) by (auto simp: size_ok_def)
  then have "dict_fine (dict_put k v d)" using assms(1,3) by (simp add: represents_def put_fine)
  with assms show ?thesis by (auto simp: represents_def)
qed

text \<open>Two states that differ at most in the objects.\<close>

definition but_objects :: "net \<Rightarrow> net \<Rightarrow> bool" where
  "but_objects s s' \<longleftrightarrow> (\<exists>m. s' = s\<lparr>objects := m\<rparr>)"

lemma but_objectsI [simp]: "but_objects s s" "but_objects s (s\<lparr>objects := m\<rparr>)"
  by (auto simp: but_objects_def intro: exI [of _ "objects s"])

lemma but_objects_trans: "but_objects s t \<Longrightarrow> but_objects t u \<Longrightarrow> but_objects s u"
  by (auto simp: but_objects_def)

lemma apply_represents:
  assumes "represents d (objects s) a" "parts_are vs (sp_parts a)" "send_option_ok opt" "fresh_ptr (objects s) < 2 ^ 64"
    and "apply_send_option opt (vs, d, s) = (vs', d', s')"
  shows "represents d' (objects s') (spec_option opt a) \<and> parts_are vs' (sp_parts (spec_option opt a))
    \<and> fresh_ptr (objects s') \<le> Suc (fresh_ptr (objects s)) \<and> but_objects s s'
    \<and> sa_conn (spec_option opt a) = sa_conn a \<and> sa_request (spec_option opt a) = sa_request a \<and> sa_send (spec_option opt a) = sa_send a"
proof -
  have fine: "dict_fine (dict_put k v d)" if "k \<noteq> []" "size_ok k" "bt_value_ok v" for k v
    using assms(1) that by (simp add: represents_def put_fine)
  have parts: "parts_are (xs @ ys) (ps @ qs)" if "parts_are xs ps" "parts_are ys qs" for xs ys ps qs
    using that by (simp add: parts_are_def list_all2_appendI)
  have strings: "parts_are (map BtString data) data" if "list_all size_ok data" for data
    using that by (induction data) (simp_all add: parts_are_def)
  have one: "parts_are [BtStringView arg] [arg]" if "size_ok arg" for arg using that by (simp add: parts_are_def)
  show ?thesis
    using assms fine
  proof (induction opt "(vs, d, s)" arbitrary: vs d s rule: apply_send_option.induct)
    case (2 opt vs d s)
    then show ?case by (cases opt) auto
  next
    case (10 f vs d s)
    then show ?case
      by (auto simp: put_object_def serialize_object_def Let_def represents_def object_value_new holds_mono size_ok_def fresh_ptr_append)
  next
    case (11 f vs d s)
    then show ?case
      by (auto simp: put_object_def serialize_object_def Let_def represents_def object_value_new holds_mono size_ok_def fresh_ptr_append)
  qed (auto simp: represents_def size_ok_def parts strings one)
qed

abbreviation other_keys :: "bytes set" where
  "other_keys \<equiv> {''conn_id'', ''conn_pubkey'', ''conn_route'', ''request'', ''request_callback'', ''request_tag'', ''send''}"

lemma apply_keeps:
  "k \<in> other_keys \<Longrightarrow> apply_send_option opt (vs, d, s) = (vs', d', s') \<Longrightarrow> map_of d' k = map_of d k"
proof (induction opt "(vs, d, s)" arbitrary: vs d s rule: apply_send_option.induct)
  case (2 opt vs d s)
  then show ?case by (cases opt) auto
qed (auto simp: put_object_def serialize_object_def Let_def)

lemma fold_represents:
  assumes "represents d (objects s) a" "parts_are vs (sp_parts a)" "list_all send_option_ok opts"
    and "fresh_ptr (objects s) + length opts \<le> 2 ^ 64" "fold apply_send_option opts (vs, d, s) = (vs', d', s')"
  shows "represents d' (objects s') (fold spec_option opts a) \<and> parts_are vs' (sp_parts (fold spec_option opts a))
    \<and> fresh_ptr (objects s') \<le> fresh_ptr (objects s) + length opts \<and> but_objects s s'
    \<and> sa_conn (fold spec_option opts a) = sa_conn a \<and> sa_request (fold spec_option opts a) = sa_request a
    \<and> sa_send (fold spec_option opts a) = sa_send a \<and> (\<forall>k\<in>other_keys. map_of d' k = map_of d k)"
  using assms
proof (induction opts arbitrary: vs d s a)
  case (Cons opt opts)
  obtain vs1 d1 s1 where one: "apply_send_option opt (vs, d, s) = (vs1, d1, s1)" by (metis surj_pair)
  have step: "represents d1 (objects s1) (spec_option opt a)" "parts_are vs1 (sp_parts (spec_option opt a))"
      "fresh_ptr (objects s1) \<le> Suc (fresh_ptr (objects s))" "but_objects s s1"
      "sa_conn (spec_option opt a) = sa_conn a" "sa_request (spec_option opt a) = sa_request a" "sa_send (spec_option opt a) = sa_send a"
    using apply_represents [OF Cons.prems(1,2) _ _ one] Cons.prems(3,4) by simp_all
  have "fold apply_send_option opts (vs1, d1, s1) = (vs', d', s')" using Cons.prems(5) one by simp
  from Cons.IH [OF step(1,2) _ _ this] Cons.prems(3,4) step(3)
  have rest: "represents d' (objects s') (fold spec_option opts (spec_option opt a))"
      "parts_are vs' (sp_parts (fold spec_option opts (spec_option opt a)))"
      "fresh_ptr (objects s') \<le> fresh_ptr (objects s1) + length opts" "but_objects s1 s'"
      "sa_conn (fold spec_option opts (spec_option opt a)) = sa_conn (spec_option opt a)"
      "sa_request (fold spec_option opts (spec_option opt a)) = sa_request (spec_option opt a)"
      "sa_send (fold spec_option opts (spec_option opt a)) = sa_send (spec_option opt a)"
      "\<forall>k\<in>other_keys. map_of d' k = map_of d1 k" by simp_all
  have "but_objects s s'" using step(4) rest(4) by (rule but_objects_trans)
  moreover have "\<forall>k\<in>other_keys. map_of d' k = map_of d k"
  proof
    fix k assume k: "k \<in> other_keys"
    show "map_of d' k = map_of d k" using rest(8) [rule_format, OF k] apply_keeps [OF k one] by (rule trans)
  qed
  ultimately show ?case using rest(1-3,5-7) step(3,5-7) by simp
qed simp

section \<open>Reading it\<close>

text \<open>What of a connection identifier travels in a message.\<close>

definition wire_conn :: "ConnectionID \<Rightarrow> ConnectionID" where
  "wire_conn to = (if cid_sn to then \<lparr>cid_id = SN_ID, cid_pk = cid_pk to, cid_route = []\<rparr>
     else \<lparr>cid_id = cid_id to, cid_pk = [], cid_route = cid_route to\<rparr>)"

definition conn_fields :: "bt_dict \<Rightarrow> ConnectionID \<Rightarrow> bool" where
  "conn_fields d to \<longleftrightarrow>
     (if cid_sn to then map_of d ''conn_id'' = None \<and> map_of d ''conn_pubkey'' = Some (BtString (cid_pk to)) \<and> map_of d ''conn_route'' = None
      else map_of d ''conn_id'' = Some (bt_ll (cid_id to)) \<and> map_of d ''conn_pubkey'' = None
        \<and> map_of d ''conn_route'' = Some (BtString (cid_route to)))"

definition id_ok :: "ConnectionID \<Rightarrow> bool" where
  "id_ok to \<longleftrightarrow> - (2 ^ 63) \<le> cid_id to \<and> cid_id to < 2 ^ 63"

lemma key_order:
  "[] < ''conn_id''" "''conn_id'' < ''conn_pubkey''" "''conn_pubkey'' < ''conn_route''" "''conn_route'' < ''hint''"
  "''hint'' < ''incoming''" "''incoming'' < ''keep_alive''" "''keep_alive'' < ''optional''" "''optional'' < ''outgoing''"
  "''outgoing'' < ''request''" "''request'' < ''request_callback''" "''request_callback'' < ''request_tag''"
  "''request_tag'' < ''request_timeout''" "''request'' < ''send''" "''request_timeout'' < ''send''"
  "''send'' < ''send_fail''" "''send_fail'' < ''send_full_q''"
  by code_simp+

lemma read_conn_at:
  assumes "cursor_at c (after_key [] d)" "bt_dict_ok d" "conn_fields d to" "id_ok to"
  obtains c' where "read_conn c = Inr ((wire_conn to)\<lparr>cid_route := []\<rparr>, c')" "cursor_at c' (after_key ''conn_pubkey'' d)"
proof -
  have num: "int_of_value (bt_ll (cid_id to)) = Some (cid_id to)" "int_type_ok int64" "in_range int64 (cid_id to)"
    using assms(4) by (simp_all add: id_ok_def bt_ll_def bt_value_of_int_def int64_def sint_in_range int_type_ok_def in_range_def smin_def umax_def)
  have "\<exists>i. int_of_value v = Some i \<and> int_type_ok int64 \<and> in_range int64 i" if "map_of d ''conn_id'' = Some v" for v
    using assms(3) that num by (auto simp: conn_fields_def split: if_splits)
  from int_field_at [OF assms(1,2) key_order(1) this] obtain c1 where
    c1: "opt_field ''conn_id'' (dict_consume_integer int64) c = Inr (Option.bind (map_of d ''conn_id'') int_of_value, c1)"
      "cursor_at c1 (after_key ''conn_id'' d)" .
  from string_field.skip_after [OF c1(2) assms(2) key_order(2)] obtain c2 where
    c2: "skip_until ''conn_pubkey'' c1 = Inr (map_of d ''conn_pubkey'' \<noteq> None, c2)"
      "cursor_at c2 ((case map_of d ''conn_pubkey'' of None \<Rightarrow> [] | Some v \<Rightarrow> [(''conn_pubkey'', v)]) @ after_key ''conn_pubkey'' d)" .
  show thesis
  proof (cases "cid_sn to")
    case True
    then have f: "map_of d ''conn_id'' = None" "map_of d ''conn_pubkey'' = Some (BtString (cid_pk to))"
      using assms(3) by (simp_all add: conn_fields_def)
    with c2(2) have "cursor_at c2 ((''conn_pubkey'', BtString (cid_pk to)) # after_key ''conn_pubkey'' d)" by simp
    from string_field.consume_at [OF this] obtain c3 where "dict_consume_string c2 = Inr (cid_pk to, c3)"
      "cursor_at c3 (after_key ''conn_pubkey'' d)" by auto
    with that c1(1) c2(1) f True show thesis by (simp add: read_conn_def wire_conn_def)
  next
    case False
    then have f: "map_of d ''conn_id'' = Some (bt_ll (cid_id to))" "map_of d ''conn_pubkey'' = None" "cid_id to \<noteq> -1"
      using assms(3) by (simp_all add: conn_fields_def cid_sn_def SN_ID_def)
    with that c1(1) c2 False num(1) show thesis by (simp add: read_conn_def wire_conn_def conn_of_id_def)
  qed
qed

text \<open>The fields of a request.\<close>

definition request_fields :: "bt_dict \<Rightarrow> (ptr \<times> obj) list \<Rightarrow> (bytes \<times> nat \<times> int) option \<Rightarrow> bool" where
  "request_fields d m r \<longleftrightarrow>
     (case r of
        None \<Rightarrow> map_of d ''request'' = None
      | Some (tag, callback, timeout) \<Rightarrow>
          map_of d ''request'' = Some (bt_bool True)
          \<and> (\<exists>v. map_of d ''request_callback'' = Some v \<and> object_value as_reply m v = Some callback)
          \<and> map_of d ''request_tag'' = Some (BtStringView tag)
          \<and> holds d ''request_timeout'' ms_value DEFAULT_REQUEST_TIMEOUT timeout)"

definition request_drop :: "bt_dict \<Rightarrow> (bytes \<times> nat \<times> int) option \<Rightarrow> (ptr \<times> obj) list \<Rightarrow> (ptr \<times> obj) list" where
  "request_drop d r m = (if r = None then m else drop_object (map_of d ''request_callback'') m)"

lemma read_request_at:
  assumes "cursor_at c (after_key ''outgoing'' d)" "bt_dict_ok d" "request_fields d (objects s) r"
  obtains c' k where "read_request c s = Inr (r, c', s\<lparr>objects := request_drop d r (objects s)\<rparr>)"
    "cursor_at c' (after_key k d)" "k < ''send''"
proof (cases r)
  case None
  then have "holds d ''request'' bool_value False False" using assms(3) by (simp add: request_fields_def holds_def)
  from read_bool_at [OF assms(1,2) key_order(9) this] obtain c' where
    "read_bool ''request'' c = Inr (False, c')" "cursor_at c' (after_key ''request'' d)" .
  with that None key_order(13) show thesis by (simp add: read_request_def request_drop_def)
next
  case (Some x)
  obtain tag callback timeout where x: "x = (tag, callback, timeout)" by (metis surj_pair)
  from assms(3) Some x have f: "holds d ''request'' bool_value False True" "map_of d ''request_callback'' \<noteq> None"
      "holds d ''request_callback'' (object_value as_reply (objects s)) 0 callback" "map_of d ''request_tag'' = Some (BtStringView tag)"
      "holds d ''request_timeout'' ms_value DEFAULT_REQUEST_TIMEOUT timeout"
    by (auto simp: request_fields_def holds_def)
  obtain c1 where c1: "read_bool ''request'' c = Inr (True, c1)" "cursor_at c1 (after_key ''request'' d)"
    by (rule read_bool_at [OF assms(1,2) key_order(9) f(1)])
  obtain c2 where c2: "object_field ''request_callback'' as_reply c1 s
        = Inr (if map_of d ''request_callback'' = None then None else Some callback, c2,
            s\<lparr>objects := drop_object (map_of d ''request_callback'') (objects s)\<rparr>)" "cursor_at c2 (after_key ''request_callback'' d)"
    by (rule object_field_at [OF c1(2) assms(2) key_order(10) f(3)])
  have "\<exists>x. (case v of BtString s \<Rightarrow> Some s | BtStringView s \<Rightarrow> Some s | _ \<Rightarrow> None) = Some x" if "map_of d ''request_tag'' = Some v" for v
    using f(4) that by auto
  from string_field.field_after [OF c2(2) assms(2) key_order(11) this] obtain c3 where
    c3: "opt_field ''request_tag'' dict_consume_string c2 = Inr (Some tag, c3)" "cursor_at c3 (after_key ''request_tag'' d)"
    unfolding opt_field_def using f(4) by auto
  obtain c4 where "read_ms ''request_timeout'' DEFAULT_REQUEST_TIMEOUT c3 = Inr (timeout, c4)" "cursor_at c4 (after_key ''request_timeout'' d)"
    by (rule read_ms_at [OF c3(2) assms(2) key_order(12) f(5)])
  with c1 c2(1) c3(1) f(2) that Some x key_order(14) show thesis by (simp add: read_request_def request_drop_def)
qed

lemma disjoint_types:
  "as_reply z = None \<or> as_queue_failure z = None" "as_reply z = None \<or> as_queue_full z = None"
  "as_queue_failure z = None \<or> as_queue_full z = None" "as_success z = None \<or> as_failure z = None"
  by (cases z; simp)+

lemma read_send_list_at:
  assumes "cursor_at c (after_key k d)" "bt_dict_ok d" "k < ''send''" "map_of d ''send'' = Some (BtList vs)"
  obtains c' where "read_send_list c = Inr (concat (map bt_serialize_value vs) @ ''e'', c')" "cursor_at c' (after_key ''send'' d)"
proof -
  obtain c1 where c1: "skip_until ''send'' c = Inr (map_of d ''send'' \<noteq> None, c1)"
      "cursor_at c1 ((case map_of d ''send'' of None \<Rightarrow> [] | Some v \<Rightarrow> [(''send'', v)]) @ after_key ''send'' d)"
    by (rule list_field.skip_after [OF assms(1-3)])
  then have "cursor_at c1 ((''send'', BtList vs) # after_key ''send'' d)" using assms(4) by simp
  from list_field.consume_at [OF this] obtain c2 where
    "dict_consume_list_data c1 = Inr (bt_serialize_list bt_serialize_value vs, c2)" "cursor_at c2 (after_key ''send'' d)" by auto
  with c1(1) assms(4) that show thesis
    by (simp add: read_send_list_def dict_consume_list_consumer_def bt_list_consumer_def bt_serialize_list_def)
qed

lemma holds_request_drop:
  assumes "holds d k (object_value as m) x0 x" "request_fields d m r" "\<And>z. as_reply z = None \<or> as z = None"
  shows "holds d k (object_value as (request_drop d r m)) x0 x"
proof (cases r)
  case (Some y)
  with assms(2) obtain f where "holds d ''request_callback'' (object_value as_reply m) 0 f"
    by (auto simp: request_fields_def holds_def)
  from holds_drop [OF this assms(1,3)] Some show ?thesis by (simp add: request_drop_def)
qed (use assms(1) in \<open>simp add: request_drop_def\<close>)

definition args_read :: "ConnectionID \<Rightarrow> (bytes \<times> nat \<times> int) option \<Rightarrow> bt_list \<Rightarrow> sending \<Rightarrow> send_args" where
  "args_read to r vs a =
     \<lparr>sa_conn = wire_conn to, sa_hint = sa_hint a, sa_incoming = sa_incoming a, sa_keep_alive = sa_keep_alive a,
      sa_optional = sa_optional a, sa_outgoing = sa_outgoing a, sa_request = r,
      sa_send = concat (map bt_serialize_value vs) @ ''e'', sa_fail = sa_fail a, sa_full = sa_full a\<rparr>"

lemma read_send_at:
  assumes "cursor_at c (after_key [] d)" "represents d (objects s) a" "conn_fields d to" "id_ok to"
    and "request_fields d (objects s) r" "map_of d ''send'' = Some (BtList vs)"
  shows "\<exists>s'. read_send c s = Inr (args_read to r vs a, s') \<and> but_objects s s'"
proof -
  have ok: "bt_dict_ok d" using assms(2) by (simp add: represents_def dict_fine_def)
  have f: "holds d ''hint'' str_value [] (sa_hint a)" "holds d ''incoming'' bool_value False (sa_incoming a)"
      "holds d ''keep_alive'' ms_value DEFAULT_SEND_KEEP_ALIVE (sa_keep_alive a)" "holds d ''optional'' bool_value False (sa_optional a)"
      "holds d ''outgoing'' bool_value False (sa_outgoing a)" "holds d ''send_fail'' (object_value as_queue_failure (objects s)) 0 (sa_fail a)"
      "holds d ''send_full_q'' (object_value as_queue_full (objects s)) 0 (sa_full a)"
    using assms(2) by (simp_all add: represents_def)
  obtain c1 where c1: "read_conn c = Inr ((wire_conn to)\<lparr>cid_route := []\<rparr>, c1)" "cursor_at c1 (after_key ''conn_pubkey'' d)"
    by (rule read_conn_at [OF assms(1) ok assms(3,4)])
  let ?conv = "\<lambda>v. case v of BtString s \<Rightarrow> Some s | BtStringView s \<Rightarrow> Some s | _ \<Rightarrow> None"
  have "\<exists>x. ?conv v = Some x" if "map_of d ''conn_route'' = Some v" for v
    using assms(3) that by (auto simp: conn_fields_def split: if_splits)
  from string_field.field_after [OF c1(2) ok key_order(3) this] obtain c2 where
    c2: "opt_field ''conn_route'' dict_consume_string c1 = Inr (Option.bind (map_of d ''conn_route'') ?conv, c2)"
      "cursor_at c2 (after_key ''conn_route'' d)" unfolding opt_field_def by blast
  obtain c3 where c3: "read_string ''hint'' c2 = Inr (sa_hint a, c3)" "cursor_at c3 (after_key ''hint'' d)"
    by (rule read_string_at [OF c2(2) ok key_order(4) f(1)])
  obtain c4 where c4: "read_bool ''incoming'' c3 = Inr (sa_incoming a, c4)" "cursor_at c4 (after_key ''incoming'' d)"
    by (rule read_bool_at [OF c3(2) ok key_order(5) f(2)])
  obtain c5 where c5: "read_ms ''keep_alive'' DEFAULT_SEND_KEEP_ALIVE c4 = Inr (sa_keep_alive a, c5)" "cursor_at c5 (after_key ''keep_alive'' d)"
    by (rule read_ms_at [OF c4(2) ok key_order(6) f(3)])
  obtain c6 where c6: "read_bool ''optional'' c5 = Inr (sa_optional a, c6)" "cursor_at c6 (after_key ''optional'' d)"
    by (rule read_bool_at [OF c5(2) ok key_order(7) f(4)])
  obtain c7 where c7: "read_bool ''outgoing'' c6 = Inr (sa_outgoing a, c7)" "cursor_at c7 (after_key ''outgoing'' d)"
    by (rule read_bool_at [OF c6(2) ok key_order(8) f(5)])
  let ?s1 = "s\<lparr>objects := request_drop d r (objects s)\<rparr>"
  obtain c8 k where c8: "read_request c7 s = Inr (r, c8, ?s1)" "cursor_at c8 (after_key k d)" "k < ''send''"
    by (rule read_request_at [OF c7(2) ok assms(5)])
  obtain c9 where c9: "read_send_list c8 = Inr (concat (map bt_serialize_value vs) @ ''e'', c9)" "cursor_at c9 (after_key ''send'' d)"
    by (rule read_send_list_at [OF c8(2) ok c8(3) assms(6)])
  have fail: "holds d ''send_fail'' (object_value as_queue_failure (objects ?s1)) 0 (sa_fail a)"
    and full: "holds d ''send_full_q'' (object_value as_queue_full (objects ?s1)) 0 (sa_full a)"
    using holds_request_drop [OF f(6) assms(5) disjoint_types(1)] holds_request_drop [OF f(7) assms(5) disjoint_types(2)] by simp_all
  let ?s2 = "?s1\<lparr>objects := drop_object (map_of d ''send_fail'') (objects ?s1)\<rparr>"
  obtain c10 where c10: "object_field ''send_fail'' as_queue_failure c9 ?s1
      = Inr (if map_of d ''send_fail'' = None then None else Some (sa_fail a), c10, ?s2)" "cursor_at c10 (after_key ''send_fail'' d)"
    by (rule object_field_at [OF c9(2) ok key_order(15) fail])
  have full': "holds d ''send_full_q'' (object_value as_queue_full (objects ?s2)) 0 (sa_full a)"
    using holds_drop [OF fail full disjoint_types(3)] by simp
  let ?s3 = "?s2\<lparr>objects := drop_object (map_of d ''send_full_q'') (objects ?s2)\<rparr>"
  obtain c11 where c11: "object_field ''send_full_q'' as_queue_full c10 ?s2
      = Inr (if map_of d ''send_full_q'' = None then None else Some (sa_full a), c11, ?s3)"
    by (rule object_field_at [OF c10(2) ok key_order(16) full'])
  have defaults: "or_else (if map_of d ''send_fail'' = None then None else Some (sa_fail a)) 0 = sa_fail a"
      "or_else (if map_of d ''send_full_q'' = None then None else Some (sa_full a)) 0 = sa_full a"
    using f(6,7) by (auto simp: holds_def or_else_def)
  have conn: "(case Option.bind (map_of d ''conn_route'') ?conv of None \<Rightarrow> (wire_conn to)\<lparr>cid_route := []\<rparr>
      | Some r \<Rightarrow> (wire_conn to)\<lparr>cid_route := []\<rparr>\<lparr>cid_route := r\<rparr>) = wire_conn to"
    using assms(3) by (auto simp: conn_fields_def wire_conn_def split: if_splits)
  have "read_send c s = Inr (args_read to r vs a, ?s3)"
    unfolding read_send_def c1(1) bind_result_Inr prod.case c2(1) c3(1) c4(1) c5(1) c6(1) c7(1) c8(1) c9(1) c10(1) c11 conn defaults
      args_read_def by (rule refl)
  moreover have "but_objects s ?s3" by simp
  ultimately show ?thesis by blast
qed

declare send_parts_loop.simps [simp del]

lemma send_parts_loop_at:
  "parts_are vs ps \<Longrightarrow> length vs \<le> k \<Longrightarrow> send_parts_loop k (concat (map bt_serialize_value vs) @ CHR ''e'' # r) = Inr ps"
proof (induction vs arbitrary: ps k)
  case Nil
  then show ?case by (subst send_parts_loop.simps) (simp add: parts_are_def list_tests)
next
  case (Cons v vs)
  then obtain p qs k' where p: "ps = p # qs" "str_value v = Some p" "size_ok p" "parts_are vs qs" "k = Suc k'" "length vs \<le> k'"
    by (cases k) (auto simp: parts_are_def list_all2_Cons1)
  then have ser: "bt_serialize_value v = bt_serialize_string p" by (auto simp: str_value_def split: bt_value.splits)
  let ?rest = "concat (map bt_serialize_value vs) @ CHR ''e'' # r"
  have "list_consume_string_view (bt_serialize_string p @ ?rest) = Inr (p, ?rest)"
    using bt_serialize_string_hd [of p] p(3) by (simp add: list_consume_string_view_hd bt_deserialize_string_round)
  moreover have "list_is_finished (bt_serialize_string p @ ?rest) = Inr False"
    using bt_serialize_string_hd [of p] by (simp add: list_tests)
  ultimately show ?case
    using Cons.IH [OF p(4,6)] p(1,5) ser by (subst send_parts_loop.simps) simp
qed

lemma build_send_parts_at:
  assumes "parts_are vs ps"
  shows "build_send_parts (concat (map bt_serialize_value vs) @ ''e'') route = Inr ((if route \<noteq> [] then [route] else []) @ ps)"
proof -
  have "length vs \<le> length (concat (map bt_serialize_value vs))"
    using assms unfolding parts_are_def
    by (induction rule: list_all2_induct) (auto simp: str_value_def bt_serialize_string_def split: bt_value.splits)
  then have "length vs \<le> length (concat (map bt_serialize_value vs) @ ''e'')" by simp
  from send_parts_loop_at [OF assms this, of "[]"] show ?thesis by (simp add: build_send_parts_def)
qed

section \<open>Messages and requests arrive as they were sent\<close>

lemma build_send_at:
  assumes "list_all send_option_ok opts" "fresh_ptr (objects s) + length opts \<le> 2 ^ 64" "size_ok cmd" "size_ok (cid_pk to)"
    "size_ok (cid_route to)"
  obtains d vs s' where "build_send to cmd opts s = (d, s')" "represents d (objects s') (fold spec_option opts (new_sending cmd))"
    "conn_fields d to" "map_of d ''send'' = Some (BtList vs)" "parts_are vs (sp_parts (fold spec_option opts (new_sending cmd)))"
    "map_of d ''request'' = None" "but_objects s s'" "fresh_ptr (objects s') \<le> fresh_ptr (objects s) + length opts"
proof -
  let ?sp = "fold spec_option opts (new_sending cmd)"
  obtain vs d s' where build: "fold apply_send_option opts ([BtStringView cmd], [], s) = (vs, d, s')" by (metis surj_pair)
  have "represents [] (objects s) (new_sending cmd)"
    by (simp add: represents_def dict_fine_def bt_dict_ok_def holds_def new_sending_def)
  moreover have "parts_are [BtStringView cmd] (sp_parts (new_sending cmd))" using assms(3) by (simp add: parts_are_def new_sending_def)
  ultimately have opts: "represents d (objects s') ?sp" "parts_are vs (sp_parts ?sp)" "fresh_ptr (objects s') \<le> fresh_ptr (objects s) + length opts"
      "but_objects s s'" "\<forall>k\<in>other_keys. map_of d k = map_of [] k"
    using fold_represents [OF _ _ assms(1,2) build] by simp_all
  define d1 where "d1 = (if cid_sn to then dict_put ''conn_pubkey'' (BtString (cid_pk to)) d
    else dict_put ''conn_route'' (BtString (cid_route to)) (dict_put ''conn_id'' (bt_ll (cid_id to)) d))"
  have "bt_value_ok (BtList vs)"
    using opts(2) unfolding parts_are_def by (induction rule: list_all2_induct) (auto simp: str_value_def split: bt_value.splits)
  moreover have "represents d1 (objects s') ?sp"
    using opts(1) assms(4,5) by (simp add: d1_def represents_put_other)
  ultimately have "represents (dict_put ''send'' (BtList vs) d1) (objects s') ?sp" by (intro represents_put_other) simp_all
  moreover have "build_send to cmd opts s = (dict_put ''send'' (BtList vs) d1, s')"
    by (simp add: build_send_def build d1_def)
  moreover have "conn_fields (dict_put ''send'' (BtList vs) d1) to" "map_of (dict_put ''send'' (BtList vs) d1) ''request'' = None"
    using opts(5) by (simp_all add: conn_fields_def d1_def)
  ultimately show thesis using that opts(2-4) by simp
qed

text \<open>
  The call that made the result \<open>r\<close> out of \<open>s\<close> has put one \<open>SEND\<close> message into the queue of the
  proxy, and the proxy reads from it the connection \<open>to\<close>, the request \<open>req\<close> and the options
  and parts of \<open>sp\<close>.
\<close>

definition arrives_as :: "net \<Rightarrow> net result \<Rightarrow> ConnectionID \<Rightarrow> (bytes \<times> nat \<times> int) option \<Rightarrow> sending \<Rightarrow> bool" where
  "arrives_as s r to req sp \<longleftrightarrow>
     (\<exists>data s1 c a s2. r = Inr s1 \<and> control_queue s1 = control_queue s @ [[''SEND'', data]]
        \<and> bt_dict_consumer_of data = Inr c \<and> read_send c s1 = Inr (a, s2)
        \<and> sa_conn a = wire_conn to \<and> sa_request a = req \<and> sa_hint a = sa_hint sp \<and> sa_incoming a = sa_incoming sp
        \<and> sa_keep_alive a = sa_keep_alive sp \<and> sa_optional a = sa_optional sp \<and> sa_outgoing a = sa_outgoing sp
        \<and> sa_fail a = sa_fail sp \<and> sa_full a = sa_full sp
        \<and> (\<forall>route. build_send_parts (sa_send a) route = Inr ((if route \<noteq> [] then [route] else []) @ sp_parts sp)))"

lemma arrives_as_at:
  assumes "represents d (objects s') sp" "conn_fields d to" "id_ok to" "request_fields d (objects s') req"
    and "map_of d ''send'' = Some (BtList vs)" "parts_are vs (sp_parts sp)" "but_objects s s'" "\<not> proxy_shutting_down s"
  shows "arrives_as s (control_message ''SEND'' (bt_serialize_value (BtDict d)) s') to req sp"
proof -
  let ?data = "bt_serialize_value (BtDict d)"
  let ?s1 = "s'\<lparr>control_queue := control_queue s' @ [[''SEND'', ?data]]\<rparr>"
  have fine: "bt_dict_ok d" "list_all entry_ok d" "[] \<notin> fst ` set d" using assms(1) by (simp_all add: represents_def dict_fine_def)
  from cursor_at_new [OF fine(2,1)] obtain c where c: "bt_dict_consumer_of ?data = Inr c" "cursor_at c d" by auto
  have "cursor_at c (after_key [] d)" using c(2) after_key_start [OF fine(3)] by simp
  moreover have "represents d (objects ?s1) sp" "request_fields d (objects ?s1) req" using assms(1,4) by simp_all
  ultimately obtain s2 where s2: "read_send c ?s1 = Inr (args_read to req vs sp, s2)"
    using read_send_at [of c d ?s1 sp to req vs] assms(2,3,5) by blast
  have "?data \<noteq> []" by (simp add: bt_serialize_dict_def)
  then have "control_message ''SEND'' ?data s' = Inr ?s1" "control_queue ?s1 = control_queue s @ [[''SEND'', ?data]]"
    using assms(7,8) by (auto simp: control_message_def send_control_def but_objects_def)
  then show ?thesis
    unfolding arrives_as_def using c(1) s2 build_send_parts_at [OF assms(6)]
    by (intro exI [of _ ?data] exI [of _ ?s1] exI [of _ c] exI [of _ "args_read to req vs sp"] exI [of _ s2]) (simp add: args_read_def)
qed

lemma spec_timeout_cong: "sp_timeout a = sp_timeout b \<Longrightarrow> sp_timeout (spec_option opt a) = sp_timeout (spec_option opt b)"
proof (induction opt a rule: spec_option.induct)
  case (2 opt a)
  then show ?case by (cases opt) auto
qed auto

lemma fold_timeout_cong: "sp_timeout a = sp_timeout b \<Longrightarrow> sp_timeout (fold spec_option opts a) = sp_timeout (fold spec_option opts b)"
proof (induction opts arbitrary: a b)
  case (Cons opt opts)
  show ?case using Cons.IH [OF spec_timeout_cong [OF Cons.prems]] by simp
qed simp

lemma send_arrives:
  assumes "\<not> proxy_shutting_down s" "list_all send_option_ok opts" "fresh_ptr (objects s) + length opts + 1 < 2 ^ 64" "id_ok to"
    and "size_ok cmd" "size_ok (cid_pk to)" "size_ok (cid_route to)"
  shows "arrives_as s (send to cmd opts s) to None (fold spec_option opts (new_sending cmd))"
proof -
  have "fresh_ptr (objects s) + length opts \<le> 2 ^ 64" using assms(3) by simp
  from build_send_at [OF assms(2) this assms(5-7)] obtain d vs s' where
    d: "build_send to cmd opts s = (d, s')" "represents d (objects s') (fold spec_option opts (new_sending cmd))"
      "conn_fields d to" "map_of d ''send'' = Some (BtList vs)" "parts_are vs (sp_parts (fold spec_option opts (new_sending cmd)))"
      "map_of d ''request'' = None" "but_objects s s'" .
  from d(6) have "request_fields d (objects s') None" by (simp add: request_fields_def)
  from arrives_as_at [OF d(2,3) assms(4) this d(4,5,7) assms(1)] d(1) show ?thesis by (simp add: send_def)
qed

text \<open>
  C8: whatever a thread asks for with \<open>send\<close> or \<open>request\<close>, the proxy reads back from the control
  message: the connection, the parts of the message in order with the tag of a request after
  the command, every option with its last value and the default where it is not given, and the
  callbacks. Durations must not be negative and sizes must fit their types.
\<close>

theorem send_round_trip:
  assumes "\<not> proxy_shutting_down s" "list_all send_option_ok opts" "fresh_ptr (objects s) + length opts + 1 < 2 ^ 64" "id_ok to"
    and "size_ok cmd" "size_ok reply_tag" "size_ok (cid_pk to)" "size_ok (cid_route to)"
  shows "arrives_as s (send to cmd opts s) to None (fold spec_option opts (new_sending cmd))
    \<and> arrives_as s (request reply_tag to cmd callback opts s) to
        (Some (reply_tag, callback, sp_timeout (fold spec_option opts (new_sending cmd))))
        (fold spec_option (SendPart reply_tag # opts) (new_sending cmd))"
proof (rule conjI)
  show "arrives_as s (send to cmd opts s) to None (fold spec_option opts (new_sending cmd))"
    by (rule send_arrives [OF assms(1-5,7,8)])
next
  let ?opts = "SendPart reply_tag # opts" and ?sp = "fold spec_option (SendPart reply_tag # opts) (new_sending cmd)"
  have "list_all send_option_ok ?opts" "fresh_ptr (objects s) + length ?opts \<le> 2 ^ 64" using assms(2,3,6) by simp_all
  from build_send_at [OF this assms(5,7,8)] obtain d vs s' where
    d: "build_send to cmd ?opts s = (d, s')" "represents d (objects s') ?sp" "conn_fields d to" "map_of d ''send'' = Some (BtList vs)"
      "parts_are vs (sp_parts ?sp)" "but_objects s s'" "fresh_ptr (objects s') \<le> fresh_ptr (objects s) + length ?opts" .
  let ?p = "fresh_ptr (objects s')"
  let ?s1 = "s'\<lparr>objects := objects s' @ [(?p, ReplyCallbackObj callback)]\<rparr>"
  let ?d1 = "dict_put ''request_tag'' (BtStringView reply_tag) (dict_put ''request_callback'' (bt_ptr ?p) (dict_put ''request'' (bt_bool True) d))"
  have "represents ?d1 (objects ?s1) ?sp"
    using represents_mono [OF d(2)] assms(6) by (intro represents_put_other) simp_all
  moreover have "conn_fields ?d1 to" using d(3) by (simp add: conn_fields_def)
  moreover have "object_value as_reply (objects ?s1) (bt_ptr ?p) = Some callback"
    using object_value_new [of "objects s'" as_reply "ReplyCallbackObj callback"] d(7) assms(3) by simp
  then have "request_fields ?d1 (objects ?s1) (Some (reply_tag, callback, sp_timeout ?sp))"
    using d(2) by (simp add: request_fields_def represents_def)
  moreover have "map_of ?d1 ''send'' = Some (BtList vs)" using d(4) by simp
  moreover have "but_objects s ?s1" using d(6) by (rule but_objects_trans) simp
  ultimately have "arrives_as s (control_message ''SEND'' (bt_serialize_value (BtDict ?d1)) ?s1) to (Some (reply_tag, callback, sp_timeout ?sp)) ?sp"
    using arrives_as_at [OF _ _ assms(4) _ _ d(5)] assms(1) by blast
  moreover have "sp_timeout ?sp = sp_timeout (fold spec_option opts (new_sending cmd))"
    unfolding fold_simps(2) by (rule fold_timeout_cong) simp
  ultimately show "arrives_as s (request reply_tag to cmd callback opts s) to
      (Some (reply_tag, callback, sp_timeout (fold spec_option opts (new_sending cmd)))) ?sp"
    by (simp add: request_def d(1) put_object_def serialize_object_def Let_def)
qed

theorem send_round_trip_witness:
  "arrives_as sample_outgoing
     (request ''tag'' (conn_of_id 7) ''a.c'' 5 [SendPart ''x'', SendKeepAlive 60000, SendQueueFull 9] sample_outgoing) (conn_of_id 7)
     (Some (''tag'', 5, 15000))
     ((new_sending ''a.c'')\<lparr>sp_parts := [''a.c'', ''tag'', ''x''], sa_keep_alive := 60000, sa_full := 9\<rparr>)"
proof -
  have "\<not> proxy_shutting_down sample_outgoing" "fresh_ptr (objects sample_outgoing) = 1"
    by (simp_all add: sample_outgoing_def init_net_def fresh_ptr_def)
  moreover have "id_ok (conn_of_id 7)" "size_ok ''a.c''" "size_ok ''tag''" "size_ok (cid_pk (conn_of_id 7))" "size_ok (cid_route (conn_of_id 7))"
    by (simp_all add: id_ok_def size_ok_def conn_of_id_def)
  ultimately show ?thesis
    using send_round_trip [of sample_outgoing "[SendPart ''x'', SendKeepAlive 60000, SendQueueFull 9]" "conn_of_id 7" "''a.c''" "''tag''" 5]
    by (simp add: size_ok_def new_sending_def DEFAULT_REQUEST_TIMEOUT_def)
qed

end
