(* ===== verification/Worker.thy ===== *)
theory Worker
  imports Client Dispatch
begin

text \<open>
  The worker threads (\<open>worker_wait_for\<close> and \<open>worker_thread\<close> of
  \<^verbatim>\<open>src/arqmamq/worker.cpp\<close>) and the messages they give to callbacks
  (\<^verbatim>\<open>message.h\<close>). The messages a worker receives from the proxy are a list, in the
  order of their arrival.
\<close>

section \<open>Messages for callbacks\<close>

record message =
  msg_data :: "bytes list"
  msg_conn :: ConnectionID
  msg_reply_tag :: bytes
  msg_access :: Access
  msg_remote :: bytes

definition new_message :: message where
  "new_message = \<lparr>msg_data = [], msg_conn = conn_of_id 0, msg_reply_tag = [], msg_access = default_Access, msg_remote = []\<rparr>"

text \<open>What is kept of a message to answer it later, and the three ways to do so.\<close>

record deferred_send =
  ds_conn :: ConnectionID
  ds_reply_tag :: bytes

definition send_later :: "message \<Rightarrow> deferred_send" where
  "send_later m = \<lparr>ds_conn = msg_conn m, ds_reply_tag = msg_reply_tag m\<rparr>"

definition deferred_back :: "deferred_send \<Rightarrow> bytes \<Rightarrow> send_option list \<Rightarrow> net \<Rightarrow> net result" where
  "deferred_back d cmd args = send (ds_conn d) cmd (SendOptional (\<not> cid_sn (ds_conn d)) # args)"

definition deferred_reply :: "deferred_send \<Rightarrow> send_option list \<Rightarrow> net \<Rightarrow> net result" where
  "deferred_reply d args = send (ds_conn d) ''REPLY'' (SendPart (ds_reply_tag d) # SendOptional (\<not> cid_sn (ds_conn d)) # args)"

definition deferred_request :: "bytes \<Rightarrow> deferred_send \<Rightarrow> bytes \<Rightarrow> nat \<Rightarrow> send_option list \<Rightarrow> net \<Rightarrow> net result" where
  "deferred_request random_tag d cmd callback args =
     request random_tag (ds_conn d) cmd callback (SendOptional (\<not> cid_sn (ds_conn d)) # args)"

text \<open>Answering later is answering now: the copy has all that the answers need.\<close>

lemma deferred_same:
  "deferred_back (send_later m) = send_back (msg_conn m)"
  "deferred_reply (send_later m) = send_reply (msg_conn m) (msg_reply_tag m)"
  "deferred_request tag (send_later m) = send_request tag (msg_conn m)"
  by (simp_all add: fun_eq_iff deferred_back_def deferred_reply_def deferred_request_def send_later_def
      send_back_def send_reply_def send_request_def)

section \<open>Waiting for the proxy\<close>

text \<open>
  \<open>worker_wait_for\<close>: whether the message that was waited for came before \<open>QUIT\<close>, and what is
  left to read; \<open>None\<close> when neither has come yet.
\<close>

fun worker_wait_for :: "bytes \<Rightarrow> bytes list list \<Rightarrow> (bool \<times> bytes list list) option" where
  "worker_wait_for expect [] = None"
| "worker_wait_for expect (parts # recv) =
     (if length parts \<noteq> 1 then worker_wait_for expect recv
      else
        let command = parts ! 0 in
        if command = expect then Some (True, recv)
        else if command = ''QUIT'' then Some (False, recv)
        else worker_wait_for expect recv)"

lemma worker_wait_for_shorter: "worker_wait_for expect recv = Some (b, rest) \<Longrightarrow> length rest < length recv"
  by (induction recv) (auto simp: Let_def split: if_splits)

section \<open>Running\<close>

text \<open>
  What a worker calls, from the contents of its \<open>run_info\<close>. An exception, of the called code or
  because the variant holds another alternative, is caught and logged; in the second case
  there is no call. The message object is the same for all commands of a worker.
\<close>

datatype invocation =
    Run_job ptr int
  | Run_completion ptr
  | Call_function job_fn
  | Call_command callback message
  | No_call

definition worker_call :: "run_info \<Rightarrow> message \<Rightarrow> (invocation \<times> message) result" where
  "worker_call run m =
     (if is_batch_job run then
        case to_run run of
          RunBatch (Some p) \<Rightarrow>
            Inr (if 0 \<le> batch_jobno run then Run_job p (batch_jobno run)
                 else if batch_jobno run = -1 then Run_completion p else No_call, m)
        | RunBatch None \<Rightarrow> if batch_jobno run < -1 then Inr (No_call, m) else Inl Undefined_behaviour
        | _ \<Rightarrow> Inr (No_call, m)
      else if is_injected run then
        case to_run run of
          RunFunction f \<Rightarrow> Inr (Call_function f, m)
        | _ \<Rightarrow> Inr (No_call, m)
      else
        let m = m\<lparr>msg_conn := ri_conn run, msg_access := ri_access run, msg_remote := ri_remote run, msg_data := []\<rparr> in
        case to_run run of
          RunCommand (Some (callback, is_request)) \<Rightarrow>
            if is_request then
              case ri_data_parts run of
                [] \<Rightarrow> Inl Undefined_behaviour
              | tag # parts \<Rightarrow> let m = m\<lparr>msg_reply_tag := tag, msg_data := parts\<rparr> in Inr (Call_command callback m, m)
            else let m = m\<lparr>msg_data := ri_data_parts run\<rparr> in Inr (Call_command callback m, m)
        | RunCommand None \<Rightarrow> Inl Undefined_behaviour
        | _ \<Rightarrow> Inr (No_call, m))"

text \<open>What a worker does, in order: calls and messages to the proxy.\<close>

datatype worker_act = Calls invocation | Sends bytes

text \<open>
  The loop of \<open>worker_thread\<close>. The proxy writes the \<open>run_info\<close> before it sends \<open>RUN\<close>; \<open>runs k\<close>
  are its contents in the round \<open>k\<close>.
\<close>

function worker_loop :: "bool \<Rightarrow> nat \<Rightarrow> (nat \<Rightarrow> run_info) \<Rightarrow> message \<Rightarrow> bytes list list \<Rightarrow> worker_act list result" where
  "worker_loop waiting_for_command k runs m recv =
     (case (if waiting_for_command then worker_wait_for ''RUN'' recv else Some (True, recv)) of
        None \<Rightarrow> Inr []
      | Some (False, recv) \<Rightarrow> Inr [Sends ''QUITTING'']
      | Some (True, recv) \<Rightarrow>
          bind_result (worker_call (runs k) m) (\<lambda>(call, m).
          bind_result (worker_loop True (Suc k) runs m recv) (\<lambda>acts.
            Inr (Calls call # Sends ''RAN'' # acts))))"
  by auto

termination
  by (relation "measures [\<lambda>(_, _, _, _, recv). length recv, \<lambda>(waiting_for_command, _, _, _, _). if waiting_for_command then 0 else 1]")
     (auto dest: worker_wait_for_shorter split: if_splits)

declare worker_loop.simps [simp del]

text \<open>
  \<open>worker_thread\<close>; a tagged worker first announces itself, waits for the proxy to start, and
  calls the function it was given for that, unless it is empty, the number 0.
\<close>

definition worker_thread :: "bool \<Rightarrow> nat \<Rightarrow> (nat \<Rightarrow> run_info) \<Rightarrow> bytes list list \<Rightarrow> worker_act list result" where
  "worker_thread tagged start_fn runs recv =
     (if tagged then
        bind_result
          (case worker_wait_for ''START'' recv of
             None \<Rightarrow> Inr []
           | Some (False, recv) \<Rightarrow> Inr [Sends ''QUITTING'']
           | Some (True, recv) \<Rightarrow>
               bind_result (worker_loop True 0 runs new_message recv) (\<lambda>acts.
                 Inr ((if start_fn \<noteq> 0 then [Calls (Call_function (UserFn start_fn))] else []) @ acts)))
          (\<lambda>acts. Inr (Sends ''STARTING'' # acts))
      else worker_loop False 0 runs new_message recv)"

section \<open>What a callback is given\<close>

text \<open>The contents of a \<open>run_info\<close> a worker can run.\<close>

definition call_ok :: "run_info \<Rightarrow> bool" where
  "call_ok run \<longleftrightarrow>
     (if is_batch_job run then to_run run \<noteq> RunBatch None
      else is_injected run \<or> (case to_run run of RunCommand None \<Rightarrow> False
        | RunCommand (Some (_, is_request)) \<Rightarrow> is_request \<longrightarrow> ri_data_parts run \<noteq> [] | _ \<Rightarrow> True))"

lemma worker_call_succeeds: "call_ok run \<Longrightarrow> \<exists>call m'. worker_call run m = Inr (call, m')"
  by (auto simp: call_ok_def worker_call_def Let_def split: runnable.splits option.splits prod.splits list.splits if_splits)

lemma call_ok_loaded:
  "call_ok (load_batch_job j reply_job t run)" "call_ok (load_injected cat cmd remote f run)"
  "call_ok (load_command cat cmd conn access remote parts (cb, is_request) run) \<longleftrightarrow> (is_request \<longrightarrow> parts \<noteq> [])"
  by (simp_all add: call_ok_def load_batch_job_def load_injected_def load_command_def run_reset_def)

text \<open>
  The message for the command of an incoming message: the tag and the data of a request, the
  data of any other command. The tag is not cleared: a command that is no request finds the
  tag of the last request the worker has run.
\<close>

definition command_message :: "pending_command \<Rightarrow> bool \<Rightarrow> message \<Rightarrow> message" where
  "command_message p is_request m =
     \<lparr>msg_data = (if is_request then tl (pc_data_parts p) else pc_data_parts p), msg_conn = pc_conn p,
      msg_reply_tag = (if is_request then hd (pc_data_parts p) else msg_reply_tag m), msg_access = pc_access p, msg_remote = pc_remote p\<rparr>"

lemma worker_call_command:
  assumes "pc_callback p = PendingCommand (cb, is_request)" "is_request \<Longrightarrow> pc_data_parts p \<noteq> []"
  shows "worker_call (load_pending p run) m = Inr (Call_command cb (command_message p is_request m), command_message p is_request m)"
  using assms by (cases "pc_data_parts p") (auto simp: worker_call_def load_pending_def load_command_def run_reset_def command_message_def Let_def)

section \<open>What a worker answers\<close>

fun sent_by :: "worker_act list \<Rightarrow> bytes list" where
  "sent_by [] = []"
| "sent_by (Sends x # acts) = x # sent_by acts"
| "sent_by (Calls c # acts) = sent_by acts"

text \<open>The orders before the first \<open>QUIT\<close>, and whether there is one.\<close>

definition orders :: "bytes list list \<Rightarrow> bytes list list" where
  "orders recv = takeWhile (\<lambda>parts. parts \<noteq> [''QUIT'']) recv"

definition quits :: "bytes list list \<Rightarrow> bool" where
  "quits recv \<longleftrightarrow> [''QUIT''] \<in> set recv"

lemma single_part: "length parts \<noteq> 1 \<or> parts ! 0 \<noteq> x \<longleftrightarrow> parts \<noteq> [x]"
  by (cases parts) auto

lemma wait_for_run:
  "worker_wait_for ''RUN'' recv = None \<Longrightarrow> count_list (orders recv) [''RUN''] = 0 \<and> \<not> quits recv"
  "worker_wait_for ''RUN'' recv = Some (False, rest) \<Longrightarrow> count_list (orders recv) [''RUN''] = 0 \<and> quits recv"
  "worker_wait_for ''RUN'' recv = Some (True, rest)
     \<Longrightarrow> count_list (orders recv) [''RUN''] = Suc (count_list (orders rest) [''RUN'']) \<and> quits recv = quits rest"
  by (induction recv) (auto simp: orders_def quits_def Let_def length_Suc_conv split: if_splits)

lemma worker_loop_sends:
  "\<forall>k. call_ok (runs k) \<Longrightarrow> \<exists>acts. worker_loop waiting k runs m recv = Inr acts
     \<and> sent_by acts = replicate (count_list (orders recv) [''RUN''] + of_bool (\<not> waiting)) ''RAN'' @ (if quits recv then [''QUITTING''] else [])"
proof (induction waiting k runs m recv rule: worker_loop.induct)
  case (1 waiting k runs m recv)
  show ?case
  proof (cases "if waiting then worker_wait_for ''RUN'' recv else Some (True, recv)")
    case None
    then show ?thesis using wait_for_run(1) [of recv] by (subst worker_loop.simps) (auto split: if_splits)
  next
    case (Some r)
    obtain go rest where r: "r = (go, rest)" by (cases r)
    show ?thesis
    proof (cases go)
      case False
      then show ?thesis using Some r wait_for_run(2) [of recv rest] by (subst worker_loop.simps) (auto split: if_splits)
    next
      case True
      obtain call m' where call: "worker_call (runs k) m = Inr (call, m')" using worker_call_succeeds 1(2) by blast
      obtain acts where acts: "worker_loop True (Suc k) runs m' rest = Inr acts"
          "sent_by acts = replicate (count_list (orders rest) [''RUN'']) ''RAN'' @ (if quits rest then [''QUITTING''] else [])"
        using 1 Some r True call by fastforce
      have "worker_loop waiting k runs m recv = Inr (Calls call # Sends ''RAN'' # acts)"
        using Some r True call acts(1) by (subst worker_loop.simps) simp
      moreover have "count_list (orders recv) [''RUN''] + of_bool (\<not> waiting) = Suc (count_list (orders rest) [''RUN''])" "quits recv = quits rest"
        using Some r True wait_for_run(3) [of recv rest] by (auto split: if_splits)
      ultimately show ?thesis using acts(2) by simp
    qed
  qed
qed

text \<open>
  C15: what a worker thread tells the proxy. A thread of the pool starts with the work it was
  created for; a tagged one announces itself and begins when the proxy says \<open>START\<close>. From then
  on there is one \<open>RAN\<close> for that work and for each \<open>RUN\<close> that comes before \<open>QUIT\<close>, whatever the
  called code throws and whatever else is received, and after \<open>QUIT\<close> one \<open>QUITTING\<close> and
  nothing more.
\<close>

theorem worker_answers:
  assumes "\<forall>k. call_ok (runs k)"
  shows "(\<exists>acts. worker_thread False start_fn runs recv = Inr acts
      \<and> sent_by acts = replicate (Suc (count_list (orders recv) [''RUN''])) ''RAN'' @ (if quits recv then [''QUITTING''] else []))
    \<and> (\<exists>acts. worker_thread True start_fn runs ([''START''] # recv) = Inr acts
      \<and> sent_by acts = ''STARTING'' # replicate (count_list (orders recv) [''RUN'']) ''RAN'' @ (if quits recv then [''QUITTING''] else []))"
  using worker_loop_sends [OF assms, of False 0 new_message recv] worker_loop_sends [OF assms, of True 0 new_message recv]
  by (auto simp: worker_thread_def)

theorem worker_answers_witness:
  "\<exists>acts. worker_thread True 3 (\<lambda>k. load_batch_job (1, 0) False 1 (new_run_info 1 ''t1'')) [[''START''], [''RUN''], [''X'', ''Y''], [''RUN''], [''QUIT''], [''RUN'']] = Inr acts
     \<and> sent_by acts = [''STARTING'', ''RAN'', ''RAN'', ''QUITTING'']"
  using worker_answers [of "\<lambda>k. load_batch_job (1, 0) False 1 (new_run_info 1 ''t1'')" 3 "[[''RUN''], [''X'', ''Y''], [''RUN''], [''QUIT''], [''RUN'']]"]
  by (simp add: call_ok_loaded orders_def quits_def)

end
