(* ===== verification/Net_Invariant.thy ===== *)
theory Net_Invariant
  imports Control Scheduler_Steps
begin

text \<open>
  What every handler of the proxy keeps: the stored indices name sockets of the right kind, the
  set of service nodes has no repetition and no key of a wrong size, tags of pending requests
  are unique, peers stored under the key of a service node are that node's; and what it does
  to the scheduler's part of the state is a sequence of steps of the scheduler.
\<close>

section \<open>The invariant\<close>

definition net_inv :: "net \<Rightarrow> bool" where
  "net_inv s \<longleftrightarrow> index_inv s \<and> sns_ok s \<and> requests_ok s \<and> sn_peers_ok s"

definition advances :: "net \<Rightarrow> net \<Rightarrow> bool" where
  "advances s s' \<longleftrightarrow> (net_inv s \<longrightarrow> net_inv s') \<and> sched_step\<^sup>*\<^sup>* (n_sched s) (n_sched s')"

lemma bind_InrE:
  assumes "bind_result m f = Inr y"
  obtains x where "m = Inr x" "f x = Inr y"
  using assms by (cases m) auto

lemma advances_refl [simp, intro]: "advances s s"
  by (simp add: advances_def)

lemma advances_trans [trans]: "advances s t \<Longrightarrow> advances t u \<Longrightarrow> advances s u"
  by (auto simp: advances_def intro: rtranclp_trans)

lemma net_inv_other [simp]:
  "net_inv (s\<lparr>n_sched := sc\<rparr>) = net_inv s" "net_inv (s\<lparr>objects := m\<rparr>) = net_inv s"
  "net_inv (s\<lparr>control_queue := q\<rparr>) = net_inv s" "net_inv (s\<lparr>control_replies := cr\<rparr>) = net_inv s"
  "net_inv (s\<lparr>sent := ms\<rparr>) = net_inv s" "net_inv (s\<lparr>pollitems_stale := b\<rparr>) = net_inv s"
  "net_inv (s\<lparr>next_conn_id := n\<rparr>) = net_inv s" "net_inv (s\<lparr>next_timer_id := n\<rparr>) = net_inv s"
  "net_inv (record_sent i parts s) = net_inv s"
  by (simp_all add: net_inv_def index_inv_def sns_ok_def requests_ok_def sn_peers_ok_def record_sent_def)

lemma advances_other [simp, intro]:
  "advances s (s\<lparr>objects := m\<rparr>)" "advances s (s\<lparr>control_queue := q\<rparr>)" "advances s (s\<lparr>control_replies := cr\<rparr>)"
  "advances s (record_sent i parts s)" "advances s (s\<lparr>next_conn_id := n\<rparr>)" "advances s (s\<lparr>next_timer_id := n\<rparr>)"
  by (simp_all add: advances_def) (simp add: record_sent_def)

lemma advances_sched: "sched_step (n_sched s) sc \<Longrightarrow> advances s (s\<lparr>n_sched := sc\<rparr>)"
  by (simp add: advances_def)

lemma advances_reply_job [simp, intro]: "advances s (upd_sched (proxy_schedule_reply_job f) s)"
  by (rule advances_sched) (rule sched_step.reply_job)

lemma single_job_built: "batch_built (add_job_on f 0 new_batch)" "b_jobs (add_job_on f 0 new_batch) \<noteq> []"
    "threads_ok s (add_job_on f 0 new_batch)"
  by (rule batch_built.timer_job, rule batch_built.empty) (simp_all add: add_job_on_def new_batch_def threads_ok_def Let_def)

lemma advances_job: "proxy_job f s = Inr s' \<Longrightarrow> advances s s'"
proof -
  assume "proxy_job f s = Inr s'"
  then have s': "s' = net_job f s" using proxy_job_eq [of s f] by (auto simp: proxy_job_def split: if_splits)
  let ?b = "add_job_on f 0 new_batch"
  have "sched_step (n_sched s) (snd (new_object ?b (n_sched s)))" by (rule sched_step.new) (rule single_job_built)+
  then have "advances s (s\<lparr>n_sched := snd (new_object ?b (n_sched s))\<rparr>)" by (rule advances_sched)
  moreover have "advances \<dots> s'" by (simp add: s' net_job_def split_beta Let_def)
  ultimately show ?thesis by (rule advances_trans)
qed

text \<open>A change of the peers and connections only.\<close>

lemma advances_peers:
  assumes "n_sched s' = n_sched s" "pending_requests s' = pending_requests s" "active_service_nodes s' = active_service_nodes s"
    and "index_inv s \<Longrightarrow> index_inv s'" "sn_peers_ok s \<Longrightarrow> sn_peers_ok s'"
  shows "advances s s'"
  using assms by (simp add: advances_def net_inv_def sns_ok_def requests_ok_def)

lemma sn_peers_ok_fewer: "sn_peers_ok s \<Longrightarrow> set (peers s') \<subseteq> set (peers s) \<Longrightarrow> sn_peers_ok s'"
  by (auto simp: sn_peers_ok_def)

lemma advances_erase: "advances s (s\<lparr>peers := erase_first P (peers s)\<rparr>)"
  using sn_peers_ok_fewer [of s "s\<lparr>peers := erase_first P (peers s)\<rparr>"] set_erase_first [of P "peers s"]
  by (intro advances_peers) (simp_all add: index_inv_erase_peer)

lemma change_first_all: "\<forall>x\<in>set xs. P x \<Longrightarrow> (\<And>x. P x \<Longrightarrow> P (f x)) \<Longrightarrow> \<forall>x\<in>set (change_first Q f xs). P x"
  by (induction xs) auto

lemma advances_change:
  assumes "\<And>kp. same_place kp (f kp)" "\<And>kp. p_service_node (snd (f kp)) = p_service_node (snd kp) \<and> p_pubkey (snd (f kp)) = p_pubkey (snd kp)"
  shows "advances s (s\<lparr>peers := change_first P f (peers s)\<rparr>)"
proof (rule advances_peers)
  show "index_inv (s\<lparr>peers := change_first P f (peers s)\<rparr>)" if "index_inv s"
    using that change_first_places [OF assms(1)] by (rule index_inv_places)
  show "sn_peers_ok (s\<lparr>peers := change_first P f (peers s)\<rparr>)" if "sn_peers_ok s"
    using that assms unfolding sn_peers_ok_def by (simp add: same_place_def) (rule change_first_all, simp_all)
qed simp_all

section \<open>Connections\<close>

lemma moved_peer [simp]:
  "p_service_node (snd (peer_ix.moved i kp)) = p_service_node (snd kp)" "p_pubkey (snd (peer_ix.moved i kp)) = p_pubkey (snd kp)"
  by (simp_all add: peer_ix.moved_def)

lemma advances_close:
  assumes "proxy_close_connection i linger s = Inr s'"
  shows "advances s s'"
proof (rule advances_peers)
  have i: "i < length (connections s)" using assms by (auto simp: proxy_close_connection_def split: if_splits)
  show "index_inv s'" if "index_inv s" using index_inv_close [OF that i, of linger] assms by auto
  have "peers s' = map (peer_ix.moved i) (filter (\<lambda>kp. peer_index kp \<noteq> i) (peers s))"
    using assms by (auto simp: proxy_close_connection_def Let_def peer_ix.update_eq split: if_splits)
  then show "sn_peers_ok s'" if "sn_peers_ok s" using that by (auto simp: sn_peers_ok_def)
qed (use assms in \<open>auto simp: proxy_close_connection_def Let_def split: if_splits\<close>)

lemma advances_close_iterating: "close_iterating k i linger s = Inr s' \<Longrightarrow> advances s s'"
  by (auto simp: close_iterating_def intro: advances_close split: if_splits)

lemma advances_expire: "expire_idle_loop now n s = Inr s' \<Longrightarrow> advances s s'"
proof (induction n arbitrary: s)
  case (Suc n)
  then show ?case
    by (auto simp: Let_def result_simps split: if_splits intro: advances_trans advances_close_iterating)
qed simp

lemma advances_disconnect: "disconnect_from conn linger s = Inr s' \<Longrightarrow> advances s s'"
  by (auto simp: disconnect_from_def intro: advances_close split: option.splits)

text \<open>What \<open>proxy_connect_sn\<close> can do to the state.\<close>

lemma connect_sn_cases:
  assumes "proxy_connect_sn now zmq_connect remote hint optional incoming_only outgoing_only eph keep_alive s = Inr (r, s')"
  obtains "s' = s"
    | P where "s' = s\<lparr>peers := change_first P (\<lambda>kp. (fst kp, reuse_peer now keep_alive (snd kp))) (peers s)\<rparr>"
    | sock p where "s' = s\<lparr>conn_index_to_id := conn_index_to_id s @ [sn_cid remote], peers := peers s @ [(sn_cid remote, p)],
        connections := connections s @ [sock], pollitems_stale := True\<rparr>" "p_service_node p" "p_pubkey p = remote"
proof (cases "length remote = 32")
  case False
  with assms show thesis by (simp add: proxy_connect_sn_def conn_of_pubkey_def)
next
  case True
  then have cid: "conn_of_pubkey remote = Inr (sn_cid remote)" by (simp add: conn_of_pubkey_def)
  show thesis
  proof (cases "find (usable_peer (sn_cid remote) incoming_only outgoing_only) (peers s)")
    case (Some kp)
    with assms have "s' = s\<lparr>peers := change_first (usable_peer (sn_cid remote) incoming_only outgoing_only)
        (\<lambda>kp. (fst kp, reuse_peer now keep_alive (snd kp))) (peers s)\<rparr>"
      by (simp add: proxy_connect_sn_def cid split: if_splits)
    then show thesis by (rule that(2))
  next
    case None
    let ?addr = "if hint = [] then sn_lookup s remote else hint"
    show thesis
    proof (cases "optional \<or> incoming_only \<or> ?addr = [] \<or> zmq_connect ?addr \<noteq> None")
      case True
      then have "s' = s" using assms None by (auto simp: proxy_connect_sn_def cid Let_def split: if_splits)
      then show thesis by (rule that(1))
    next
      case False
      then have "\<not> (optional \<or> incoming_only)" "?addr \<noteq> []" "zmq_connect ?addr = None" by auto
      with assms None have "s' = s\<lparr>conn_index_to_id := conn_index_to_id s @ [sn_cid remote],
          peers := peers s @ [(sn_cid remote, p_activity now ((new_peer_info (length (connections s)))\<lparr>p_service_node := True,
            p_pubkey := remote, p_idle_expiry := keep_alive\<rparr>))],
          connections := connections s @ [(setup_outgoing_socket s remote eph (new_socket DEALER))\<lparr>so_endpoint := ?addr\<rparr>],
          pollitems_stale := True\<rparr>"
        by (simp add: proxy_connect_sn_def cid Let_def split del: if_split)
      then show thesis by (rule that(3)) (simp_all add: p_activity_def)
    qed
  qed
qed

lemma advances_connect_sn:
  assumes "proxy_connect_sn now zmq_connect remote hint optional incoming_only outgoing_only eph keep_alive s = Inr (r, s')"
  shows "advances s s'"
proof -
  have "length remote = 32" using assms by (auto simp: proxy_connect_sn_def conn_of_pubkey_def split: if_splits)
  then have inv: "index_inv s'" if "index_inv s"
    using index_inv_connect_sn [OF that, of remote now zmq_connect hint optional incoming_only outgoing_only eph keep_alive] assms by auto
  from assms show ?thesis
  proof (cases rule: connect_sn_cases)
    case 1
    then show ?thesis by simp
  next
    case (2 P)
    then show ?thesis using advances_change by (simp add: same_place_def reuse_peer_def p_activity_def p_outgoing_def)
  next
    case (3 sock p)
    then show ?thesis
      using inv by (intro advances_peers) (auto simp: sn_peers_ok_def)
  qed
qed

lemma advances_open_remote:
  assumes "open_remote now zmq_connect zmq_send a s = Inr s'" "ra_conn_id a \<noteq> -1"
  shows "advances s s'"
proof (cases "zmq_connect (ra_remote a)")
  case (Some what)
  with assms(1) show ?thesis by (auto simp: open_remote_def)
next
  case None
  show ?thesis
  proof (rule advances_peers)
    show "index_inv s'" if "index_inv s" using that assms(1) by (rule index_inv_open_remote)
    show "sn_peers_ok s'" if "sn_peers_ok s"
      using assms None that
      by (auto simp: open_remote_def Let_def sn_peers_ok_def record_sent_def result_simps cid_sn_def SN_ID_def split: send_result.splits)
  qed (use assms None in \<open>auto simp: open_remote_def Let_def record_sent_def result_simps split: send_result.splits\<close>)
qed

section \<open>Clean-up\<close>

lemma distinct_erase_first: "distinct (map fst rs) \<Longrightarrow> distinct (map fst (erase_first P rs))"
proof (induction rs)
  case (Cons r rs)
  have "fst ` set (erase_first P rs) \<subseteq> fst ` set rs" using set_erase_first [of P rs] by blast
  with Cons show ?case by (auto simp: subset_iff)
qed simp

lemma advances_end_request: "advances s (s\<lparr>pending_requests := erase_first P (pending_requests s)\<rparr>)"
  by (simp add: advances_def net_inv_def sns_ok_def requests_ok_def sn_peers_ok_def distinct_erase_first)

lemma advances_time_out_requests: "time_out_requests now rs s = Inr s' \<Longrightarrow> advances s s'"
proof (induction now rs s rule: time_out_requests.induct)
  case (2 now tag expiry callback rs s)
  show ?case
  proof (cases "expiry < now")
    case True
    with 2(3) obtain t where t: "proxy_job (ReplyFn callback False [''TIMEOUT'']) s = Inr t"
        "time_out_requests now rs (t\<lparr>pending_requests := erase_first (\<lambda>r. fst r = tag) (pending_requests t)\<rparr>) = Inr s'"
      by (auto simp: result_simps)
    have "advances s t" using t(1) by (rule advances_job)
    also have "advances t (t\<lparr>pending_requests := erase_first (\<lambda>r. fst r = tag) (pending_requests t)\<rparr>)" by (rule advances_end_request)
    also have "advances \<dots> s'" using 2(1) [OF True t] .
    finally show ?thesis .
  next
    case False
    with 2 show ?thesis by simp
  qed
qed simp

lemma advances_cleanup: "proxy_conn_cleanup now s = Inr s' \<Longrightarrow> advances s s'"
proof -
  assume "proxy_conn_cleanup now s = Inr s'"
  then obtain t u where t: "expire_idle_loop now (length (peers s)) s = Inr t" "time_out_connects now (pending_connects t) t = Inr u"
      "time_out_requests now (pending_requests u) u = Inr s'"
    by (auto simp: proxy_conn_cleanup_def proxy_expire_idle_peers_def result_simps)
  have "time_out_connects now pcs t = Inr u \<Longrightarrow> u = t" for pcs by (induction pcs) (auto simp: result_simps split: if_splits)
  then have "u = t" using t(2) .
  then show ?thesis using t(1,3) advances_expire advances_time_out_requests advances_trans by blast
qed

section \<open>Service nodes\<close>

lemma advances_active:
  assumes "sns_ok s \<Longrightarrow> sns_ok (s\<lparr>active_service_nodes := pks\<rparr>)"
  shows "advances s (s\<lparr>active_service_nodes := pks\<rparr>)"
  using assms by (simp add: advances_def net_inv_def requests_ok_def sn_peers_ok_def)

lemma advances_drop_sn_peers: "drop_sn_peers n c s = Inr s' \<Longrightarrow> advances s s'"
proof (induction n arbitrary: s)
  case (Suc n)
  let ?t = "s\<lparr>peers := erase_first (\<lambda>kp. cid_eq (fst kp) c) (peers s)\<rparr>"
  show ?case
  proof (cases "find (\<lambda>kp. cid_eq (fst kp) c) (peers s)")
    case (Some kp)
    with Suc.prems obtain u where u: "drop_sn_peers n c u = Inr s'"
        "(if p_outgoing (snd kp) then close_iterating 0 (peer_index kp) (CLOSE_LINGER (n_settings ?t)) ?t else Inr ?t) = Inr u"
      by (auto simp: Let_def result_simps)
    have "advances ?t u" using u(2) advances_close_iterating by (auto split: if_splits)
    then show ?thesis using advances_erase Suc.IH [OF u(1)] advances_trans by blast
  qed (use Suc.prems in simp)
qed simp

lemma advances_remove_active_sns: "remove_active_sns pks s = Inr s' \<Longrightarrow> advances s s'"
proof (induction pks arbitrary: s)
  case (Cons pk pks)
  let ?t = "s\<lparr>active_service_nodes := filter (\<lambda>q. q \<noteq> pk) (active_service_nodes s)\<rparr>"
  from Cons.prems obtain c u where u: "drop_sn_peers (length (equal_range c (peers ?t))) c ?t = Inr u" "remove_active_sns pks u = Inr s'"
    by (auto simp: Let_def result_simps)
  have "advances s ?t" by (rule advances_active) (auto simp: sns_ok_def)
  then show ?case using advances_drop_sn_peers [OF u(1)] Cons.IH [OF u(2)] advances_trans by blast
qed simp

lemma advances_update_clean:
  assumes "proxy_update_active_sns_clean added removed s = Inr s'" "\<forall>pk\<in>set added. length pk = 32"
  shows "advances s s'"
proof -
  obtain t where t: "remove_active_sns removed s = Inr t" "s' = insert_active_sns added t"
    using assms(1) by (auto simp: proxy_update_active_sns_clean_def result_simps)
  have "advances t s'" using assms(2) unfolding t(2)
  proof (induction added arbitrary: t)
    case (Cons pk pks)
    let ?u = "t\<lparr>active_service_nodes := active_service_nodes t @ [pk]\<rparr>"
    have "advances t ?u" if "pk \<notin> set (active_service_nodes t)"
      by (rule advances_active) (use that Cons.prems in \<open>auto simp: sns_ok_def\<close>)
    with Cons.IH [of t] Cons.IH [of ?u] Cons.prems show ?case by (auto intro: advances_trans)
  qed simp
  then show ?thesis using advances_remove_active_sns [OF t(1)] advances_trans by blast
qed

lemma advances_update_active_sns: "proxy_update_active_sns added removed s = Inr s' \<Longrightarrow> advances s s'"
  by (auto simp: proxy_update_active_sns_def Let_def intro: advances_update_clean)

lemma advances_set_active_sns: "proxy_set_active_sns pubkeys s = Inr s' \<Longrightarrow> advances s s'"
  by (auto simp: proxy_set_active_sns_def Let_def intro!: advances_update_clean split: if_splits)

section \<open>Sending\<close>

lemma advances_erase_route: "erase_route n conn s = Inr (b, s') \<Longrightarrow> advances s s'"
  by (induction n) (auto intro: advances_erase split: option.splits if_splits)

lemma advances_forget: "forget_unreachable n conn s = Inr (b, s') \<Longrightarrow> advances s s'"
  by (auto simp: forget_unreachable_def intro: advances_erase advances_erase_route split: if_splits)

lemma advances_send_target: "send_target now zmq_connect a conn s = Inr (r, s') \<Longrightarrow> advances s s'"
  by (auto simp: send_target_def Let_def result_simps intro: advances_connect_sn split: if_splits option.splits)

lemma advances_send_loop: "send_loop n now zmq_connect zmq_send a conn s = Inr (r, s') \<Longrightarrow> advances s s'"
proof (induction n arbitrary: zmq_send conn s)
  case (Suc n)
  obtain target t where t: "send_target now zmq_connect a conn s = Inr (target, t)"
    using Suc.prems by (auto simp: result_simps)
  have st: "advances s t" using t by (rule advances_send_target)
  show ?case
  proof (cases target)
    case None
    with Suc.prems t st show ?thesis by auto
  next
    case (Some ir)
    obtain i route where ir: "ir = (i, route)" by (cases ir)
    let ?conn = "conn\<lparr>cid_route := route\<rparr>"
    obtain parts where parts: "build_send_parts (sa_send a) route = Inr parts"
      using Suc.prems t Some ir by (auto simp: Let_def result_simps)
    show ?thesis
    proof (cases "send_message_parts (zmq_send 0) parts")
      case (Send_error e)
      with Suc.prems t Some ir parts obtain retry u where
        u: "(if e = EHOSTUNREACH \<and> route \<noteq> [] then forget_unreachable n ?conn t else Inr (False, t)) = Inr (retry, u)"
          "(if retry then send_loop n now zmq_connect (\<lambda>k. zmq_send (Suc k)) a ?conn u else Inr ((False, Some e), u)) = Inr (r, s')"
        by (auto simp: Let_def result_simps)
      have "advances t u" using u(1) advances_forget by (auto split: if_splits)
      moreover have "advances u s'" using u(2) Suc.IH by (auto split: if_splits)
      ultimately show ?thesis using st advances_trans by blast
    qed (use Suc.prems t Some ir parts st in \<open>auto intro: advances_trans\<close>)
  qed
qed simp

lemma advances_insert_request: "advances s (insert_request tag expiry callback s)"
  by (auto simp: insert_request_def advances_def net_inv_def requests_ok_def sns_ok_def sn_peers_ok_def)

lemma advances_optional_job: "(if c then proxy_job f s else Inr s) = Inr s' \<Longrightarrow> advances s s'"
  by (auto intro: advances_job split: if_splits)

lemma advances_after_send:
  assumes "after_send now a (ok, failed) s = Inr s'"
  shows "advances s s'"
proof -
  obtain nosend t where t: "(case failed of
        Some e \<Rightarrow> if sa_fail a \<noteq> 0 then bind_result (proxy_job (SendFailFn (sa_fail a) (Some e)) s) (\<lambda>s. Inr (0, s)) else Inr (0, s)
      | None \<Rightarrow> Inr (sa_fail a, s)) = Inr (nosend, t)"
    using assms by (auto simp: after_send_def result_simps)
  from assms t obtain u where u: "(case sa_request a of
        None \<Rightarrow> Inr t
      | Some (tag, callback, timeout) \<Rightarrow>
          if ok then Inr (insert_request tag (now + timeout) callback t)
          else proxy_job (ReplyFn callback False [''TIMEOUT'']) t) = Inr u"
    by (auto simp: after_send_def result_simps)
  have s': "(if ok then Inr u else if nosend \<noteq> 0 then proxy_job (SendFailFn nosend None) u
      else if sa_full a \<noteq> 0 then proxy_job (SendFullFn (sa_full a)) u else Inr u) = Inr s'"
    using assms t u by (simp add: after_send_def)
  have "advances s t" using t advances_job by (auto simp: result_simps split: option.splits if_splits)
  also have "advances t u" using u advances_job advances_insert_request by (auto split: option.splits if_splits)
  also have "advances u s'" using s' advances_job by (auto split: if_splits)
  finally show ?thesis .
qed

lemma advances_deserialize: "deserialize_object as p s = Inr (x, s') \<Longrightarrow> advances s s'"
  by (auto simp: deserialize_object_def split: option.splits)

lemma advances_object_field: "object_field k as c s = Inr (x, c', s') \<Longrightarrow> advances s s'"
  by (auto simp: object_field_def result_simps intro: advances_deserialize split: option.splits)

lemma advances_read_request: "read_request c s = Inr (r, c', s') \<Longrightarrow> advances s s'"
  by (auto simp: read_request_def result_simps intro: advances_object_field split: if_splits option.splits)

lemma advances_read_send:
  assumes "read_send c s = Inr (a, s')"
  shows "advances s s'"
proof -
  from assms obtain r c1 c2 s1 c3 x c4 s2 c5 y c6 where read:
    "read_request c1 s = Inr (r, c2, s1)" "object_field ''send_fail'' as_queue_failure c3 s1 = Inr (x, c4, s2)"
    "object_field ''send_full_q'' as_queue_full c5 s2 = Inr (y, c6, s')"
    by (auto simp: read_send_def result_simps)
  have "advances s s1" using read(1) by (rule advances_read_request)
  also have "advances s1 s2" using read(2) by (rule advances_object_field)
  also have "advances s2 s'" using read(3) by (rule advances_object_field)
  finally show ?thesis .
qed

lemma advances_send: "proxy_send fuel now zmq_connect zmq_send data s = Inr s' \<Longrightarrow> advances s s'"
proof -
  assume "proxy_send fuel now zmq_connect zmq_send data s = Inr s'"
  then obtain c a t ok failed u where run: "read_send c s = Inr (a, t)"
      "send_loop fuel now zmq_connect zmq_send a (sa_conn a) t = Inr ((ok, failed), u)" "after_send now a (ok, failed) u = Inr s'"
    by (auto simp: proxy_send_def result_simps)
  have "advances s t" using run(1) by (rule advances_read_send)
  also have "advances t u" using run(2) by (rule advances_send_loop)
  also have "advances u s'" using run(3) by (rule advances_after_send)
  finally show ?thesis .
qed

section \<open>Replying\<close>

lemma set_erase_match: "set (erase_match P k xs) \<subseteq> set xs"
  by (induction P k xs rule: erase_match.induct) (auto split: nat.splits)

lemma out_indices_erase_match: "distinct (out_indices ps) \<Longrightarrow> distinct (out_indices (erase_match P k ps))"
proof (induction P k ps rule: erase_match.induct)
  case (2 P k kp ps)
  have kept: "set (out_indices (erase_match P j ps)) \<subseteq> set (out_indices ps)" for j
    using set_erase_match [of P j ps] by (auto simp: out_indices_def)
  have split: "out_indices (kp # qs) = (if p_outgoing (snd kp) then peer_index kp # out_indices qs else out_indices qs)" for qs
    by (simp add: out_indices_def)
  show ?case using 2 kept by (auto simp: split split: nat.splits if_splits)
qed simp

lemma advances_erase_match: "advances s (s\<lparr>peers := erase_match P k (peers s)\<rparr>)"
proof (rule advances_peers)
  show "index_inv (s\<lparr>peers := erase_match P k (peers s)\<rparr>)" if "index_inv s"
    using that by (intro index_inv_fewer_peers set_erase_match) (simp_all add: index_inv_def out_indices_erase_match)
  show "sn_peers_ok (s\<lparr>peers := erase_match P k (peers s)\<rparr>)" if "sn_peers_ok s"
    using that by (rule sn_peers_ok_fewer) (simp add: set_erase_match)
qed simp_all

lemma advances_reply_loop: "reply_loop n k zmq_send l conn s = Inr s' \<Longrightarrow> advances s s'"
proof (induction n arbitrary: k zmq_send s)
  case (Suc n)
  let ?kp = "equal_range conn (peers s) ! k"
  from Suc.prems obtain parts where "build_send_parts l (p_route (snd ?kp)) = Inr parts"
    by (auto simp: Let_def result_simps split: if_splits)
  with Suc.prems show ?case
    using Suc.IH by (auto simp: Let_def intro: advances_trans [OF advances_erase_match] split: send_result.splits if_splits)
qed simp

lemma advances_reply: "proxy_reply zmq_send data s = Inr s' \<Longrightarrow> advances s s'"
  by (auto simp: proxy_reply_def result_simps intro: advances_reply_loop)

section \<open>The other requests\<close>

lemma advances_connect_sn_data: "proxy_connect_sn_data now zmq_connect data s = Inr s' \<Longrightarrow> advances s s'"
  by (auto simp: proxy_connect_sn_data_def intro: advances_connect_sn elim!: bind_InrE split: option.splits)

lemma advances_read_remote:
  assumes "read_remote c s = Inr (a, s')"
  shows "advances s s'"
proof -
  from assms obtain c1 x c2 t c3 y c4 where read:
    "object_field ''connect'' as_success c1 s = Inr (x, c2, t)" "object_field ''failure'' as_failure c3 t = Inr (y, c4, s')"
    by (auto simp: read_remote_def result_simps)
  have "advances s t" using read(1) by (rule advances_object_field)
  also have "advances t s'" using read(2) by (rule advances_object_field)
  finally show ?thesis .
qed

lemma advances_connect_remote: "proxy_connect_remote now zmq_connect zmq_send data s = Inr s' \<Longrightarrow> advances s s'"
  by (auto simp: proxy_connect_remote_def result_simps split: if_splits
      intro: advances_trans [OF advances_read_remote advances_open_remote])

lemma advances_disconnect_data: "proxy_disconnect data s = Inr s' \<Longrightarrow> advances s s'"
  by (auto simp: proxy_disconnect_def result_simps Let_def intro: advances_disconnect split: if_splits)

lemma advances_timer:
  assumes "proxy_timer zmq_timer_id data s = Inr s'"
  shows "advances s s'"
proof -
  from assms obtain p f t tid interval squelch thread sc where run: "deserialize_object as_function p s = Inr (f, t)"
      "proxy_timer_add zmq_timer_id tid f (to_ms interval) squelch thread (n_sched t) = Inr sc" "s' = t\<lparr>n_sched := sc\<rparr>"
    by (auto simp: proxy_timer_def result_simps split: if_splits)
  have "advances s t" using run(1) by (rule advances_deserialize)
  also have "advances t s'" unfolding run(3) using run(2) by (intro advances_sched sched_step.timer_add)
  finally show ?thesis .
qed

lemma advances_timer_del: "advances s (upd_sched (proxy_timer_del tid) s)"
  by (rule advances_sched) (rule sched_step.timer_del)

lemma advances_update_sns_data:
  assumes "proxy_update_active_sns_data data s = Inr s'"
  shows "advances s s'"
proof -
  from assms obtain p added t q removed u where run: "deserialize_object as_pubkeys p s = Inr (added, t)"
      "deserialize_object as_pubkeys q t = Inr (removed, u)" "proxy_update_active_sns added removed u = Inr s'"
    by (auto simp: proxy_update_active_sns_data_def result_simps)
  have "advances s t" using run(1) by (rule advances_deserialize)
  also have "advances t u" using run(2) by (rule advances_deserialize)
  also have "advances u s'" using run(3) by (rule advances_update_active_sns)
  finally show ?thesis .
qed

text \<open>
  The messages the library sends itself: a batch is handed over once, an injected task names a
  category that exists (\<open>inject_task\<close> has checked it), and the end is not among them.
\<close>

definition control_ok :: "bytes list \<Rightarrow> net \<Rightarrow> bool" where
  "control_ok parts s \<longleftrightarrow>
     (let cmd = parts ! 1; addr = (case bt_deserialize_integral uint64 (parts ! 2) of Inl _ \<Rightarrow> 0 | Inr p \<Rightarrow> nat p)
      in cmd \<noteq> ''QUIT''
       \<and> (cmd = ''BATCH'' \<longrightarrow> addr \<notin> set (batches (n_sched s)))
       \<and> (cmd = ''INJECT'' \<longrightarrow> (case deserialize_object as_task addr s of Inl _ \<Rightarrow> True
             | Inr (task, _) \<Rightarrow> it_cat task \<in> set (map fst (categories (n_sched s))))))"

lemma advances_batch:
  assumes "proxy_batch p (n_sched s) = Inr sc" "p \<notin> set (batches (n_sched s))"
  shows "advances s (s\<lparr>n_sched := sc\<rparr>)"
proof -
  obtain b where "map_of (batch_heap (n_sched s)) p = Some b" using assms(1) by (auto simp: proxy_batch_def split: option.splits)
  then show ?thesis using assms by (intro advances_sched sched_step.take_batch)
qed

lemma advances_inject:
  assumes "deserialize_object as_task p s = Inr (task, t)" "it_cat task \<in> set (map fst (categories (n_sched s)))"
  shows "advances s (upd_sched (proxy_inject_task task) t)"
proof -
  have "advances s t" using assms(1) by (rule advances_deserialize)
  moreover have "n_sched t = n_sched s" using assms(1) by (auto simp: deserialize_object_def split: option.splits)
  then have "advances t (upd_sched (proxy_inject_task task) t)"
    using assms(2) unfolding proxy_inject_task_def by (intro advances_sched sched_step.command) simp
  ultimately show ?thesis by (rule advances_trans)
qed

lemma advances_set_sns_data:
  "deserialize_object as_pubkeys p s = Inr (pks, t) \<Longrightarrow> proxy_set_active_sns pks t = Inr s' \<Longrightarrow> advances s s'"
  using advances_deserialize advances_set_active_sns by (rule advances_trans)

lemma advances_control:
  assumes "proxy_control_message e parts s = Inr s'" "control_ok parts s"
  shows "advances s s'"
proof (cases "length parts = 3")
  case True
  from assms(2) have ok: "parts ! Suc 0 = ''BATCH'' \<Longrightarrow> bt_deserialize_integral uint64 (parts ! 2) = Inr p \<Longrightarrow> nat p \<notin> set (batches (n_sched s))"
      "parts ! Suc 0 = ''INJECT'' \<Longrightarrow> bt_deserialize_integral uint64 (parts ! 2) = Inr p \<Longrightarrow> deserialize_object as_task (nat p) s = Inr (task, t)
        \<Longrightarrow> it_cat task \<in> set (map fst (categories (n_sched s)))" for p task t
    by (simp_all add: control_ok_def Let_def)
  have inject: "advances s (upd_sched (proxy_inject_task task) t)" if "parts ! Suc 0 = ''INJECT''"
      "bt_deserialize_integral uint64 (parts ! 2) = Inr p" "deserialize_object as_task (nat p) s = Inr (task, t)" for p task t
    using that(3) ok(2) [OF that] by (rule advances_inject)
  show ?thesis
    using assms(1) True unfolding proxy_control_message_def Let_def
    by (simp split: if_splits add: advances_send advances_reply advances_update_sns_data advances_connect_sn_data
        advances_connect_remote advances_disconnect_data advances_timer)
       (auto simp: result_simps ok(1) intro: advances_batch inject advances_set_sns_data advances_timer_del)
next
  case False
  then show ?thesis using assms by (auto simp: proxy_control_message_def control_ok_def Let_def split: if_splits)
qed

section \<open>Incoming messages\<close>

lemma change_first_cong: "find P xs = Some y \<Longrightarrow> f y = g y \<Longrightarrow> change_first P f xs = change_first P g xs"
  by (induction xs) (auto split: if_splits)

text \<open>
  What zmq guarantees of the messages it delivers: they have a part, and those of a listening
  socket begin with the routing id of the sender, which is not empty.
\<close>

definition message_ok :: "nat \<Rightarrow> message_t list \<Rightarrow> net \<Rightarrow> bool" where
  "message_ok i parts s \<longleftrightarrow> i < length (connections s) \<and> parts \<noteq> []
     \<and> (so_type (connections s ! i) = ROUTER \<longrightarrow> m_data (parts ! 0) \<noteq> [])"

lemma advances_new_incoming:
  assumes "names ROUTER (connections s) (p_conn_index p)" "\<not> p_outgoing p" "cid_sn c \<Longrightarrow> p_service_node p \<and> p_pubkey p = cid_pk c"
  shows "advances s (s\<lparr>peers := peers s @ [(c, p)]\<rparr>)"
  using assms by (intro advances_peers) (auto simp: index_inv_def sn_peers_ok_def peer_ok_def names_def out_indices_def)

lemma command_peer_cases:
  assumes "command_peer i parts s = Inr (found, t)" "message_ok i parts s"
  shows "advances s t \<and> (\<exists>ps. t = s\<lparr>peers := ps\<rparr>)"
proof (cases "so_type (connections s ! i)")
  case DEALER
  with assms(1) have "t = s" by (auto simp: command_peer_def split: if_splits option.splits)
  then show ?thesis by (auto intro: exI [of _ "peers s"])
next
  case ROUTER
  let ?tmp = "incoming_peer i parts s"
  have tmp: "p_conn_index ?tmp = i" "p_route ?tmp \<noteq> []" "p_service_node ?tmp \<Longrightarrow> length (p_pubkey ?tmp) = 32"
    using assms(2) ROUTER by (simp_all add: incoming_peer_def new_peer_info_def message_ok_def split_beta Let_def)
  show ?thesis
  proof (cases "p_service_node ?tmp")
    case False
    with assms(1) ROUTER have "t = s" by (simp add: command_peer_def Let_def)
    then show ?thesis by (auto intro: exI [of _ "peers s"])
  next
    case True
    let ?c = "sn_cid (p_pubkey ?tmp)"
    let ?mine = "\<lambda>kp. cid_eq (fst kp) ?c \<and> p_conn_index (snd kp) = p_conn_index ?tmp \<and> p_route (snd kp) = p_route ?tmp"
    have c: "conn_of_pubkey (p_pubkey ?tmp) = Inr ?c" using tmp(3) [OF True] by (simp add: conn_of_pubkey_def)
    show ?thesis
    proof (cases "find ?mine (peers s)")
      case None
      with assms(1) ROUTER True c have t: "t = s\<lparr>peers := peers s @ [(?c, ?tmp)]\<rparr>" by (simp add: command_peer_def Let_def)
      have "advances s t"
        unfolding t using tmp True assms(2) ROUTER by (intro advances_new_incoming) (simp_all add: names_def message_ok_def p_outgoing_def)
      then show ?thesis using t by blast
    next
      case (Some kp)
      let ?f = "\<lambda>kp. (fst kp, (snd kp)\<lparr>p_auth_level := p_auth_level ?tmp\<rparr>)"
      have "t = s\<lparr>peers := change_first ?mine (\<lambda>q. (fst q, snd (?f kp))) (peers s)\<rparr>"
        using assms(1) ROUTER True c Some by (simp add: command_peer_def Let_def)
      then have t: "t = s\<lparr>peers := change_first ?mine ?f (peers s)\<rparr>"
        using change_first_cong [OF Some, of "\<lambda>q. (fst q, snd (?f kp))" ?f] by simp
      have "advances s t" unfolding t by (rule advances_change) (simp_all add: same_place_def p_outgoing_def)
      then show ?thesis using t by blast
    qed
  qed
qed

lemma command_peer_succeeds:
  assumes "index_inv s" "i < length (connections s)"
  obtains found t where "command_peer i parts s = Inr (found, t)"
proof -
  have "\<exists>r. command_peer i parts s = Inr r"
  proof (cases "p_service_node (incoming_peer i parts s)")
    case True
    then have "length (p_pubkey (incoming_peer i parts s)) = 32" by (simp add: incoming_peer_def split_beta Let_def)
    then show ?thesis using assms by (simp add: command_peer_def Let_def conn_of_pubkey_def index_inv_def split: option.splits)
  next
    case False
    then show ?thesis using assms by (simp add: command_peer_def Let_def index_inv_def split: option.splits)
  qed
  then show thesis using that by auto
qed

lemma get_command_category: "get_command r cmd = (command, Some (cat, x)) \<Longrightarrow> cat \<in> set (map fst (categories r))"
  by (force simp: get_command_def Let_def map_of_eq_None_iff split: if_splits option.splits dest: map_of_SomeD)

lemma check_auth_cases:
  assumes "i < length (connections s)"
  obtains "auth_refusal s peer cat_call data = None" "proxy_check_auth zmq_send i outgoing peer cmd cat_call data s = Inr (True, s)"
    | t where "proxy_check_auth zmq_send i outgoing peer cmd cat_call data s = Inr (False, t)" "advances s t"
  using assms by (cases "auth_refusal s peer cat_call data") (auto simp: proxy_check_auth_def Let_def)

lemma touch_advances: "advances s (s\<lparr>peers := change_first P (\<lambda>kp. (fst kp, p_activity now (snd kp))) (peers s)\<rparr>)"
  by (rule advances_change) (simp_all add: same_place_def p_activity_def p_outgoing_def)

lemma to_worker_succeeds:
  assumes "index_inv s" "message_ok i parts s" "(if so_type (connections s ! i) = DEALER then 0 else 1) < length parts"
  shows "\<exists>s'. proxy_to_worker now zmq_send i parts s = Inr s' \<and> advances s s'"
proof -
  let ?out = "so_type (connections s ! i) = DEALER"
  let ?k = "if ?out then 0 else 1 :: nat"
  have i: "i < length (connections s)" using assms(2) by (simp add: message_ok_def)
  obtain found t where t: "command_peer i parts s = Inr (found, t)" using assms(1) i by (rule command_peer_succeeds)
  from command_peer_cases [OF t assms(2)] obtain ps where st: "advances s t" "t = s\<lparr>peers := ps\<rparr>" by blast
  then have conns: "i < length (connections t)" "i < length (conn_index_to_id t)" using i assms(1) by (simp_all add: index_inv_def)
  note run = proxy_to_worker_def Let_def i assms(3) t
  show ?thesis
  proof (cases found)
    case None
    with st show ?thesis by (auto simp: run)
  next
    case (Some pr)
    obtain peer route where pr: "pr = (peer, route)" by (cases pr)
    let ?cmd = "m_data (parts ! ?k)" and ?data = "map m_data (drop (Suc ?k) parts)"
    obtain command cat_call where g: "get_command (n_sched t) ?cmd = (command, cat_call)" by (cases "get_command (n_sched t) ?cmd")
    from check_auth_cases [OF conns(1), of peer cat_call ?data zmq_send ?out ?cmd] show ?thesis
    proof cases
      case (2 u)
      then have "proxy_to_worker now zmq_send i parts s = Inr u" using Some pr g by (simp add: run split del: if_split)
      then show ?thesis using advances_trans [OF st(1) 2(2)] by blast
    next
      case 1
      then obtain cat c callback where call: "cat_call = Some (cat, c, callback)" by (cases cat_call) auto
      let ?step = "\<lambda>p. upd_sched (run_or_queue p) t"
      have cat: "cat \<in> set (map fst (categories (n_sched t)))" using g unfolding call by (rule get_command_category)
      have step: "advances s (?step p)" if "pc_cat p = cat" for p
        using cat that by (intro advances_trans [OF st(1)] advances_sched sched_step.command) simp
      have touch: "advances s ((?step p)\<lparr>peers := change_first Q (\<lambda>kp. (fst kp, p_activity now (snd kp))) (peers t)\<rparr>)"
        if "pc_cat p = cat" for p Q
        using advances_trans [OF step [OF that] touch_advances, of Q now] by simp
      show ?thesis
        using 1(2) Some pr g call conns(2) step touch st(1) by (simp add: run split del: if_split) (auto split: if_splits)
    qed
  qed
qed

section \<open>Built-in messages\<close>

lemma advances_pending_connects:
  "set pcs \<subseteq> set (pending_connects s) \<Longrightarrow> advances s (s\<lparr>pending_connects := pcs\<rparr>)"
  by (intro advances_peers) (auto simp: index_inv_def sn_peers_ok_def)

lemma advances_finish_request: "advances s (finish_request tag success data s)"
proof (cases "map_of (pending_requests s) tag")
  case None
  then show ?thesis by (simp add: finish_request_def)
next
  case (Some r)
  let ?t = "upd_sched (proxy_schedule_reply_job (ReplyFn (snd r) success data)) s"
  have "finish_request tag success data s = ?t\<lparr>pending_requests := erase_first (\<lambda>r. fst r = tag) (pending_requests ?t)\<rparr>"
    using Some by (simp add: finish_request_def split_beta)
  then show ?thesis using advances_trans [OF advances_reply_job advances_end_request] by metis
qed

lemma handle_hello_succeeds:
  assumes "index_inv s" "i < length (connections s)"
  shows "\<exists>s'. handle_hello i s = Inr s' \<and> advances s s'"
proof (cases "find (\<lambda>pc. pn_index pc = i) (pending_connects s)")
  case (Some pc)
  let ?t = "upd_sched (proxy_schedule_reply_job (ConnectFn (pn_success pc) (conn_index_to_id s ! i))) s"
  have "advances ?t (?t\<lparr>pending_connects := erase_first (\<lambda>pc. pn_index pc = i) (pending_connects s)\<rparr>)"
    by (rule advances_pending_connects) (simp add: set_erase_first)
  then have "advances s (?t\<lparr>pending_connects := erase_first (\<lambda>pc. pn_index pc = i) (pending_connects s)\<rparr>)"
    using advances_reply_job advances_trans by blast
  then show ?thesis using assms Some by (auto simp: handle_hello_def index_inv_def split: option.split)
qed (simp add: handle_hello_def)

lemma builtin_succeeds:
  assumes "index_inv s" "i < length (connections s)"
  shows "\<exists>b s'. proxy_handle_builtin zmq_send i parts s = Inr (b, s') \<and> advances s s'
    \<and> (\<not> b \<longrightarrow> s' = s \<and> (if so_type (connections s ! i) = DEALER then 0 else 1) < length parts)"
proof -
  obtain t where t: "handle_hello i s = Inr t" "advances s t" using handle_hello_succeeds [OF assms] by blast
  obtain u where u: "proxy_close_connection i 0 s = Inr u" using index_inv_close [OF assms] by metis
  note u = this advances_close [OF this]
  show ?thesis
    using assms(2) t u advances_finish_request unfolding proxy_handle_builtin_def Let_def
    by (cases "so_type (connections s ! i)") (auto simp: is_error_response_def split: if_splits)
qed

end
