(* ===== verification/Proxy.thy ===== *)
theory Proxy
  imports Net_Invariant "HOL-Library.Sublist"
begin

text \<open>
  The main loop of the proxy thread (\<open>proxy_loop\<close> and \<open>proxy_quit\<close> of
  \<^verbatim>\<open>src/arqmamq/proxy.cpp\<close>, \<open>rebuild_pollitems\<close> of
  \<^verbatim>\<open>connections.cpp\<close>) and the destructor (\<^verbatim>\<open>arqmamq.cpp\<close>). What has arrived
  on the sockets when a round of the loop reads them is an argument.
\<close>

section \<open>Incoming messages\<close>

text \<open>
  \<open>recv_message_parts\<close> without waiting, on the connection \<open>i\<close>: zmq delivers the parts of a
  message together. \<open>inbox\<close> holds the messages that wait on each connection.
\<close>

definition recv_parts :: "nat \<Rightarrow> 'm list list \<Rightarrow> ('m \<times> 'm list list) option" where
  "recv_parts i inbox =
     (if i < length inbox then case inbox ! i of [] \<Rightarrow> None | m # ms \<Rightarrow> Some (m, inbox[i := ms]) else None)"

definition proxy_incoming :: "env \<Rightarrow> nat \<Rightarrow> message_t list \<Rightarrow> net \<Rightarrow> net result" where
  "proxy_incoming e i parts s =
     bind_result (proxy_handle_builtin (ev_send e 0) i (map m_data parts) s) (\<lambda>(handled, s).
       if handled then Inr s else proxy_to_worker (ev_now e) (ev_send e 0) i parts s)"

lemma sum_list_update_less: "i < length xs \<Longrightarrow> f y < f (xs ! i) \<Longrightarrow> sum_list (map f (xs[i := y])) < sum_list (map f xs)"
  for f :: "'a \<Rightarrow> nat"
  by (induction xs arbitrary: i) (auto split: nat.splits simp: nth_Cons')

lemma recv_parts_less: "recv_parts i inbox = Some (m, inbox') \<Longrightarrow> sum_list (map length inbox') < sum_list (map length inbox)"
  by (auto simp: recv_parts_def intro!: sum_list_update_less split: if_splits list.splits)

text \<open>
  The loop over the connections: one message is read from each in turn, and a connection that
  had one goes back to the end of the queue. It stops when a handler has changed the set of
  connections. The result lists the messages it handled, beside those that still wait.
\<close>

function (sequential) incoming_loop ::
  "(nat \<Rightarrow> env) \<Rightarrow> nat list \<Rightarrow> message_t list list list \<Rightarrow> net
     \<Rightarrow> ((nat \<times> message_t list) list \<times> message_t list list list \<times> net) result" where
  "incoming_loop ev [] inbox s = Inr ([], inbox, s)"
| "incoming_loop ev (i # queue_index) inbox s =
     (if i < length (connections s) then
        case recv_parts i inbox of
          None \<Rightarrow> incoming_loop ev queue_index inbox s
        | Some (parts, inbox) \<Rightarrow>
            let queue_index = queue_index @ [i] in
            if parts = [] then incoming_loop ev queue_index inbox s
            else bind_result (proxy_incoming (ev 0) i parts s) (\<lambda>s.
              if pollitems_stale s then Inr ([(i, parts)], inbox, s)
              else bind_result (incoming_loop (\<lambda>k. ev (Suc k)) queue_index inbox s) (\<lambda>(served, r).
                Inr ((i, parts) # served, r)))
      else Inl Undefined_behaviour)"
  by pat_completeness auto

termination
  by (relation "measures [\<lambda>(_, _, inbox, _). sum_list (map length inbox), \<lambda>(_, queue_index, _, _). length queue_index]")
     (auto dest: recv_parts_less)

declare incoming_loop.simps(2) [simp del]

section \<open>A round of the loop\<close>

text \<open>The sockets the proxy polls.\<close>

datatype poll_source = Command_socket | Workers_socket | Zap_socket | Connection_socket nat

definition rebuild_pollitems :: "net \<Rightarrow> poll_source list \<times> net" where
  "rebuild_pollitems s =
     ([Command_socket, Workers_socket, Zap_socket] @ map Connection_socket [0..<length (connections s)],
      s\<lparr>pollitems_stale := False\<rparr>)"

text \<open>\<open>proxy_quit\<close>: the sockets are closed, with a time for what is still to be sent.\<close>

definition proxy_quit :: "net \<Rightarrow> net" where
  "proxy_quit s =
     s\<lparr>proxy_shutting_down := True,
       closed := closed s @ map (so_set so_linger (OptInt (CLOSE_LINGER (n_settings s)))) (connections s),
       connections := [], peers := []\<rparr>"

text \<open>A loop that reads messages and handles each.\<close>

fun handle_all :: "('m \<Rightarrow> 's \<Rightarrow> 's result) \<Rightarrow> 'm list \<Rightarrow> 's \<Rightarrow> 's result" where
  "handle_all f [] s = Inr s"
| "handle_all f (m # ms) s = bind_result (f m s) (handle_all f ms)"

text \<open>
  The loop over the control messages. Handlers send the proxy further ones, so the number of
  rounds is bounded by an argument. \<open>route\<close> is the name zmq gives the sender.
\<close>

fun control_loop :: "nat \<Rightarrow> (nat \<Rightarrow> env) \<Rightarrow> bytes \<Rightarrow> net \<Rightarrow> net result" where
  "control_loop n ev route s =
     (case control_queue s of
        [] \<Rightarrow> Inr s
      | m # ms \<Rightarrow>
          (case n of
             0 \<Rightarrow> Inl Out_of_fuel
           | Suc n \<Rightarrow> bind_result (proxy_control_message (ev 0) (route # m) (s\<lparr>control_queue := ms\<rparr>))
               (control_loop n (\<lambda>k. ev (Suc k)) route)))"

declare control_loop.simps [simp del]

text \<open>A timer that is due: the clean-up of connections, or one that \<open>add_timer\<close> made.\<close>

datatype due = Cleanup | Due int

fun timer_fires :: "int \<Rightarrow> due \<Rightarrow> net \<Rightarrow> net result" where
  "timer_fires now Cleanup s = proxy_conn_cleanup now s"
| "timer_fires now (Due t) s = bind_result (queue_timer_job t (n_sched s)) (\<lambda>sc. Inr (s\<lparr>n_sched := sc\<rparr>))"

text \<open>What one round of the loop finds: the messages of workers, the timers that are due, the requests of ZAP, and the messages of the connections.\<close>

record arrivals =
  ar_workers :: "bytes list list"
  ar_timers :: "due list"
  ar_zap :: "bytes list list"
  ar_inbox :: "message_t list list list"

definition all_stopped :: "sched \<Rightarrow> bool" where
  "all_stopped s \<longleftrightarrow> list_all (\<lambda>w. \<not> thread_joinable w) (workers s) \<and> list_all (\<lambda>(r, _, _). \<not> thread_joinable r) (tagged_workers s)"

text \<open>
  One round; \<open>None\<close> when the loop ends. Otherwise the result has the answers to the ZAP requests
  and the messages that were handled.
\<close>

definition proxy_round ::
  "nat \<Rightarrow> (nat \<Rightarrow> env) \<Rightarrow> bytes \<Rightarrow> arrivals \<Rightarrow> net
     \<Rightarrow> ((bytes list list \<times> (nat \<times> message_t list) list \<times> message_t list list list) option \<times> net) result" where
  "proxy_round fuel ev route a s =
     (if max_workers (n_sched s) = 0 \<and> all_stopped (n_sched s) then Inr (None, proxy_quit s)
      else
        let s = (if proxy_skip_one_poll (n_sched s) then upd_sched (\<lambda>sc. sc\<lparr>proxy_skip_one_poll := False\<rparr>) s
                 else if pollitems_stale s then snd (rebuild_pollitems s) else s)
        in
        bind_result (control_loop fuel ev route s) (\<lambda>s.
        bind_result (handle_all (\<lambda>m s. bind_result (proxy_worker_message m (n_sched s)) (\<lambda>sc. Inr (s\<lparr>n_sched := sc\<rparr>))) (ar_workers a) s) (\<lambda>s.
        bind_result (handle_all (timer_fires (ev_now (ev 0))) (ar_timers a) s) (\<lambda>s.
          let zap = map (\<lambda>frames. zap_response frames s) (ar_zap a);
              s = upd_sched proxy_process_queue s
          in bind_result (incoming_loop (\<lambda>k. ev (fuel + k)) [0..<length (connections s)] (ar_inbox a) s) (\<lambda>(served, inbox, s).
               Inr (Some (zap, served, inbox), s))))))"

text \<open>
  The destructor. Without a proxy the tagged threads are told to end and waited for; otherwise
  the proxy is told to end, and the thread that destroys the object waits for it.
\<close>

definition ArqmaMQ_destroy :: "net \<Rightarrow> net result" where
  "ArqmaMQ_destroy s =
     (if \<not> proxy_joinable (n_sched s) then
        let ids = map (\<lambda>(run, _, _). worker_routing_id run) (tagged_workers (n_sched s))
        in Inr (upd_sched (\<lambda>sc. fold emit (map (\<lambda>i. Send_worker i ''QUIT'') ids @ map Joined ids) sc) s)
      else control_message ''QUIT'' [] s)"

section \<open>The order in which connections are served\<close>

text \<open>The order of the loop when no handler stops it.\<close>

function (sequential) serving_order :: "nat list \<Rightarrow> 'm list list \<Rightarrow> (nat \<times> 'm) list" where
  "serving_order [] inbox = []"
| "serving_order (i # q) inbox =
     (case recv_parts i inbox of
        None \<Rightarrow> serving_order q inbox
      | Some (m, inbox) \<Rightarrow> (i, m) # serving_order (q @ [i]) inbox)"
  by pat_completeness auto

termination
  by (relation "measures [\<lambda>(_, inbox). sum_list (map length inbox), \<lambda>(q, _). length q]") (auto dest: recv_parts_less)

declare serving_order.simps(2) [simp del]

text \<open>Taking the first message of each of some connections.\<close>

definition pop_each :: "nat list \<Rightarrow> 'm list list \<Rightarrow> 'm list list" where
  "pop_each is inbox = fold (\<lambda>i inbox. inbox[i := tl (inbox ! i)]) is inbox"

lemma length_pop_each [simp]: "length (pop_each is inbox) = length inbox"
  unfolding pop_each_def by (induction "is" arbitrary: inbox) auto

lemma pop_each_nth: "distinct is \<Longrightarrow> i < length inbox \<Longrightarrow> pop_each is inbox ! i = (if i \<in> set is then tl (inbox ! i) else inbox ! i)"
  unfolding pop_each_def
proof (induction "is" arbitrary: inbox)
  case (Cons j "is")
  then show ?case by (cases "i = j") simp_all
qed simp

lemma serving_order_pass:
  "distinct is \<Longrightarrow> set is \<subseteq> {..<length inbox} \<Longrightarrow> set is \<inter> set q = {}
   \<Longrightarrow> serving_order (is @ q) inbox = map (\<lambda>i. (i, hd (inbox ! i))) (filter (\<lambda>i. inbox ! i \<noteq> []) is)
     @ serving_order (q @ filter (\<lambda>i. inbox ! i \<noteq> []) is) (pop_each is inbox)"
proof (induction "is" arbitrary: q inbox)
  case Nil
  then show ?case by (simp add: pop_each_def)
next
  case (Cons i "is")
  then have i: "i < length inbox" "i \<notin> set is" by auto
  have same: "inbox[i := ms] ! j = inbox ! j" if "j \<in> set is" for j ms
    using that i(2) by (intro nth_list_update_neq) auto
  show ?case
  proof (cases "inbox ! i")
    case Nil
    then have "inbox[i := []] = inbox" by (metis list_update_id)
    then have "pop_each (i # is) inbox = pop_each is inbox" using Nil by (simp add: pop_each_def)
    moreover have "serving_order ((i # is) @ q) inbox = serving_order (is @ q) inbox"
      using Nil i(1) by (simp add: serving_order.simps(2) recv_parts_def)
    ultimately show ?thesis using Cons.IH [of inbox q] Cons.prems Nil by simp
  next
    case (Cons m ms)
    let ?inbox = "inbox[i := ms]"
    have pop: "pop_each (i # is) inbox = pop_each is ?inbox" using Cons by (simp add: pop_each_def)
    have kept: "filter (\<lambda>j. ?inbox ! j \<noteq> []) is = filter (\<lambda>j. inbox ! j \<noteq> []) is"
      "map (\<lambda>j. (j, hd (?inbox ! j))) (filter (\<lambda>j. inbox ! j \<noteq> []) is) = map (\<lambda>j. (j, hd (inbox ! j))) (filter (\<lambda>j. inbox ! j \<noteq> []) is)"
      by (auto intro!: filter_cong simp: same)
    have "serving_order ((i # is) @ q) inbox = (i, m) # serving_order (is @ (q @ [i])) ?inbox"
      using Cons i(1) by (simp add: serving_order.simps(2) recv_parts_def)
    also have "serving_order (is @ (q @ [i])) ?inbox = map (\<lambda>j. (j, hd (inbox ! j))) (filter (\<lambda>j. inbox ! j \<noteq> []) is)
        @ serving_order ((q @ [i]) @ filter (\<lambda>j. inbox ! j \<noteq> []) is) (pop_each is ?inbox)"
      using Cons.IH [of ?inbox "q @ [i]"] Cons.prems i(2) kept by auto
    finally show ?thesis using Cons pop by simp
  qed
qed

text \<open>The order round by round: round \<open>r\<close> serves the message \<open>r\<close> of each connection that has one.\<close>

definition serving_round :: "nat list \<Rightarrow> 'm list list \<Rightarrow> nat \<Rightarrow> (nat \<times> 'm) list" where
  "serving_round is inbox r = map (\<lambda>i. (i, inbox ! i ! r)) (filter (\<lambda>i. r < length (inbox ! i)) is)"

definition round_robin :: "'m list list \<Rightarrow> (nat \<times> 'm) list" where
  "round_robin inbox = concat (map (serving_round [0..<length inbox] inbox) [0..<foldr max (map length inbox) 0])"

lemma serving_order_rounds:
  "distinct is \<Longrightarrow> set is \<subseteq> {..<length inbox} \<Longrightarrow> \<forall>i\<in>set is. length (inbox ! i) \<le> m
   \<Longrightarrow> serving_order is inbox = concat (map (serving_round is inbox) [0..<m])"
proof (induction m arbitrary: "is" inbox)
  case 0
  then show ?case
  proof (induction "is")
    case (Cons i "is")
    then show ?case by (simp add: serving_order.simps(2) recv_parts_def)
  qed simp
next
  case (Suc m)
  let ?js = "filter (\<lambda>i. inbox ! i \<noteq> []) is" and ?inbox = "pop_each is inbox"
  have nth: "?inbox ! i = tl (inbox ! i)" if "i \<in> set is" for i using that Suc.prems(1,2) by (auto simp: pop_each_nth)
  have rest: "serving_round ?js ?inbox r = serving_round is inbox (Suc r)" for r
  proof -
    have "filter (\<lambda>i. r < length (?inbox ! i)) ?js = filter (\<lambda>i. Suc r < length (inbox ! i)) is"
      unfolding filter_filter by (rule filter_cong) (auto simp: nth)
    moreover have "?inbox ! i ! r = inbox ! i ! Suc r" if "i \<in> set is" "Suc r < length (inbox ! i)" for i
      using that nth by (simp add: nth_tl)
    ultimately show ?thesis by (auto simp: serving_round_def)
  qed
  have first: "serving_round is inbox 0 = map (\<lambda>i. (i, hd (inbox ! i))) ?js"
    by (auto simp: serving_round_def hd_conv_nth)
  have "serving_order is inbox = map (\<lambda>i. (i, hd (inbox ! i))) ?js @ serving_order ?js ?inbox"
    using serving_order_pass [of "is" inbox "[]"] Suc.prems by simp
  also have "serving_order ?js ?inbox = concat (map (serving_round ?js ?inbox) [0..<m])"
    using Suc.prems nth by (intro Suc.IH) (auto simp: less_eq_Suc_le Suc_le_eq)
  also have "\<dots> = concat (map (serving_round is inbox) (map Suc [0..<m]))"
  proof -
    have "serving_round ?js ?inbox = serving_round is inbox \<circ> Suc" by (rule ext) (simp add: rest)
    then show ?thesis by simp
  qed
  finally have "serving_order is inbox = concat (map (serving_round is inbox) (0 # map Suc [0..<m]))" using first by simp
  then show ?case by (simp only: upt_rec [of 0 "Suc m"] map_Suc_upt) simp
qed

lemma foldr_max_ge: "x \<in> set xs \<Longrightarrow> x \<le> foldr max xs (0 :: nat)"
  by (induction xs) auto

lemma serving_order_round_robin: "serving_order [0..<length inbox] inbox = round_robin inbox"
  unfolding round_robin_def by (rule serving_order_rounds) (auto intro!: foldr_max_ge)

section \<open>Every message is handled\<close>

lemma to_worker_connections:
  assumes "proxy_to_worker now zmq_send i parts s = Inr s'" "message_ok i parts s"
  shows "connections s' = connections s"
proof -
  from assms(1) obtain found t where t: "command_peer i parts s = Inr (found, t)"
    by (auto simp: proxy_to_worker_def Let_def result_simps split: if_splits)
  then have "connections t = connections s" using command_peer_cases [OF t assms(2)] by auto
  moreover have "connections s' = connections t"
    using assms(1) t
    by (auto simp: proxy_to_worker_def proxy_check_auth_def record_sent_def Let_def result_simps split: if_splits option.splits prod.splits)
  ultimately show ?thesis by simp
qed

lemma builtin_connections:
  "proxy_handle_builtin zmq_send i parts s = Inr (b, s') \<Longrightarrow> pollitems_stale s' \<or> connections s' = connections s"
  unfolding proxy_handle_builtin_def Let_def
  by (auto simp: result_simps finish_request_def handle_hello_def record_sent_def proxy_close_connection_def Let_def
      split: if_splits option.splits)

lemma incoming_succeeds:
  assumes "index_inv s" "message_ok i parts s"
  shows "\<exists>s'. proxy_incoming e i parts s = Inr s' \<and> advances s s' \<and> (pollitems_stale s' \<or> connections s' = connections s)"
proof -
  have i: "i < length (connections s)" using assms(2) by (simp add: message_ok_def)
  obtain b t where t: "proxy_handle_builtin (ev_send e 0) i (map m_data parts) s = Inr (b, t)" "advances s t"
      "\<not> b \<Longrightarrow> t = s \<and> (if so_type (connections s ! i) = DEALER then 0 else 1) < length (map m_data parts)"
    using builtin_succeeds [OF assms(1) i] by blast
  show ?thesis
  proof (cases b)
    case True
    then show ?thesis using t(1,2) builtin_connections [OF t(1)] by (simp add: proxy_incoming_def)
  next
    case False
    note f = t(3) [OF False]
    then obtain s' where s': "proxy_to_worker (ev_now e) (ev_send e 0) i parts s = Inr s'" "advances s s'"
      using to_worker_succeeds [OF assms] by auto
    then show ?thesis using f False t(1) to_worker_connections [OF s'(1) assms(2)] by (simp add: proxy_incoming_def)
  qed
qed

text \<open>The messages that wait on the connections, as zmq delivers them.\<close>

definition waiting_ok :: "message_t list list list \<Rightarrow> net \<Rightarrow> bool" where
  "waiting_ok inbox s \<longleftrightarrow> length inbox = length (connections s)
     \<and> (\<forall>i<length inbox. \<forall>parts\<in>set (inbox ! i). message_ok i parts s)"

lemma recv_parts_Some:
  "recv_parts i inbox = Some (m, inbox') \<longleftrightarrow> i < length inbox \<and> inbox ! i = m # inbox' ! i \<and> inbox' = inbox[i := inbox' ! i]"
  by (auto simp: recv_parts_def split: list.splits)

lemma incoming_loop_serves:
  "net_inv s \<Longrightarrow> waiting_ok inbox s \<Longrightarrow> set q \<subseteq> {..<length inbox} \<Longrightarrow>
   \<exists>served inbox' s'. incoming_loop ev q inbox s = Inr (served, inbox', s') \<and> advances s s'
     \<and> prefix served (serving_order q inbox) \<and> (pollitems_stale s' \<or> served = serving_order q inbox)
     \<and> length inbox' = length inbox \<and> (\<forall>j<length inbox. inbox ! j = map snd (filter (\<lambda>(k, _). k = j) served) @ inbox' ! j)"
proof (induction ev q inbox s rule: incoming_loop.induct)
  case (1 ev inbox s)
  then show ?case by simp
next
  case (2 ev i q inbox s)
  have i: "i < length inbox" "i < length (connections s)" using 2(5,6) by (auto simp: waiting_ok_def)
  show ?case
  proof (cases "recv_parts i inbox")
    case None
    then show ?thesis using 2(1) [OF i(2) None] 2(4-6) i by (simp add: incoming_loop.simps(2) serving_order.simps(2))
  next
    case (Some r)
    obtain parts inbox1 where r: "r = (parts, inbox1)" by (cases r)
    note rv = Some [unfolded r recv_parts_Some]
    have ok: "message_ok i parts s" using 2(5) i rv by (auto simp: waiting_ok_def)
    then have parts: "parts \<noteq> []" by (simp add: message_ok_def)
    have "index_inv s" using 2(4) by (simp add: net_inv_def)
    from incoming_succeeds [OF this ok] obtain t where t: "proxy_incoming (ev 0) i parts s = Inr t" "advances s t"
        "pollitems_stale t \<or> connections t = connections s" by blast
    have len: "length inbox1 = length inbox" using rv by (metis length_list_update)
    have keep: "inbox ! j = (if j = i then parts # inbox1 ! j else inbox1 ! j)" if "j < length inbox" for j
      using rv that by (metis nth_list_update_neq)
    show ?thesis
    proof (cases "pollitems_stale t")
      case True
      then have "incoming_loop ev (i # q) inbox s = Inr ([(i, parts)], inbox1, t)"
        using Some r i parts t(1) by (simp add: incoming_loop.simps(2) Let_def)
      then show ?thesis using Some r t(2) True len keep by (simp add: serving_order.simps(2))
    next
      case False
      have "net_inv t" using t(2) 2(4) by (simp add: advances_def)
      moreover have "waiting_ok inbox1 t"
        using 2(5) t(3) False len keep by (auto simp: waiting_ok_def message_ok_def split: if_splits)
      moreover have "set (q @ [i]) \<subseteq> {..<length inbox1}" using 2(6) len by auto
      ultimately obtain served inbox' s' where s':
          "incoming_loop (\<lambda>k. ev (Suc k)) (q @ [i]) inbox1 t = Inr (served, inbox', s')" "advances t s'"
          "prefix served (serving_order (q @ [i]) inbox1)" "pollitems_stale s' \<or> served = serving_order (q @ [i]) inbox1"
          "length inbox' = length inbox1" "\<forall>j<length inbox1. inbox1 ! j = map snd (filter (\<lambda>(k, _). k = j) served) @ inbox' ! j"
        using 2(3) [OF i(2) Some r [symmetric] refl parts t(1) False] by blast
      have "incoming_loop ev (i # q) inbox s = Inr ((i, parts) # served, inbox', s')"
        using Some r i parts t(1) False s'(1) by (simp add: incoming_loop.simps(2) Let_def)
      then show ?thesis
        using Some r advances_trans [OF t(2) s'(2)] s'(3-6) len keep by (simp add: serving_order.simps(2))
    qed
  qed
qed

end
