(* ===== verification/Reachable.thy ===== *)
theory Reachable
  imports Proxy
begin

text \<open>
  The whole system: the states its calls of configuration produce, the start of the proxy, and
  every step that a thread of the program, a worker or the proxy can take from then on.
\<close>

section \<open>Configuration\<close>

inductive net_config :: "net \<Rightarrow> bool" where
  constructed: "ArqmaMQ sodium_init keypair scalarmult hw pubkey privkey service_node lookup = Inr s \<Longrightarrow> net_config s"
| listens_curve: "net_config s \<Longrightarrow> listen_curve addr allow s = Inr s' \<Longrightarrow> net_config s'"
| listens_plain: "net_config s \<Longrightarrow> listen_plain addr allow s = Inr s' \<Longrightarrow> net_config s'"
| category: "net_config s \<Longrightarrow> add_category name access reserved mq (n_sched s) = Inr sc \<Longrightarrow> net_config (s\<lparr>n_sched := sc\<rparr>)"
| command: "net_config s \<Longrightarrow> add_command cat name cb (n_sched s) = Inr sc \<Longrightarrow> net_config (s\<lparr>n_sched := sc\<rparr>)"
| request_command: "net_config s \<Longrightarrow> add_request_command cat name cb (n_sched s) = Inr sc \<Longrightarrow> net_config (s\<lparr>n_sched := sc\<rparr>)"
| command_alias: "net_config s \<Longrightarrow> add_command_alias from to (n_sched s) = Inr sc \<Longrightarrow> net_config (s\<lparr>n_sched := sc\<rparr>)"
| general_threads: "net_config s \<Longrightarrow> set_general_threads n (n_sched s) = Inr sc \<Longrightarrow> net_config (s\<lparr>n_sched := sc\<rparr>)"
| batch_threads: "net_config s \<Longrightarrow> set_batch_threads n (n_sched s) = Inr sc \<Longrightarrow> net_config (s\<lparr>n_sched := sc\<rparr>)"
| reply_threads: "net_config s \<Longrightarrow> set_reply_threads n (n_sched s) = Inr sc \<Longrightarrow> net_config (s\<lparr>n_sched := sc\<rparr>)"
| tagged_thread: "net_config s \<Longrightarrow> add_tagged_thread tname (n_sched s) = Inr (t, sc) \<Longrightarrow> net_config (s\<lparr>n_sched := sc\<rparr>)"
| batch: "net_config s \<Longrightarrow> batch_built b \<Longrightarrow> threads_ok (n_sched s) b \<Longrightarrow> batch_net b s = Inr s' \<Longrightarrow> net_config s'"
| timer: "net_config s \<Longrightarrow> add_timer z f interval squelch thread s = Inr (t, s') \<Longrightarrow> net_config s'"
| timer_del: "net_config s \<Longrightarrow> cancel_timer t s = Inr s' \<Longrightarrow> net_config s'"
| service_nodes: "net_config s \<Longrightarrow> set_active_sns pks s = Inr s' \<Longrightarrow> net_config s'"
| changed_nodes: "net_config s \<Longrightarrow> update_active_sns added removed s = Inr s' \<Longrightarrow> net_config s'"

text \<open>What holds before the start: nothing is connected, nothing runs.\<close>

definition unconnected :: "net \<Rightarrow> bool" where
  "unconnected s \<longleftrightarrow> connections s = [] \<and> conn_index_to_id s = [] \<and> incoming_conn_index s = [] \<and> peers s = []
     \<and> pending_connects s = [] \<and> pending_requests s = []"

definition config_ok :: "net \<Rightarrow> bool" where
  "config_ok s \<longleftrightarrow> sched_start (n_sched s) \<and> unconnected s \<and> sns_ok s \<and> \<not> proxy_joinable (n_sched s)"

lemma sched_start_categories:
  assumes "sched_start s" "distinct (map fst cs)" "\<forall>(n, c)\<in>set cs. active_threads c = 0 \<and> queued c = 0"
  shows "sched_start (s\<lparr>categories := cs\<rparr>)"
  using assms by (auto simp: sched_start_def threads_ok_def)

lemma update_start:
  assumes "sched_start s" "map_of (categories s) cat = Some c" "active_threads c' = active_threads c" "queued c' = queued c"
  shows "sched_start (s\<lparr>categories := AList.update cat c' (categories s)\<rparr>)"
proof (rule sched_start_categories [OF assms(1)])
  have "(cat, c) \<in> set (categories s)" using assms(2) by (rule map_of_SomeD)
  then have c: "active_threads c = 0" "queued c = 0" using assms(1) by (auto simp: sched_start_def)
  show "distinct (map fst (AList.update cat c' (categories s)))"
    using assms(1) by (simp add: sched_start_def distinct_update)
  have "set (AList.update cat c' cs) \<subseteq> insert (cat, c') (set cs)" for cs
    by (induction cs) auto
  then show "\<forall>(n, c)\<in>set (AList.update cat c' (categories s)). active_threads c = 0 \<and> queued c = 0"
    using assms(1,3,4) c by (fastforce simp: sched_start_def)
qed

lemma config_sched: "config_ok s \<Longrightarrow> sched_start sc \<Longrightarrow> \<not> proxy_joinable sc \<Longrightarrow> config_ok (s\<lparr>n_sched := sc\<rparr>)"
  by (simp add: config_ok_def unconnected_def sns_ok_def)

lemma mark_request_start:
  assumes "sched_start s" "mark_request cat name s = Inr s'"
  shows "sched_start s' \<and> proxy_joinable s' = proxy_joinable s"
  using assms by (auto simp: mark_request_def intro!: update_start split: option.splits)

lemma add_command_start:
  assumes "sched_start s" "add_command cat name cb s = Inr s'"
  shows "sched_start s' \<and> proxy_joinable s' = proxy_joinable s"
  using assms by (auto simp: add_command_def result_simps intro!: update_start split: option.splits if_splits)

lemma add_category_start:
  assumes "sched_start s" "add_category name access reserved mq s = Inr s'"
  shows "sched_start s' \<and> proxy_joinable s' = proxy_joinable s"
proof -
  have "map_of (categories s) name = None" "s' = s\<lparr>categories := categories s @ [(name, new_category access reserved mq)]\<rparr>"
    using assms(2) by (auto simp: add_category_def result_simps split: if_splits)
  then show ?thesis
    using assms(1) sched_start_categories [OF assms(1), of "categories s @ [(name, new_category access reserved mq)]"]
    by (auto simp: map_of_eq_None_iff sched_start_def new_category_def)
qed

lemma add_tagged_thread_start:
  assumes "sched_start s" "add_tagged_thread name s = Inr (t, s')"
  shows "sched_start s' \<and> proxy_joinable s' = proxy_joinable s"
  using assms by (auto simp: add_tagged_thread_def Let_def sched_start_def threads_ok_def emit_def split: if_splits) fastforce+

lemma new_object_start:
  assumes "sched_start s" "batch_built b" "b_jobs b \<noteq> []" "threads_ok s b"
  shows "sched_start (snd (new_object b s))"
  using assms fresh_ptr_not_in [of "batch_heap s"] batch_built_fresh [OF assms(2)]
  by (auto simp: new_object_def Let_def sched_start_def threads_ok_def batch_new_def map_of_eq_None_iff)

lemma thread_counts_start:
  "sched_start s \<Longrightarrow> 1 \<le> n \<Longrightarrow> sched_start (s\<lparr>general_workers := n\<rparr>)"
  "sched_start s \<Longrightarrow> sched_start (s\<lparr>batch_jobs_reserved := n\<rparr>)" "sched_start s \<Longrightarrow> sched_start (s\<lparr>reply_jobs_reserved := n\<rparr>)"
  by (simp_all add: sched_start_def threads_ok_def)

lemma timer_start:
  "sched_start s \<Longrightarrow> proxy_timer_add z t f interval sq th s = Inr s' \<Longrightarrow> sched_start s' \<and> proxy_joinable s' = proxy_joinable s"
  "sched_start s \<Longrightarrow> sched_start (proxy_timer_del t s) \<and> proxy_joinable (proxy_timer_del t s) = proxy_joinable s"
proof -
  have frame: "sched_start (s\<lparr>timers_created := b, timer_heap := h, timer_jobs := js, timer_zmq_id := zs\<rparr>)"
      "sched_start (s\<lparr>timer_heap := h, timer_zmq_id := zs\<rparr>)" if "sched_start s" for b h js zs
    using that by (simp_all add: sched_start_def threads_ok_def)
  show "sched_start s \<Longrightarrow> proxy_timer_add z t f interval sq th s = Inr s' \<Longrightarrow> sched_start s' \<and> proxy_joinable s' = proxy_joinable s"
    using frame(1) by (auto simp: proxy_timer_add_def Let_def split: if_splits)
  show "sched_start s \<Longrightarrow> sched_start (proxy_timer_del t s) \<and> proxy_joinable (proxy_timer_del t s) = proxy_joinable s"
    using frame(2) by (simp add: proxy_timer_del_def split: option.split)
qed

text \<open>Before the start there is no peer to drop.\<close>

lemma remove_sns_unconnected:
  "peers s = [] \<Longrightarrow> remove_active_sns pks s = Inr s' \<Longrightarrow> s' = s\<lparr>active_service_nodes := filter (\<lambda>q. q \<notin> set pks) (active_service_nodes s)\<rparr>"
proof (induction pks arbitrary: s)
  case (Cons pk pks)
  let ?t = "s\<lparr>active_service_nodes := filter (\<lambda>q. q \<noteq> pk) (active_service_nodes s)\<rparr>"
  have "remove_active_sns pks ?t = Inr s'" using Cons.prems by (auto simp: result_simps Let_def equal_range_def)
  from Cons.IH [OF _ this] Cons.prems(1) show ?case by (simp add: conj_commute)
qed simp

lemma update_clean_config:
  assumes "config_ok s" "proxy_update_active_sns_clean added removed s = Inr s'" "\<forall>pk\<in>set added. length pk = 32"
  shows "config_ok s'"
proof -
  have "peers s = []" using assms(1) by (simp add: config_ok_def unconnected_def)
  then obtain t where t: "t = s\<lparr>active_service_nodes := filter (\<lambda>q. q \<notin> set removed) (active_service_nodes s)\<rparr>" "s' = insert_active_sns added t"
    using assms(2) remove_sns_unconnected [of s removed] by (auto simp: proxy_update_active_sns_clean_def result_simps)
  have "config_ok t" using assms(1) by (auto simp: t(1) config_ok_def unconnected_def sns_ok_def)
  with assms(3) show ?thesis unfolding t(2)
  proof (induction added arbitrary: t)
    case (Cons pk pks)
    have "config_ok (t\<lparr>active_service_nodes := active_service_nodes t @ [pk]\<rparr>)" if "pk \<notin> set (active_service_nodes t)"
      using Cons.prems that by (auto simp: config_ok_def unconnected_def sns_ok_def)
    with Cons show ?case by simp
  qed simp
qed

lemma config_not_started: "config_ok s \<Longrightarrow> \<not> proxy_joinable (n_sched s)"
  by (simp add: config_ok_def)

lemma set_active_config: "config_ok s \<Longrightarrow> set_active_sns pks s = Inr s' \<Longrightarrow> config_ok s'"
  unfolding set_active_sns_def proxy_set_active_sns_def Let_def
  by (auto simp: config_not_started split: if_splits intro: update_clean_config)

lemma update_active_config: "config_ok s \<Longrightarrow> update_active_sns added removed s = Inr s' \<Longrightarrow> config_ok s'"
  unfolding update_active_sns_def proxy_update_active_sns_def Let_def
  by (auto simp: config_not_started split: if_splits intro: update_clean_config)

lemma config_control: "control_message cmd data s = Inr s' \<Longrightarrow> config_ok s' = config_ok s"
  by (auto simp: control_message_def config_ok_def unconnected_def sns_ok_def split: if_splits)

lemma config_objects: "config_ok (s\<lparr>next_timer_id := n\<rparr>) = config_ok s"
  by (simp add: config_ok_def unconnected_def sns_ok_def)

lemma batch_config:
  assumes "config_ok s" "batch_built b" "threads_ok (n_sched s) b" "batch_net b s = Inr s'"
  shows "config_ok s'"
proof -
  let ?t = "s\<lparr>n_sched := snd (new_object b (n_sched s))\<rparr>"
  have run: "b_jobs b \<noteq> []" "\<exists>data. control_message ''BATCH'' data ?t = Inr s'"
    using assms(4) by (auto simp: batch_net_def batch_size_def split_beta Let_def split: if_splits)
  have "sched_start (snd (new_object b (n_sched s)))"
    using assms(1-3) run(1) by (intro new_object_start) (simp_all add: config_ok_def)
  moreover have "\<not> proxy_joinable (snd (new_object b (n_sched s)))"
    using config_not_started [OF assms(1)] by (simp add: new_object_def Let_def)
  ultimately have "config_ok ?t" using assms(1) by (intro config_sched)
  then show ?thesis using run(2) config_control by blast
qed

lemma config_inv: "net_config s \<Longrightarrow> config_ok s"
proof (induction rule: net_config.induct)
  case (constructed sodium_init keypair scalarmult hw pubkey privkey service_node lookup s)
  then have "\<exists>pk sk. s = init_net hw pk sk service_node lookup" by (auto simp: ArqmaMQ_def split: if_splits)
  then show ?case by (auto simp: config_ok_def unconnected_def sns_ok_def init_net_def init_sched_def sched_start_def)
next
  case (listens_curve s addr allow s')
  then show ?case by (auto simp: listen_curve_def result_simps config_ok_def unconnected_def sns_ok_def)
next
  case (listens_plain s addr allow s')
  then show ?case by (auto simp: listen_plain_def result_simps config_ok_def unconnected_def sns_ok_def)
next
  case (category s name access reserved mq sc)
  then show ?case using add_category_start [of "n_sched s" name] by (intro config_sched) (auto simp: config_ok_def)
next
  case (command s cat name cb sc)
  then show ?case using add_command_start [of "n_sched s" cat] by (intro config_sched) (auto simp: config_ok_def)
next
  case (request_command s cat name cb sc)
  then obtain sc1 where sc1: "add_command cat name cb (n_sched s) = Inr sc1" "mark_request cat name sc1 = Inr sc"
    by (auto simp: add_request_command_def result_simps)
  have "sched_start sc1 \<and> proxy_joinable sc1 = proxy_joinable (n_sched s)"
    using add_command_start [OF _ sc1(1)] request_command.IH by (simp add: config_ok_def)
  then show ?case
    using mark_request_start [OF _ sc1(2)] request_command.IH by (intro config_sched) (auto simp: config_ok_def)
next
  case (command_alias s "from" to sc)
  then obtain a where "sc = (n_sched s)\<lparr>command_aliases := a\<rparr>"
    by (auto simp: add_command_alias_def result_simps Let_def split: if_splits)
  moreover have "sched_start ((n_sched s)\<lparr>command_aliases := a\<rparr>)" for a
    using command_alias.IH by (simp add: config_ok_def sched_start_def threads_ok_def)
  ultimately show ?case
    using command_alias.IH by (intro config_sched) (simp_all add: config_not_started)
next
  case (general_threads s n sc)
  then have sc: "sc = (n_sched s)\<lparr>general_workers := n\<rparr>" "1 \<le> n" by (simp_all add: set_general_threads_def split: if_splits)
  show ?case
    unfolding sc(1) using general_threads.IH sc(2) by (intro config_sched thread_counts_start) (simp_all add: config_ok_def)
next
  case (batch_threads s n sc)
  then have sc: "sc = (n_sched s)\<lparr>batch_jobs_reserved := n\<rparr>" by (simp_all add: set_batch_threads_def split: if_splits)
  show ?case
    unfolding sc using batch_threads.IH by (intro config_sched thread_counts_start) (simp_all add: config_ok_def)
next
  case (reply_threads s n sc)
  then have sc: "sc = (n_sched s)\<lparr>reply_jobs_reserved := n\<rparr>" by (simp_all add: set_reply_threads_def split: if_splits)
  show ?case
    unfolding sc using reply_threads.IH by (intro config_sched thread_counts_start) (simp_all add: config_ok_def)
next
  case (tagged_thread s tname t sc)
  then show ?case using add_tagged_thread_start [of "n_sched s" tname] by (intro config_sched) (auto simp: config_ok_def)
next
  case (batch s b s')
  then show ?case by (metis batch_config)
next
  case (timer s z f interval squelch thread t s')
  then obtain tid th sc where sc: "proxy_timer_add z tid f interval squelch th (n_sched s) = Inr sc"
      "s' = s\<lparr>next_timer_id := next_timer_id s + 1, n_sched := sc\<rparr>"
    using config_not_started [OF timer.IH] by (auto simp: add_timer_def Let_def result_simps)
  have "config_ok (s\<lparr>next_timer_id := next_timer_id s + 1\<rparr>)" using timer.IH by (simp add: config_objects)
  moreover have "sched_start sc" "\<not> proxy_joinable sc" using timer_start(1) [OF _ sc(1)] timer.IH by (auto simp: config_ok_def)
  ultimately have "config_ok ((s\<lparr>next_timer_id := next_timer_id s + 1\<rparr>)\<lparr>n_sched := sc\<rparr>)" by (rule config_sched)
  then show ?case using sc(2) by simp
next
  case (timer_del s t s')
  have start: "sched_start (n_sched s)" "\<not> proxy_joinable (n_sched s)" using timer_del.IH by (simp_all add: config_ok_def)
  then have "s' = s\<lparr>n_sched := proxy_timer_del t (n_sched s)\<rparr>" using timer_del.hyps(2) by (simp add: cancel_timer_def)
  moreover have "config_ok (s\<lparr>n_sched := proxy_timer_del t (n_sched s)\<rparr>)"
    using timer_start(2) [OF start(1), of t] timer_del.IH start(2) by (intro config_sched) simp_all
  ultimately show ?case by simp
next
  case (service_nodes s pks s')
  then show ?case by (metis set_active_config)
next
  case (changed_nodes s added removed s')
  then show ?case by (metis update_active_config)
qed

section \<open>The start\<close>

lemma worker_starts:
  "\<exists>es. fold (\<lambda>(run, _, _). emit (Send_worker (worker_routing_id run) ''START'')) ts sc = sc\<lparr>worker_events := es\<rparr>"
proof (induction ts arbitrary: sc)
  case Nil
  then show ?case by (intro exI [of _ "worker_events sc"]) simp
next
  case (Cons t ts)
  obtain run busy q where "t = (run, busy, q)" by (cases t)
  then show ?case using Cons.IH [of "emit (Send_worker (worker_routing_id run) ''START'') sc"] by (simp add: emit_def)
qed

lemma reserve_frame:
  assumes "proxy_reserve_workers sc = Inr sc'"
  shows "proxy_reserve_workers (sc\<lparr>timers_created := b, worker_events := es\<rparr>) = Inr (sc'\<lparr>timers_created := b, worker_events := es\<rparr>)"
proof (cases "batch_jobs_reserved sc < 0"; cases "reply_jobs_reserved sc < 0")
qed (use assms in \<open>auto simp: proxy_reserve_workers_def Let_def split: if_splits\<close>)

lemma start_inv_net:
  assumes "config_ok s0" "start zmq_bind chown recv s0 = Inr s"
  shows "net_inv s \<and> sched_reachable (n_sched s)"
proof -
  let ?sc0 = "(n_sched s0)\<lparr>proxy_joinable := True\<rparr>"
  let ?s0 = "s0\<lparr>n_sched := ?sc0\<rparr>"
  let ?starts = "\<lambda>sc. fold (\<lambda>(run, _, _). emit (Send_worker (worker_routing_id run) ''START'')) (tagged_workers sc) sc"
  from assms(2) obtain sc t where first: "proxy_reserve_workers ?sc0 = Inr sc"
      "bind_listeners zmq_bind (length (bind_sockets s0)) 0 (?s0\<lparr>n_sched := sc\<rparr>) = Inr t"
      "s = t\<lparr>n_sched := ?starts ((n_sched t)\<lparr>timers_created := True\<rparr>), pollitems_stale := True\<rparr>"
    unfolding start_def proxy_begin_def Let_def by (auto elim!: bind_InrE split: if_splits option.splits)
  obtain es where "?starts ((n_sched t)\<lparr>timers_created := True\<rparr>) = (n_sched t)\<lparr>timers_created := True, worker_events := es\<rparr>"
    using worker_starts [of "tagged_workers ((n_sched t)\<lparr>timers_created := True\<rparr>)" "(n_sched t)\<lparr>timers_created := True\<rparr>"] by blast
  then have run: "proxy_reserve_workers ?sc0 = Inr sc"
      "bind_listeners zmq_bind (length (bind_sockets s0)) 0 (?s0\<lparr>n_sched := sc\<rparr>) = Inr t"
      "s = t\<lparr>n_sched := (n_sched t)\<lparr>timers_created := True, worker_events := es\<rparr>, pollitems_stale := True\<rparr>"
    using first by simp_all
  have un: "unconnected s0" "sns_ok s0" using assms(1) by (simp_all add: config_ok_def)
  have t: "index_inv t \<and> length (connections t) = length (bind_sockets t) \<and> n_sched t = sc \<and> peers t = [] \<and> pending_connects t = []
      \<and> pending_requests t = pending_requests s0 \<and> active_service_nodes t = active_service_nodes s0 \<and> proxy_shutting_down t = proxy_shutting_down s0"
    using bind_listeners_index [OF run(2)] un(1) by (simp add: unconnected_def)
  then have "index_inv s" "sns_ok s" "requests_ok s" "sn_peers_ok s"
    using un by (simp_all add: run(3) index_inv_def out_indices_def sns_ok_def requests_ok_def sn_peers_ok_def unconnected_def)
  moreover have "sched_reachable (n_sched s)"
  proof (rule sched_reachable.start)
    let ?sc1 = "?sc0\<lparr>timers_created := True, worker_events := es\<rparr>"
    show "sched_start ?sc1" using assms(1) by (simp add: config_ok_def sched_start_def threads_ok_def)
    show "proxy_reserve_workers ?sc1 = Inr (n_sched s)"
      using run(1) t unfolding run(3) by (simp add: reserve_frame)
  qed
  ultimately show ?thesis by (simp add: net_inv_def)
qed

section \<open>Calls of other threads\<close>

lemma apply_send_option_advances: "advances (snd (snd x)) (snd (snd (apply_send_option opt x)))"
proof (induction opt x rule: apply_send_option.induct)
  case (2 opt parts d s)
  then show ?case by (cases opt) simp_all
qed (simp_all add: put_object_def serialize_object_def Let_def)

lemma build_send_advances: "build_send to cmd opts s = (d, s') \<Longrightarrow> advances s s'"
proof -
  have "advances (snd (snd x)) (snd (snd (fold apply_send_option opts x)))" for x
  proof (induction opts arbitrary: x)
    case (Cons opt opts)
    have "advances (snd (snd x)) (snd (snd (apply_send_option opt x)))"
      by (rule apply_send_option_advances)
    then show ?case using Cons.IH [of "apply_send_option opt x"] advances_trans by simp
  qed simp
  from this [of "([BtStringView cmd], [], s)"] show "build_send to cmd opts s = (d, s') \<Longrightarrow> advances s s'"
    by (auto simp: build_send_def split_beta Let_def)
qed

lemma control_advances: "control_message cmd data s = Inr s' \<Longrightarrow> advances s s'"
  by (auto simp: control_message_def split: if_splits)

lemma put_object_advances: "advances s (snd (put_object k x (d, s)))"
  by (simp add: put_object_def serialize_object_def Let_def)

lemma send_advances: "send to cmd opts s = Inr s' \<Longrightarrow> advances s s'"
  using advances_trans [OF build_send_advances control_advances] by (auto simp: send_def split: prod.splits)

lemma request_advances:
  assumes "request tag to cmd callback opts s = Inr s'"
  shows "advances s s'"
proof -
  obtain d t where t: "build_send to cmd (SendPart tag # opts) s = (d, t)" by (cases "build_send to cmd (SendPart tag # opts) s")
  let ?u = "snd (put_object ''request_callback'' (ReplyCallbackObj callback) (dict_put ''request'' (bt_bool True) d, t))"
  obtain data where "control_message ''SEND'' data ?u = Inr s'" using assms t by (auto simp: request_def split_beta Let_def)
  then show ?thesis using build_send_advances [OF t] put_object_advances control_advances advances_trans by meson
qed

text \<open>
  A call of a thread that does not throw. The threads of the jobs in a batch are those
  \<open>add_tagged_thread\<close> returned.
\<close>

inductive client_call :: "net \<Rightarrow> net \<Rightarrow> bool" where
  send: "send to cmd opts s = Inr s' \<Longrightarrow> client_call s s'"
| request: "request tag to cmd callback opts s = Inr s' \<Longrightarrow> client_call s s'"
| connect_remote: "connect_remote addr on_connect on_failure copts s = Inr (conn, s') \<Longrightarrow> client_call s s'"
| connect_sn: "connect_sn pubkey copts s = Inr (r, s') \<Longrightarrow> client_call s s'"
| disconnect: "disconnect conn linger s = Inr s' \<Longrightarrow> client_call s s'"
| set_active_sns: "set_active_sns pks s = Inr s' \<Longrightarrow> client_call s s'"
| update_active_sns: "update_active_sns added removed s = Inr s' \<Longrightarrow> client_call s s'"
| add_timer: "add_timer z f interval squelch thread s = Inr (t, s') \<Longrightarrow> client_call s s'"
| cancel_timer: "cancel_timer t s = Inr s' \<Longrightarrow> client_call s s'"
| inject_task: "inject_task cat command remote callback s = Inr s' \<Longrightarrow> client_call s s'"
| batch: "batch_built b \<Longrightarrow> threads_ok (n_sched s) b \<Longrightarrow> batch_net b s = Inr s' \<Longrightarrow> client_call s s'"
| job: "(case thread of None \<Rightarrow> True | Some t \<Rightarrow> t \<le> int (length (tagged_workers (n_sched s)))) \<Longrightarrow> job_net f thread s = Inr s'
    \<Longrightarrow> client_call s s'"

lemma new_object_advances:
  assumes "batch_built b" "b_jobs b \<noteq> []" "threads_ok (n_sched s) b"
    "control_message cmd data (s\<lparr>n_sched := snd (new_object b (n_sched s))\<rparr>) = Inr s'"
  shows "advances s s'"
  using advances_trans [OF advances_sched [OF sched_step.new [OF assms(1-3)]] control_advances [OF assms(4)]] .

lemma connect_remote_advances:
  assumes "connect_remote addr on_connect on_failure copts s = Inr (conn, s')"
  shows "advances s s'"
proof -
  let ?t = "s\<lparr>next_conn_id := next_conn_id s + 1\<rparr>"
  obtain d u v data where u: "u = snd (put_object ''connect'' (ConnectSuccessObj on_connect) (d, ?t))"
      "v = snd (put_object ''failure'' (ConnectFailureObj on_failure) (fst (put_object ''connect'' (ConnectSuccessObj on_connect) (d, ?t)), u))"
      "control_message ''CONNECT_REMOTE'' data v = Inr s'"
    using assms by (auto simp: connect_remote_def split_beta Let_def elim!: bind_InrE)
  have "advances s ?t" by simp
  also have "advances ?t u" unfolding u(1) by (rule put_object_advances)
  also have "advances u v" unfolding u(2) by (rule put_object_advances)
  also have "advances v s'" using u(3) by (rule control_advances)
  finally show ?thesis .
qed

lemma serialize_advances: "serialize_object x s = (p, s') \<Longrightarrow> advances s s'"
  by (auto simp: serialize_object_def Let_def)

lemma add_timer_advances:
  assumes "add_timer z f interval squelch thread s = Inr (t, s')"
  shows "advances s s'"
proof -
  let ?t = "s\<lparr>next_timer_id := next_timer_id s + 1\<rparr>"
  have "advances ?t s'"
  proof (cases "proxy_joinable (n_sched s)")
    case True
    then obtain data where "control_message ''TIMER'' data (snd (serialize_object (FunctionObj f) ?t)) = Inr s'"
      using assms by (auto simp: add_timer_def Let_def split_beta elim!: bind_InrE)
    then show ?thesis
      using advances_trans [OF serialize_advances control_advances] by (metis prod.collapse)
  next
    case False
    then obtain tid th sc where sc: "proxy_timer_add z tid f interval squelch th (n_sched ?t) = Inr sc" "s' = ?t\<lparr>n_sched := sc\<rparr>"
      using assms by (auto simp: add_timer_def Let_def elim!: bind_InrE)
    show ?thesis unfolding sc(2) using sched_step.timer_add [OF sc(1)] by (rule advances_sched)
  qed
  then show ?thesis using advances_trans [of s ?t s'] by simp
qed

lemma client_advances: "client_call s s' \<Longrightarrow> advances s s'"
proof (induction rule: client_call.induct)
  case (connect_sn pubkey copts s r s')
  then show ?case by (auto simp: connect_sn_def Let_def intro: control_advances elim!: bind_InrE)
next
  case (set_active_sns pks s s')
  then show ?case
    by (auto simp: set_active_sns_def split: if_splits prod.splits
        intro: advances_set_active_sns advances_trans [OF serialize_advances control_advances])
next
  case (update_active_sns added removed s s')
  show ?case
  proof (cases "proxy_joinable (n_sched s)")
    case True
    obtain p t where t: "serialize_object (PubkeySetObj added) s = (p, t)" by (cases "serialize_object (PubkeySetObj added) s")
    obtain q u where u: "serialize_object (PubkeySetObj removed) t = (q, u)" by (cases "serialize_object (PubkeySetObj removed) t")
    have "control_message ''UPDATE_SNS'' (bt_serialize_list bt_serialize_int [int p, int q]) u = Inr s'"
      using update_active_sns True t u by (simp add: update_active_sns_def)
    then have "advances u s'" by (rule control_advances)
    then show ?thesis by (rule advances_trans [OF advances_trans [OF serialize_advances [OF t] serialize_advances [OF u]]])
  qed (use update_active_sns in \<open>simp add: update_active_sns_def advances_update_active_sns\<close>)
next
  case (cancel_timer t s s')
  then show ?case by (auto simp: cancel_timer_def intro: control_advances advances_timer_del split: if_splits)
next
  case (inject_task cat command remote callback s s')
  then show ?case
    by (auto simp: inject_task_def split: if_splits prod.splits intro: advances_trans [OF serialize_advances control_advances])
next
  case (batch b s s')
  then have "b_jobs b \<noteq> []" "\<exists>data. control_message ''BATCH'' data (s\<lparr>n_sched := snd (new_object b (n_sched s))\<rparr>) = Inr s'"
    by (auto simp: batch_net_def batch_size_def split_beta Let_def split: if_splits)
  then show ?case using batch(1,2) new_object_advances by blast
next
  case (job thread s f s')
  then obtain b data where b: "add_job f thread new_batch = Inr b"
      "control_message ''BATCH'' data (s\<lparr>n_sched := snd (new_object b (n_sched s))\<rparr>) = Inr s'"
    by (auto simp: job_net_def job_def split_beta elim!: bind_InrE split: if_splits)
  have "batch_built b" using batch_built.job [OF batch_built.empty b(1)] .
  moreover have "b_jobs b \<noteq> []" "threads_ok (n_sched s) b"
    using b(1) job(1) by (auto simp: add_job_def add_job_on_def new_batch_def threads_ok_def Let_def elim!: bind_InrE split: if_splits option.splits)
  ultimately show ?case using b(2) by (rule new_object_advances)
qed (auto intro: send_advances request_advances connect_remote_advances add_timer_advances control_advances simp: disconnect_def)

section \<open>The running system\<close>

text \<open>
  A step of a thread, of the scheduler and its workers, or of a handler of the proxy. zmq
  delivers whole messages whose routing id is not empty, and the control messages are those of
  the library; the end of the proxy is not among the steps.
\<close>

inductive net_step :: "net \<Rightarrow> net \<Rightarrow> bool" where
  call: "client_call s s' \<Longrightarrow> net_step s s'"
| scheduling: "sched_step (n_sched s) sc \<Longrightarrow> net_step s (s\<lparr>n_sched := sc\<rparr>)"
| control: "control_queue s = m # ms \<Longrightarrow> control_ok (route # m) s
    \<Longrightarrow> proxy_control_message e (route # m) (s\<lparr>control_queue := ms\<rparr>) = Inr s' \<Longrightarrow> net_step s s'"
| incoming: "message_ok i parts s \<Longrightarrow> proxy_incoming e i parts s = Inr s' \<Longrightarrow> net_step s s'"
| cleanup: "proxy_conn_cleanup now s = Inr s' \<Longrightarrow> net_step s s'"
| polled: "net_step s (snd (rebuild_pollitems s))"

inductive net_reachable :: "net \<Rightarrow> bool" where
  started: "net_config s0 \<Longrightarrow> start zmq_bind chown recv s0 = Inr s \<Longrightarrow> net_reachable s"
| stepped: "net_reachable s \<Longrightarrow> net_step s s' \<Longrightarrow> net_reachable s'"

lemma step_advances:
  assumes "net_step s s'" "net_inv s"
  shows "advances s s'"
  using assms
proof (induction rule: net_step.induct)
  case (control s m ms route e s')
  let ?t = "s\<lparr>control_queue := ms\<rparr>"
  have "control_ok (route # m) ?t" using control(2) by (auto simp: control_ok_def deserialize_object_def Let_def split: option.splits)
  then have "advances ?t s'" using control(3) by (rule advances_control [rotated])
  then show ?case using advances_trans [of s ?t s'] by simp
next
  case (incoming i parts s e s')
  then show ?case using incoming_succeeds [of s i parts e] by (auto simp: net_inv_def)
next
  case (polled s)
  then show ?case by (simp add: rebuild_pollitems_def advances_def)
qed (auto intro: client_advances advances_sched advances_cleanup)

lemma reachable_net_inv: "net_reachable s \<Longrightarrow> net_inv s \<and> sched_reachable (n_sched s)"
proof (induction rule: net_reachable.induct)
  case (started s0 zmq_bind chown recv s)
  then show ?case using start_inv_net config_inv by blast
next
  case (stepped s s')
  then have a: "advances s s'" using step_advances by blast
  have "sched_reachable sc'" if "sched_step\<^sup>*\<^sup>* (n_sched s) sc'" for sc'
    using that by induction (use stepped.IH in \<open>auto intro: sched_reachable.step\<close>)
  with a stepped.IH show ?case by (simp add: advances_def)
qed

section \<open>A small system\<close>

text \<open>Two plain listeners and one command.\<close>

definition sample_config :: net where
  "sample_config = (init_net 2 (replicate 32 CHR ''p'') (replicate 32 CHR ''s'') False (\<lambda>_. []))
     \<lparr>n_sched := (init_sched 2)\<lparr>categories := [(''a'', (new_category default_Access 1 0)\<lparr>cat_commands := [(''c'', 7, False)]\<rparr>)]\<rparr>,
      bind_sockets := [(''tcp://x:1'', new_bind_data False (\<lambda>_ _ _. AuthLevel_none)), (''tcp://x:2'', new_bind_data False (\<lambda>_ _ _. AuthLevel_none))]\<rparr>"

definition sample_running :: net where
  "sample_running = snd (rebuild_pollitems (projr (start (\<lambda>_. True) (\<lambda>_. True) [] sample_config)))"

lemma sample_config_made: "net_config sample_config"
proof -
  let ?s0 = "init_net 2 (replicate 32 CHR ''p'') (replicate 32 CHR ''s'') False (\<lambda>_. [])"
  let ?s1 = "?s0\<lparr>n_sched := (init_sched 2)\<lparr>categories := [(''a'', new_category default_Access 1 0)]\<rparr>\<rparr>"
  let ?s2 = "?s0\<lparr>n_sched := (init_sched 2)\<lparr>categories := [(''a'', (new_category default_Access 1 0)\<lparr>cat_commands := [(''c'', 7, False)]\<rparr>)]\<rparr>\<rparr>"
  have "ArqmaMQ True (replicate 32 CHR ''p'', replicate 32 CHR ''s'') (\<lambda>_. []) 2 [] [] False (\<lambda>_. []) = Inr ?s0"
    by (simp add: ArqmaMQ_def)
  then have "net_config ?s0" by (rule net_config.constructed)
  moreover have "add_category ''a'' default_Access 1 0 (n_sched ?s0) = Inr (n_sched ?s1)"
    by (simp add: add_category_def check_not_started_def init_net_def init_sched_def MAX_CATEGORY_LENGTH_def find_char_def)
  ultimately have "net_config (?s0\<lparr>n_sched := n_sched ?s1\<rparr>)" by (rule net_config.category)
  moreover have "add_command ''a'' ''c'' 7 (n_sched ?s1) = Inr (n_sched ?s2)"
    by (simp add: add_command_def check_not_started_def init_sched_def MAX_COMMAND_LENGTH_def new_category_def)
  ultimately have "net_config (?s0\<lparr>n_sched := n_sched ?s1\<rparr>\<lparr>n_sched := n_sched ?s2\<rparr>)" using net_config.command by fastforce
  then have "net_config ?s2" by simp
  moreover have listen: "listen_plain addr allow s = Inr (s\<lparr>bind_sockets := bind_sockets s @ [(addr, new_bind_data False allow)]\<rparr>)"
    if "\<not> proxy_joinable (n_sched s)" for addr allow s
    using that by (simp add: listen_plain_def check_not_started_def)
  ultimately have "net_config (?s2\<lparr>bind_sockets := bind_sockets ?s2 @ [(''tcp://x:1'', new_bind_data False (\<lambda>_ _ _. AuthLevel_none))]\<rparr>)"
    by (intro net_config.listens_plain [OF _ listen]) (simp_all add: init_sched_def)
  from net_config.listens_plain [OF this listen, of "''tcp://x:2''" "\<lambda>_ _ _. AuthLevel_none"] show ?thesis
    by (simp add: sample_config_def init_net_def init_sched_def)
qed

lemma sample_started:
  "\<exists>s. start (\<lambda>_. True) (\<lambda>_. True) [] sample_config = Inr s \<and> map so_type (connections s) = [ROUTER, ROUTER]"
  by (simp add: start_def proxy_begin_def proxy_reserve_workers_def sample_config_def init_net_def init_sched_def default_settings_def Let_def
      numeral_2_eq_2)

lemma sample_running_reachable: "net_reachable sample_running" "map so_type (connections sample_running) = [ROUTER, ROUTER]"
proof -
  from sample_started obtain s where "start (\<lambda>_. True) (\<lambda>_. True) [] sample_config = Inr s \<and> map so_type (connections s) = [ROUTER, ROUTER]"
    by (rule exE)
  note s = conjunct1 [OF this] conjunct2 [OF this]
  have "net_reachable s" using sample_config_made s(1) by (rule net_reachable.started)
  then have "net_reachable (snd (rebuild_pollitems s))" using net_step.polled by (rule net_reachable.stepped)
  moreover have "snd (rebuild_pollitems s) = sample_running" by (simp add: sample_running_def s(1))
  ultimately show "net_reachable sample_running" by (simp only:)
  have "connections sample_running = connections s" by (simp add: sample_running_def rebuild_pollitems_def s(1))
  then show "map so_type (connections sample_running) = [ROUTER, ROUTER]" using s(2) by (simp only:)
qed

section \<open>Properties of the running system\<close>

text \<open>
  C3: the invariants of all components hold together in every state of the running system,
  whatever the program has configured, the threads call, the workers do and the network
  delivers, in any order. Stored indices name sockets of the right kind, service nodes and
  pending requests are unique, peers under the key of a node are that node's; the number of
  workers, the life of batches and the counters of queues are as the scheduler promises.
\<close>

theorem system_invariant:
  assumes "net_reachable s"
  shows "index_inv s \<and> sns_ok s \<and> requests_ok s \<and> sn_peers_ok s \<and> sched_inv (n_sched s) \<and> queue_inv (n_sched s)"
  using reachable_net_inv [OF assms] reachable_inv [of "n_sched s"] by (simp add: net_inv_def)

theorem system_invariant_witness:
  "index_inv sample_running \<and> sns_ok sample_running \<and> requests_ok sample_running \<and> sn_peers_ok sample_running
    \<and> sched_inv (n_sched sample_running) \<and> queue_inv (n_sched sample_running)"
  using system_invariant [OF sample_running_reachable(1)] .

text \<open>
  C7: in every state of the running system the proxy handles what the network delivers. The
  loop over the connections returns, no message makes it throw or run into undefined
  behaviour, and it serves the connections in rounds, one message of each at a time and those
  of one connection in order. Unless a handler has changed the set of connections, in which
  case the rest waits for the next round of the proxy, all messages are handled. None is lost.
\<close>

theorem incoming_round_robin:
  assumes "net_reachable s" "waiting_ok inbox s"
  shows "\<exists>served inbox' s'. incoming_loop ev [0..<length (connections s)] inbox s = Inr (served, inbox', s')
    \<and> net_inv s' \<and> prefix served (round_robin inbox) \<and> (pollitems_stale s' \<or> served = round_robin inbox)
    \<and> (\<forall>j<length inbox. inbox ! j = map snd (filter (\<lambda>(k, _). k = j) served) @ inbox' ! j)"
proof -
  have len: "length (connections s) = length inbox" using assms(2) by (simp add: waiting_ok_def)
  have inv: "net_inv s" using reachable_net_inv [OF assms(1)] by simp
  have "set [0..<length inbox] \<subseteq> {..<length inbox}" by auto
  from incoming_loop_serves [OF inv assms(2) this, of ev] obtain served inbox' s' where "incoming_loop ev [0..<length inbox] inbox s = Inr (served, inbox', s')" "advances s s'"
      "prefix served (round_robin inbox)" "pollitems_stale s' \<or> served = round_robin inbox"
      "\<forall>j<length inbox. inbox ! j = map snd (filter (\<lambda>(k, _). k = j) served) @ inbox' ! j"
    unfolding serving_order_round_robin by blast
  moreover from this(2) inv have "net_inv s'" by (simp add: advances_def)
  ultimately show ?thesis unfolding len by blast
qed

theorem incoming_round_robin_witness:
  "\<exists>served inbox' s'. incoming_loop (\<lambda>_. \<lparr>ev_now = 0, ev_connect = (\<lambda>_. None), ev_send = (\<lambda>_ _ _ _. Sent), ev_timer_id = 1, ev_fuel = 9\<rparr>)
       [0..<length (connections sample_running)]
       [[[sample_message\<lparr>m_data := ''r''\<rparr>, sample_message\<lparr>m_data := ''HI''\<rparr>], [sample_message\<lparr>m_data := ''r''\<rparr>]], [[sample_message\<lparr>m_data := ''q''\<rparr>, sample_message]]]
       sample_running = Inr (served, inbox', s')
    \<and> (pollitems_stale s' \<or> map (\<lambda>(i, parts). (i, length parts)) served = [(0, 2), (1, 2), (0, 1)])"
proof -
  let ?inbox = "[[[sample_message\<lparr>m_data := ''r''\<rparr>, sample_message\<lparr>m_data := ''HI''\<rparr>], [sample_message\<lparr>m_data := ''r''\<rparr>]], [[sample_message\<lparr>m_data := ''q''\<rparr>, sample_message]]]"
  have two: "length (connections sample_running) = 2" using arg_cong [OF sample_running_reachable(2), of length] by simp
  then have "waiting_ok ?inbox sample_running"
    by (auto simp: waiting_ok_def message_ok_def less_Suc_eq)
  moreover have "map (\<lambda>(i, parts). (i, length parts)) (round_robin ?inbox) = [(0, 2), (1, 2), (0, 1)]"
    by (simp add: round_robin_def serving_round_def upt_rec numeral_2_eq_2)
  ultimately show ?thesis
    using incoming_round_robin [OF sample_running_reachable(1)] by metis
qed

end
