(* ===== verification/Send_Loop.thy ===== *)
theory Send_Loop
  imports Net_Invariant
begin

text \<open>
  Whether the loop of \<open>proxy_send\<close> ends (\<^verbatim>\<open>src/arqmamq/proxy.cpp\<close>). It tries again with
  another connection when one to a service node is gone. It ends when any connection to the
  node may be used; when only incoming or only outgoing ones may, it can run forever.
\<close>

section \<open>It ends\<close>

lemma find_change_first:
  "(\<And>x. P (f x) = P x) \<Longrightarrow> (\<And>x. g (f x) = g x) \<Longrightarrow> map_option g (find P (change_first Q f xs)) = map_option g (find P xs)"
  by (induction xs) auto

lemma length_erase_first: "find P xs = Some x \<Longrightarrow> length (erase_first P xs) < length xs"
  by (induction xs) (auto split: if_splits)

lemma length_change_first [simp]: "length (change_first P f xs) = length xs"
  by (induction xs) auto

lemma find_change_first_same: "(\<And>x. P (f x) = P x) \<Longrightarrow> find P (change_first P f xs) = map_option f (find P xs)"
  by (induction xs) auto

text \<open>A target with a route is the first peer of the node, when no kind of connection is excluded.\<close>

lemma reuse_peer_route [simp]: "p_route (reuse_peer now keep_alive p) = p_route p"
  by (simp add: reuse_peer_def p_activity_def)

lemma usable_any: "usable_peer c False False = (\<lambda>kp. cid_eq (fst kp) c)"
  by (simp add: usable_peer_def fun_eq_iff)

lemma sn_target:
  assumes "cid_sn conn" "length (cid_pk conn) = 32" "\<not> sa_incoming a" "\<not> sa_outgoing a" "index_inv s"
  obtains t where "send_target now zmq_connect a conn s = Inr (None, t)"
    | i t where "send_target now zmq_connect a conn s = Inr (Some (i, []), t)"
    | i kp t where "send_target now zmq_connect a conn s = Inr (Some (i, p_route (snd kp)), t)"
      "find (\<lambda>kp. cid_eq (fst kp) (sn_cid (cid_pk conn))) (peers t) = Some kp" "length (peers t) = length (peers s)"
proof -
  let ?P = "\<lambda>kp. cid_eq (fst kp) (sn_cid (cid_pk conn))" and ?f = "\<lambda>kp. (fst kp, reuse_peer now (sa_keep_alive a) (snd kp))"
  let ?addr = "if sa_hint a = [] then sn_lookup s (cid_pk conn) else sa_hint a"
  have cid: "conn_of_pubkey (cid_pk conn) = Inr (sn_cid (cid_pk conn))" using assms(2) by (simp add: conn_of_pubkey_def)
  note run = send_target_def proxy_connect_sn_def cid assms(1,3,4) usable_any
  show thesis
  proof (cases "find ?P (peers s)")
    case (Some kp)
    let ?t = "s\<lparr>peers := change_first ?P ?f (peers s)\<rparr>"
    have "kp \<in> set (peers s)" using Some by (auto simp: find_Some_iff)
    then have "peer_index kp < length (connections s)" by (rule peer_in_range [OF assms(5)])
    then have "send_target now zmq_connect a conn s = Inr (Some (peer_index kp, p_route (snd kp)), ?t)" using Some by (simp add: run)
    moreover have "find ?P (change_first ?P ?f (peers s)) = Some (?f kp)" using find_change_first_same [of ?P ?f] Some by simp
    ultimately show thesis using that(3) [of "peer_index kp" "?f kp" ?t] by simp
  next
    case None
    consider "sa_optional a" | "\<not> sa_optional a" "?addr = []" | y where "\<not> sa_optional a" "?addr \<noteq> []" "zmq_connect ?addr = Some y"
      | "\<not> sa_optional a" "?addr \<noteq> []" "zmq_connect ?addr = None" by blast
    then have "send_target now zmq_connect a conn s = Inr (None, s)
        \<or> (\<exists>t. send_target now zmq_connect a conn s = Inr (Some (length (connections s), []), t))"
      by cases (simp_all add: run None Let_def split del: if_split)
    then show thesis using that(1,2) by blast
  qed
qed

lemma sn_cid_eq: "cid_sn conn \<Longrightarrow> cid_eq c (sn_cid (cid_pk conn)) = cid_eq c conn"
  by (auto simp: cid_eq_def cid_sn_def)

lemma send_target_keeps: "send_target now zmq_connect a conn s = Inr (r, t) \<Longrightarrow> index_inv s \<Longrightarrow> cid_sn conn \<Longrightarrow> index_inv t"
proof -
  assume run: "send_target now zmq_connect a conn s = Inr (r, t)" and inv: "index_inv s" and sn: "cid_sn conn"
  then obtain sock where c: "proxy_connect_sn now zmq_connect (cid_pk conn) (sa_hint a) (sa_optional a) (sa_incoming a)
      (sa_outgoing a) (EPHEMERAL_ROUTING_ID (n_settings s)) (sa_keep_alive a) s = Inr (sock, t)"
    by (auto simp: send_target_def elim!: bind_InrE)
  then have "length (cid_pk conn) = 32" by (auto simp: proxy_connect_sn_def conn_of_pubkey_def split: if_splits)
  then show "index_inv t" using index_inv_connect_sn [OF inv] c by (metis sum.inject(2) prod.inject)
qed

lemma plain_target:
  assumes "\<not> cid_sn conn" "index_inv s"
  shows "\<exists>r. send_target now zmq_connect a conn s = Inr (r, s)"
proof -
  have "snd ci < length (connections s)" if "ci \<in> set (incoming_conn_index s)" for ci
    using assms(2) that by (auto simp: index_inv_def names_def)
  then have "i < length (connections s)" if "find_key c (incoming_conn_index s) = Some i" for i c
    using that by (auto simp: find_key_def find_Some_iff) (metis nth_mem snd_conv)
  moreover have "p_conn_index p < length (connections s)" if "find_key c (peers s) = Some p" for p c
    using that peer_in_range [OF assms(2)] by (auto simp: find_key_def find_Some_iff) (metis nth_mem snd_conv)
  ultimately show ?thesis using assms(1) by (auto simp: send_target_def Let_def split: option.split)
qed

text \<open>One round: either it is the last, or a peer of the node has been forgotten.\<close>

lemma send_loop_ends:
  assumes "\<not> sa_incoming a" "\<not> sa_outgoing a" "\<forall>route. \<exists>parts. build_send_parts (sa_send a) route = Inr parts"
  shows "index_inv s \<Longrightarrow> cid_sn conn \<longrightarrow> length (cid_pk conn) = 32 \<Longrightarrow> length (peers s) + 2 \<le> n
    \<Longrightarrow> \<exists>r s'. send_loop n now zmq_connect zmq_send a conn s = Inr (r, s')"
proof (induction n arbitrary: zmq_send conn s)
  case (Suc n)
  then obtain m where n: "n = Suc m" by (cases n) auto
  have last: ?case if "send_target now zmq_connect a conn s = Inr (Some (i, route), t)"
      "\<And>e. \<exists>u. (if e = EHOSTUNREACH \<and> route \<noteq> [] then forget_unreachable n (conn\<lparr>cid_route := route\<rparr>) t else Inr (False, t)) = Inr (False, u)" for i route t
  proof -
    obtain parts where "build_send_parts (sa_send a) route = Inr parts" using assms(3) by blast
    note run = this that(1) and goes_on = that(2)
    show ?thesis
    proof (cases "send_message_parts (zmq_send 0) parts")
      case (Send_error e)
      obtain u where "(if e = EHOSTUNREACH \<and> route \<noteq> [] then forget_unreachable n (conn\<lparr>cid_route := route\<rparr>) t else Inr (False, t)) = Inr (False, u)"
        using goes_on by blast
      then show ?thesis using run Send_error by (simp add: Let_def) blast
    qed (use run in \<open>auto simp: Let_def\<close>)
  qed
  show ?case
  proof (cases "cid_sn conn")
    case False
    from plain_target [OF False Suc.prems(1)] obtain r where r: "send_target now zmq_connect a conn s = Inr (r, s)" by blast
    show ?thesis
    proof (cases r)
      case (Some ir)
      then obtain i route where ir: "r = Some (i, route)" by (cases ir) auto
      show ?thesis by (rule last [of i route s]) (use r ir False in \<open>auto simp: forget_unreachable_def cid_sn_def\<close>)
    qed (use r in auto)
  next
    case True
    with Suc.prems(2) have len: "length (cid_pk conn) = 32" by simp
    from sn_target [OF True len assms(1,2) Suc.prems(1), of now zmq_connect] show ?thesis
    proof cases
      case (2 i t)
      show ?thesis by (rule last [OF 2]) simp
    next
      case (3 i kp t)
      let ?route = "p_route (snd kp)" let ?conn = "conn\<lparr>cid_route := ?route\<rparr>"
      let ?t = "t\<lparr>peers := erase_first (\<lambda>kp. cid_eq (fst kp) ?conn) (peers t)\<rparr>"
      have eq: "cid_eq c (sn_cid (cid_pk conn)) = cid_eq c ?conn" for c using True by (auto simp: cid_eq_def cid_sn_def)
      note first = 3(2) [unfolded eq]
      have forget: "forget_unreachable n ?conn t = Inr (True, ?t)"
        using first True by (simp add: n forget_unreachable_def find_key_def cid_sn_def)
      obtain parts where parts: "build_send_parts (sa_send a) ?route = Inr parts" using assms(3) by blast
      show ?thesis
      proof (cases "\<exists>e. send_message_parts (zmq_send 0) parts = Send_error e \<and> e = EHOSTUNREACH \<and> ?route \<noteq> []")
        case False
        then show ?thesis using 3(1) parts by (cases "send_message_parts (zmq_send 0) parts") (auto simp: Let_def)
      next
        case again: True
        have "index_inv ?t" using send_target_keeps [OF 3(1) Suc.prems(1) True] by (rule index_inv_erase_peer)
        moreover have "length (peers ?t) + 2 \<le> n" using length_erase_first [OF first] 3(3) Suc.prems(3) by simp
        moreover have "cid_sn ?conn \<longrightarrow> length (cid_pk ?conn) = 32" using len by simp
        ultimately obtain r s' where "send_loop n now zmq_connect (\<lambda>k. zmq_send (Suc k)) a ?conn ?t = Inr (r, s')"
          using Suc.IH by blast
        then show ?thesis using 3(1) parts again forget by (auto simp: Let_def)
      qed
    qed auto
  qed
qed simp

text \<open>
  C16: the loop of \<open>proxy_send\<close> ends when neither only incoming nor only outgoing connections may
  be used, however zmq answers: after at most two rounds more than there are peers it has sent
  the message or given up, and no step of it is undefined.
\<close>

theorem send_terminates:
  assumes "index_inv s" "\<not> sa_incoming a" "\<not> sa_outgoing a" "cid_sn conn \<longrightarrow> length (cid_pk conn) = 32"
    and "\<forall>route. \<exists>parts. build_send_parts (sa_send a) route = Inr parts" "length (peers s) + 2 \<le> fuel"
  shows "\<exists>r s'. send_loop fuel now zmq_connect zmq_send a conn s = Inr (r, s')"
  by (rule send_loop_ends [OF assms(2,3,5,1,4,6)])

section \<open>It runs forever\<close>

lemma erase_route_hangs:
  assumes "find (\<lambda>kp. cid_eq (fst kp) conn) (peers s) = Some kp" "p_route (snd kp) \<noteq> cid_route conn"
  shows "erase_route n conn s = Inl Out_of_fuel"
  using assms by (induction n) simp_all

text \<open>
  C40: the loop that forgets a connection which is gone does not advance. When only incoming
  connections to a service node are asked for, the one that is chosen is gone, and another
  connection to that node stands before it, then \<open>proxy_send\<close> does not return, whatever the
  number of rounds.
\<close>

theorem send_hangs:
  assumes "index_inv s" "cid_sn conn" "length (cid_pk conn) = 32"
    and "find (usable_peer (sn_cid (cid_pk conn)) (sa_incoming a) (sa_outgoing a)) (peers s) = Some chosen" "p_route (snd chosen) \<noteq> []"
    and "find (\<lambda>kp. cid_eq (fst kp) (sn_cid (cid_pk conn))) (peers s) = Some first" "p_route (snd first) \<noteq> p_route (snd chosen)"
    and "build_send_parts (sa_send a) (p_route (snd chosen)) = Inr parts" "send_message_parts (zmq_send 0) parts = Send_error EHOSTUNREACH"
  shows "send_loop fuel now zmq_connect zmq_send a conn s = Inl Out_of_fuel"
proof (cases fuel)
  case (Suc n)
  let ?f = "\<lambda>kp. (fst kp, reuse_peer now (sa_keep_alive a) (snd kp))" and ?conn = "conn\<lparr>cid_route := p_route (snd chosen)\<rparr>"
  let ?P = "\<lambda>kp. cid_eq (fst kp) (sn_cid (cid_pk conn))"
  let ?t = "s\<lparr>peers := change_first (usable_peer (sn_cid (cid_pk conn)) (sa_incoming a) (sa_outgoing a)) ?f (peers s)\<rparr>"
  have "chosen \<in> set (peers s)" using assms(4) by (auto simp: find_Some_iff)
  then have "peer_index chosen < length (connections s)" by (rule peer_in_range [OF assms(1)])
  then have target: "send_target now zmq_connect a conn s = Inr (Some (peer_index chosen, p_route (snd chosen)), ?t)"
    using assms(2-4) by (simp add: send_target_def proxy_connect_sn_def conn_of_pubkey_def)
  have eq: "?P = (\<lambda>kp. cid_eq (fst kp) ?conn)" using assms(2) by (auto simp: fun_eq_iff cid_eq_def cid_sn_def)
  have "map_option (\<lambda>kp. p_route (snd kp)) (find ?P (peers ?t)) = Some (p_route (snd first))"
    using find_change_first [of ?P ?f "\<lambda>kp. p_route (snd kp)"] assms(6) by simp
  then obtain kp where kp: "find (\<lambda>kp. cid_eq (fst kp) ?conn) (peers ?t) = Some kp" "p_route (snd kp) = p_route (snd first)"
    unfolding eq by auto
  have "erase_route n ?conn ?t = Inl Out_of_fuel" using kp(1) by (rule erase_route_hangs) (use kp(2) assms(7) in simp)
  then have "forget_unreachable n ?conn ?t = Inl Out_of_fuel"
    using kp(1) assms(2) by (simp add: forget_unreachable_def find_key_def cid_sn_def)
  then show ?thesis using Suc target assms(5,8,9) by (simp add: Let_def)
qed simp

text \<open>A service node that is connected to this one and that this one has connected to.\<close>

definition sample_both_ways :: net where
  "sample_both_ways = (init_net 4 (replicate 32 CHR ''p'') (replicate 32 CHR ''s'') True (\<lambda>_. []))
     \<lparr>connections := [new_socket ROUTER, new_socket DEALER],
      conn_index_to_id := [conn_of_id 1, sn_cid (replicate 32 CHR ''n'')], incoming_conn_index := [(conn_of_id 1, 0)],
      peers := [(sn_cid (replicate 32 CHR ''n''), (new_peer_info 1)\<lparr>p_service_node := True, p_pubkey := replicate 32 CHR ''n''\<rparr>),
                (sn_cid (replicate 32 CHR ''n''), (new_peer_info 0)\<lparr>p_service_node := True, p_pubkey := replicate 32 CHR ''n'', p_route := ''r''\<rparr>)]\<rparr>"

definition sample_send_args :: "bool \<Rightarrow> send_args" where
  "sample_send_args incoming =
     \<lparr>sa_conn = sn_cid (replicate 32 CHR ''n''), sa_hint = [], sa_incoming = incoming, sa_keep_alive = 30000, sa_optional = False,
      sa_outgoing = False, sa_request = None, sa_send = ''3:a.be'', sa_fail = 0, sa_full = 0\<rparr>"

lemma sample_both_ways_inv: "index_inv sample_both_ways"
  by (simp add: sample_both_ways_def index_inv_def out_indices_def peer_ok_def names_def init_net_def new_socket_def new_peer_info_def p_outgoing_def)

lemma sample_send_parts: "build_send_parts ''3:a.be'' route = Inr ((if route \<noteq> [] then [route] else []) @ [''a.b''])"
proof -
  have "send_parts_loop (length ''3:a.be'') ''3:a.be'' = Inr [''a.b'']" by code_simp
  then show ?thesis by (simp add: build_send_parts_def)
qed

theorem send_terminates_witness:
  "\<exists>r s'. send_loop 4 0 (\<lambda>_. None) (\<lambda>_ _ _ _. Send_error EHOSTUNREACH) (sample_send_args False) (sn_cid (replicate 32 CHR ''n'')) sample_both_ways = Inr (r, s')"
  by (rule send_terminates [OF sample_both_ways_inv])
     (simp_all add: sample_send_args_def sample_send_parts sample_both_ways_def)

theorem send_hangs_witness:
  "send_loop 100 0 (\<lambda>_. None) (\<lambda>_ _ _ _. Send_error EHOSTUNREACH) (sample_send_args True) (sn_cid (replicate 32 CHR ''n'')) sample_both_ways = Inl Out_of_fuel"
  by (rule send_hangs [OF sample_both_ways_inv, where chosen = "peers sample_both_ways ! 1" and first = "peers sample_both_ways ! 0" and parts = "[''r'', ''a.b'']"])
     (simp_all add: sample_send_args_def sample_send_parts sample_both_ways_def usable_peer_def new_peer_info_def cid_sn_def cid_eq_def
        send_message_parts_def)

end
