(* ===== verification/Logging.thy ===== *)
theory Logging
  imports Prelude "HOL-Library.Sublist"
begin

text \<open>
  Logging: the levels and their names (\<^verbatim>\<open>src/arqmamq/arqmamq.h\<close>,
  \<^verbatim>\<open>arqmamq.cpp\<close>), which messages reach the logger, and the name of the file they
  carry.
\<close>

datatype LogLevel = Log_fatal | Log_error | Log_warn | Log_info | Log_debug | Log_trace

fun log_rank :: "LogLevel \<Rightarrow> nat" where
  "log_rank Log_fatal = 0" | "log_rank Log_error = 1" | "log_rank Log_warn = 2"
| "log_rank Log_info = 3" | "log_rank Log_debug = 4" | "log_rank Log_trace = 5"

lemma log_rank_inject [simp]: "log_rank a = log_rank b \<longleftrightarrow> a = b"
  by (cases a; cases b) simp_all

instantiation LogLevel :: linorder
begin

definition less_eq_LogLevel :: "LogLevel \<Rightarrow> LogLevel \<Rightarrow> bool" where
  "a \<le> b \<longleftrightarrow> log_rank a \<le> log_rank b"

definition less_LogLevel :: "LogLevel \<Rightarrow> LogLevel \<Rightarrow> bool" where
  "a < b \<longleftrightarrow> log_rank a < log_rank b"

instance
  by standard (auto simp: less_eq_LogLevel_def less_LogLevel_def)

end

definition log_name :: "LogLevel \<Rightarrow> bytes" where
  "log_name lvl =
     (if lvl = Log_trace then ''trace'' else if lvl = Log_debug then ''debug'' else if lvl = Log_info then ''info''
      else if lvl = Log_warn then ''warn'' else if lvl = Log_error then ''ERROR'' else if lvl = Log_fatal then ''FATAL''
      else ''unknown'')"

text \<open>\<^verbatim>\<open>std::string_view::rfind\<close> of a string: the last position it begins at.\<close>

fun rfind_from :: "bytes \<Rightarrow> bytes \<Rightarrow> nat \<Rightarrow> nat option" where
  "rfind_from p s 0 = (if take (length p) s = p then Some 0 else None)"
| "rfind_from p s (Suc n) = (if take (length p) (drop (Suc n) s) = p then Some (Suc n) else rfind_from p s n)"

definition rfind :: "bytes \<Rightarrow> bytes \<Rightarrow> nat option" where
  "rfind p s = (if length p \<le> length s then rfind_from p s (length s - length p) else None)"

definition LOG_PREFIX :: bytes where "LOG_PREFIX = ''arqmamq/''"

definition trim_log_filenames :: "bytes \<Rightarrow> bytes" where
  "trim_log_filenames local_file =
     (case rfind LOG_PREFIX local_file of None \<Rightarrow> local_file | Some chop \<Rightarrow> drop chop local_file)"

text \<open>\<open>log\<close>: what the logger is called with, if it is.\<close>

definition log_call :: "LogLevel \<Rightarrow> LogLevel \<Rightarrow> bytes \<Rightarrow> int \<Rightarrow> bytes list \<Rightarrow> (LogLevel \<times> bytes \<times> int \<times> bytes) option" where
  "log_call log_level lvl file line stuff =
     (if log_level < lvl then None else Some (lvl, trim_log_filenames file, line, concat stuff))"

lemma rfind_from_last:
  "rfind_from p s n = None \<longleftrightarrow> (\<forall>i\<le>n. take (length p) (drop i s) \<noteq> p)"
  "rfind_from p s n = Some i \<longleftrightarrow> i \<le> n \<and> take (length p) (drop i s) = p \<and> (\<forall>j. i < j \<longrightarrow> j \<le> n \<longrightarrow> take (length p) (drop j s) \<noteq> p)"
proof -
  show none: "rfind_from p s n = None \<longleftrightarrow> (\<forall>i\<le>n. take (length p) (drop i s) \<noteq> p)" for n by (induction n) (auto simp: le_Suc_eq)
  show "rfind_from p s n = Some i \<longleftrightarrow> i \<le> n \<and> take (length p) (drop i s) = p \<and> (\<forall>j. i < j \<longrightarrow> j \<le> n \<longrightarrow> take (length p) (drop j s) \<noteq> p)"
  proof (induction n)
    case (Suc n)
    show ?case
    proof (cases "take (length p) (drop (Suc n) s) = p")
      case True
      then show ?thesis by (auto simp: le_Suc_eq less_Suc_eq_le intro: le_imp_less_Suc)
    next
      case False
      then show ?thesis using Suc by (auto simp: le_Suc_eq)
    qed
  qed auto
qed

text \<open>The name that is logged begins at the last directory \<open>arqmamq\<close> of the path, where there is one.\<close>

lemma trim_log_filenames_suffix:
  "suffix (trim_log_filenames f) f
   \<and> (sublist LOG_PREFIX f \<longrightarrow> prefix LOG_PREFIX (trim_log_filenames f) \<and> \<not> sublist LOG_PREFIX (tl (trim_log_filenames f)))"
proof (cases "rfind LOG_PREFIX f")
  case None
  have "\<not> sublist LOG_PREFIX f"
  proof
    assume "sublist LOG_PREFIX f"
    then obtain xs ys where f: "f = xs @ LOG_PREFIX @ ys" by (auto simp: sublist_def)
    have "length xs \<le> length f - length LOG_PREFIX" "take (length LOG_PREFIX) (drop (length xs) f) = LOG_PREFIX" by (simp_all add: f)
    moreover have "length LOG_PREFIX \<le> length f" by (simp add: f)
    ultimately show False using None by (simp add: rfind_def rfind_from_last(1) del: length_append)
  qed
  with None show ?thesis by (simp add: trim_log_filenames_def)
next
  case (Some i)
  let ?n = "length f - length LOG_PREFIX"
  have i: "length LOG_PREFIX \<le> length f" "i \<le> ?n" "take (length LOG_PREFIX) (drop i f) = LOG_PREFIX"
      "\<And>j. i < j \<Longrightarrow> j \<le> ?n \<Longrightarrow> take (length LOG_PREFIX) (drop j f) \<noteq> LOG_PREFIX"
    using Some by (auto simp: rfind_def rfind_from_last split: if_splits)
  have "\<not> sublist LOG_PREFIX (tl (drop i f))"
  proof
    assume "sublist LOG_PREFIX (tl (drop i f))"
    then obtain xs ys where tl: "tl (drop i f) = xs @ LOG_PREFIX @ ys" by (auto simp: sublist_def)
    let ?j = "Suc i + length xs"
    have dr: "drop (Suc i) f = xs @ LOG_PREFIX @ ys" using tl by (simp add: drop_Suc tl_drop)
    then have "drop ?j f = LOG_PREFIX @ ys" by (metis add.commute append_eq_conv_conj drop_drop)
    moreover have "length f - Suc i = length xs + length LOG_PREFIX + length ys" using arg_cong [OF dr, of length] by simp
    then have "?j \<le> ?n" using i(1,2) by (simp add: LOG_PREFIX_def)
    ultimately show False using i(4) [of ?j] by simp
  qed
  moreover have "prefix LOG_PREFIX (drop i f)" using i(3) by (metis take_is_prefix)
  ultimately show ?thesis using Some by (simp add: trim_log_filenames_def suffix_drop)
qed

end
