(* ===== verification/Variant_Compat.thy ===== *)
theory Variant_Compat
  imports Prelude
begin

text \<open>
  \<^verbatim>\<open>src/arqmamq/variant.h\<close>: the replacements of \<^verbatim>\<open>std::get\<close> and
  \<^verbatim>\<open>std::visit\<close> for old versions of macOS; elsewhere the standard ones are used. A variant
  is the number of the alternative it holds with the value, or valueless.
\<close>

type_synonym 'v variant = "(nat \<times> 'v) option"

text \<open>\<open>get\<close> by the number of an alternative, and by a type, which names one alternative.\<close>

definition variant_get :: "nat \<Rightarrow> 'v variant \<Rightarrow> 'v result" where
  "variant_get i var = (case var of Some (j, v) \<Rightarrow> if i = j then Inr v else Inl Runtime_error | None \<Rightarrow> Inl Runtime_error)"

definition variant_get_type :: "'t \<Rightarrow> 't list \<Rightarrow> 'v variant \<Rightarrow> 'v result" where
  "variant_get_type t types var =
     (case var of Some (j, v) \<Rightarrow> if j < length types \<and> types ! j = t then Inr v else Inl Runtime_error | None \<Rightarrow> Inl Runtime_error)"

text \<open>\<open>visit_helper\<close> tries the alternatives in turn; \<open>visit\<close> starts it with all of them.\<close>

fun visit_helper :: "nat list \<Rightarrow> (nat \<Rightarrow> 'v \<Rightarrow> 'r result) \<Rightarrow> 'v variant \<Rightarrow> 'r result" where
  "visit_helper [] vis var = Inl Runtime_error"
| "visit_helper (i # more) vis var =
     (if map_option fst var = Some i then bind_result (variant_get i var) (vis i)
      else visit_helper more vis var)"

definition visit :: "nat \<Rightarrow> (nat \<Rightarrow> 'v \<Rightarrow> 'r result) \<Rightarrow> 'v variant \<Rightarrow> 'r result" where
  "visit n vis var = visit_helper [0..<n] vis var"

lemma visit_helper_eq:
  "visit_helper is vis var = (case var of Some (j, v) \<Rightarrow> if j \<in> set is then vis j v else Inl Runtime_error | None \<Rightarrow> Inl Runtime_error)"
  by (induction "is") (auto simp: variant_get_def split: option.splits)

text \<open>As \<^verbatim>\<open>std::visit\<close>: the visitor is called with the value that is held; a valueless variant is an error.\<close>

lemma visit_value: "j < n \<Longrightarrow> visit n vis (Some (j, v)) = vis j v"
  by (simp add: visit_def visit_helper_eq)

lemma visit_valueless: "visit n vis None = Inl Runtime_error"
  by (simp add: visit_def visit_helper_eq)

text \<open>The two forms of \<open>get\<close> agree when the type occurs once.\<close>

lemma variant_get_type_eq:
  assumes "distinct types" "i < length types" "map_option fst var \<noteq> None \<longrightarrow> fst (the var) < length types"
  shows "variant_get_type (types ! i) types var = variant_get i var"
  using assms by (auto simp: variant_get_type_def variant_get_def nth_eq_iff_index_eq split: option.splits)

end
