(* ===== verification/Spec2Isabelle.thy ===== *)
theory Spec2Isabelle
  imports Round_Trips Worker Reachable Send_Loop Logging Variant_Compat
begin

text \<open>
  A verification library for ArqMaMQ, the message queue of the Arqma network
  (\<^verbatim>\<open>src/arqmamq\<close>): a C++ library on top of zmq for commands, requests with replies and
  jobs among authenticated nodes.

  \<^bold>\<open>The program.\<close> An \<open>ArqmaMQ\<close> object is configured (listeners, command categories, commands,
  thread counts, tagged threads, timers) and started. From then on one proxy thread owns all
  sockets and all state. The other threads of the program reach it by control messages, whose
  arguments are bt-encoded dictionaries or addresses of heap objects. The proxy hands commands,
  replies, batch jobs and injected tasks to a pool of worker threads, which report \<open>RAN\<close>.
  Connections are authenticated by ZAP requests that zmq makes to the proxy; a command is run
  only when the category it belongs to admits the peer. Requests carry a random tag under
  which the requesting side keeps the callback until the \<open>REPLY\<close> or a timeout.

  \<^bold>\<open>Conventions.\<close> A \<^verbatim>\<open>std::string\<close> is \<open>bytes\<close>, a list of characters. Every operation
  that can throw has a \<open>result\<close>, \<open>Inl\<close> of an \<open>error\<close> or \<open>Inr\<close> of a value; undefined behaviour
  is the error \<open>Undefined_behaviour\<close>. Objects and functions that the code handles by address
  or only calls are numbers, 0 being null or empty; \<open>objects\<close> and \<open>batch_heap\<close> are the heap.
  Integers are \<open>int\<close> with the ranges of their C++ types written out, and \<open>64 word\<close> where they
  wrap around. The clock, what zmq answers to a call, libsodium, \<^verbatim>\<open>chown\<close> and what has
  arrived on sockets are arguments; no theorem assumes more of them than its premises say.

  \<^bold>\<open>Encodings.\<close>
  \<^item> \<open>Prelude\<close>, \<open>Decimal\<close>: results, bytes, printing and reading of decimal numbers, the lemma
    collections.
  \<^item> \<open>Bit_Codec\<close>, \<open>Hex\<close>, \<open>Base32z\<close>, \<open>Base64\<close>: \<^verbatim>\<open>hex.h\<close>,
    \<^verbatim>\<open>base32z.h\<close>, \<^verbatim>\<open>base64.h\<close>. The shift registers of the three encoders
    implement one specification on bit strings; the locale \<open>text_codec\<close> derives their round
    trips, and the three codecs interpret it.
  \<^item> \<open>Bt_Value\<close>, \<open>Bt_Deserialize\<close>, \<open>Bt_Consumer\<close>: \<^verbatim>\<open>bt_value.h\<close>,
    \<^verbatim>\<open>bt_serialize.h\<close>, \<^verbatim>\<open>bt_serialize.cpp\<close>. Writers and readers of
    integers, strings, lists, dictionaries, tuples and the generic value, and the two consumers.
  \<^item> \<open>Bt_Contracts\<close>, \<open>Bt_Cursor\<close>, \<open>Bt_Format\<close>: the locales \<open>bt_reader\<close> and \<open>bt_codec\<close> (a reader
    consumes a prefix, a codec reads back what it wrote; lists and dictionaries of codecs are
    codecs), \<open>dict_cursor\<close> (\<open>skip_until\<close> as a cursor over the entries), their
    interpretations, and the properties: round trips, injectivity, order of keys, ranges,
    totality, skipping equals reading, and departures from the documentation.
  \<^item> \<open>Address\<close>: \<^verbatim>\<open>address.h\<close>, \<^verbatim>\<open>address.cpp\<close>. Parsing and printing in
    every encoding of keys, the QR form, well-formedness of what is parsed, equality.

  \<^bold>\<open>Identity and configuration.\<close>
  \<^item> \<open>Auth\<close>: \<^verbatim>\<open>auth.h\<close> and the metadata of messages. \<open>Connection_Id\<close>:
    \<^verbatim>\<open>connections.h\<close>, whose comparisons and hash are shown to agree.
  \<^item> \<open>Command_Table\<close>: categories, commands, aliases and \<open>get_command\<close> of
    \<^verbatim>\<open>arqmamq.cpp\<close>; a registered command is found.
  \<^item> \<open>Startup\<close>: the constructor, \<open>listen_curve\<close>, \<open>listen_plain\<close>, \<open>start\<close> and \<open>proxy_loop\<close> up to
    its loop.

  \<^bold>\<open>Scheduling.\<close>
  \<^item> \<open>Batch\<close>: \<^verbatim>\<open>batch.h\<close>. The end of a batch is reported once.
  \<^item> \<open>Scheduler\<close>: the record \<open>sched\<close> and the handlers of \<^verbatim>\<open>worker.cpp\<close>,
    \<^verbatim>\<open>jobs.cpp\<close> and \<open>proxy_process_queue\<close>: queues, idle workers, messages of workers,
    tagged threads, timers.
  \<^item> \<open>Worker_Pool\<close>: the locale \<open>thread_pool\<close>, an abstract pool with general and reserved places,
    interpreted on the scheduler. \<open>Batch_Lifecycle\<close>: where every job of a batch is until the
    batch is freed. \<open>Scheduler_Steps\<close>: the step relation \<open>sched_step\<close>, its invariants, and that
    no freed batch is used, none is leaked, the limits of workers and queues hold, and no work
    waits that could run.
  \<^item> \<open>Worker\<close>: \<open>worker_thread\<close>, \<^verbatim>\<open>message.h\<close> and what a callback is given.

  \<^bold>\<open>Network.\<close>
  \<^item> \<open>Net_State\<close>: the record \<open>net\<close>, which contains a \<open>sched\<close>, socket options and the sending of
    parts. \<open>Conn_Index\<close>: closing a connection shifts the indices in four containers; the locale
    \<open>indexed\<close> has one interpretation for each.
  \<^item> \<open>Connections\<close>, \<open>Service_Nodes\<close>, \<open>Zap\<close>, \<open>Dispatch\<close>: the handlers of
    \<^verbatim>\<open>connections.cpp\<close>, \<^verbatim>\<open>auth.cpp\<close>, \<open>proxy_handle_builtin\<close> and
    \<open>proxy_to_worker\<close>. What the periodic clean-up closes, what a change of the active nodes
    does, which connections and commands are accepted, and that a reply ends its request once.
  \<^item> \<open>Client\<close>, \<open>Control\<close>, \<open>Round_Trips\<close>: the calls of \<^verbatim>\<open>arqmamq.h\<close>, the handlers
    of control messages, and that the latter read what the former wrote.
  \<^item> \<open>Send_Loop\<close>: when the retry loop of \<open>proxy_send\<close> ends, and when it does not.

  \<^bold>\<open>The whole.\<close>
  \<^item> \<open>Net_Invariant\<close>: every handler keeps \<open>net_inv\<close> and acts on the scheduler by its steps.
    \<open>Proxy\<close>: the main loop, its fair order, shutdown, the destructor.
    \<open>Reachable\<close>: configuration, start and all later steps; the invariants hold in every state,
    and the proxy serves all that the network delivers there.
  \<^item> This theory: a request is answered, from the message that arrives to the callback.
  \<^item> \<open>Logging\<close>, \<open>Variant_Compat\<close>: \<open>log\<close> and \<^verbatim>\<open>variant.h\<close>, on which nothing else depends.

  \<^bold>\<open>Bounds.\<close> The recursive readers of bt values have a bound on their depth, the length of the
  input plus one; it is never the reason of a failure (\<open>bt_get_total\<close>, \<open>skip_value_defined\<close>).
  The loops of \<open>proxy_send\<close> have the bound \<open>ev_fuel\<close>: two more rounds than there are peers suffice
  in the case of \<open>send_terminates\<close>, and none does in that of \<open>send_hangs\<close>. The loop over control
  messages of a round is bounded since other threads may send without end. The other loops are
  structural or have a measure; a proxy that still waits for its tagged threads, which
  happens only when one of them has not announced itself, is \<open>Out_of_fuel\<close> as well.

  \<^bold>\<open>Restrictions of the step relations.\<close> The steps of \<open>Reachable\<close> take only messages with a
  non-empty routing id from listeners, as zmq provides them, control messages \<open>BATCH\<close> for a batch that
  the proxy does not have yet, and \<open>INJECT\<close> for an existing category (\<open>control_ok\<close>). They end
  where the proxy is told to quit; \<open>quit_exceeds_capacity\<close> says what may happen after that.

  \<^bold>\<open>Not modelled.\<close> zmq, libsodium and the C++ runtime are the environment. Left out are the
  names of threads, the umask while listeners are bound, the socket limit of the zmq context
  (settings of the operating system or of zmq without influence on the state), the text of
  exceptions and log lines, the traits of templates (\<^verbatim>\<open>byte_type.h\<close> and those of
  \<^verbatim>\<open>bt_serialize.h\<close>) that only select an overload, the move and copy constructors that the
  compiler generates, and \<^verbatim>\<open>version.h.in\<close>, which the build fills in. Threads interleave at
  the messages between them: the proxy owns its state, a worker reads its \<open>run_info\<close> only
  between \<open>RUN\<close> and \<open>RAN\<close>, and data races within a callback of the user are outside.
\<close>

section \<open>Requests across the network\<close>

lemma fold_parts: "sp_parts (fold spec_option (map SendPart ys) a) = sp_parts a @ ys"
  by (induction ys arbitrary: a) simp_all

text \<open>What is sent by \<open>send_reply\<close>.\<close>

lemma send_reply_arrives:
  assumes "\<not> proxy_shutting_down r" "fresh_ptr (objects r) + length ys + 3 < 2 ^ 64" "list_all size_ok (tag # ys)"
    and "id_ok conn" "size_ok (cid_pk conn)" "size_ok (cid_route conn)"
  shows "\<exists>sp. arrives_as r (send_reply conn tag (map SendPart ys) r) conn None sp \<and> sp_parts sp = [''REPLY'', tag] @ ys"
proof (intro exI conjI)
  let ?opts = "SendPart tag # SendOptional (\<not> cid_sn conn) # map SendPart ys"
  show "arrives_as r (send_reply conn tag (map SendPart ys) r) conn None (fold spec_option ?opts (new_sending ''REPLY''))"
    unfolding send_reply_def using assms by (intro send_arrives) (auto simp: size_ok_def list_all_iff)
  show "sp_parts (fold spec_option ?opts (new_sending ''REPLY'')) = [''REPLY'', tag] @ ys"
    by (simp add: fold_parts new_sending_def)
qed

text \<open>What the function of a request command is given.\<close>

lemma request_call:
  assumes "pc_callback p = PendingCommand (cb, True)" "pc_data_parts p = tag # ds"
  shows "\<exists>m'. worker_call (load_pending p run) m = Inr (Call_command cb m', m') \<and> msg_data m' = ds \<and> msg_conn m' = pc_conn p
    \<and> msg_reply_tag m' = tag"
  using worker_call_command [OF assms(1), of run m] assms(2) by (auto simp: command_message_def)

text \<open>
  C2: a request and its reply, from one end to the other. Let \<open>parts\<close> be the message of a request
  for a command of this node whose category the sender may use: the route, the name of the
  command, the tag, and the data. Then a worker that runs it calls the command's function with
  that data. What the function replies becomes a message for the connection of the sender that
  consists of \<open>REPLY\<close>, the tag the sender has chosen, and the parts of the reply. And when that
  message reaches the sender \<open>q\<close>, the callback of that request and no other is given exactly
  those parts, once.
\<close>

theorem request_answered:
  assumes "index_inv s" "sn_peers_ok s" "names ROUTER (connections s) i" "3 \<le> length parts" "extract_metadata (last parts) = (key, level)"
    and "get_command (n_sched s) (m_data (parts ! 1)) = (command, Some (cat, c, cb, True))" "permitted s level (sn_key s key) c"
    and "\<not> proxy_shutting_down r" "fresh_ptr (objects r) + length ys + 3 < 2 ^ 64" "id_ok (conn_index_to_id s ! i)"
    and "list_all size_ok (m_data (parts ! 0) # m_data (parts ! 2) # key # ys)"
    and "requests_ok q" "j < length (connections q)" "so_type (connections q ! j) = DEALER"
    and "map_of (pending_requests q) (m_data (parts ! 2)) = Some (expiry, callback)"
  shows "(\<exists>s' p. proxy_to_worker now zmq_send i parts s = Inr s' \<and> n_sched s' = run_or_queue p (n_sched s)
      \<and> (\<forall>run m. \<exists>m'. worker_call (load_pending p run) m = Inr (Call_command cb m', m') \<and> msg_data m' = map m_data (drop 3 parts)
          \<and> incoming_conn s i key (m_data (parts ! 0)) (msg_conn m')
          \<and> (\<exists>sp. arrives_as r (send_reply (msg_conn m') (msg_reply_tag m') (map SendPart ys) r) (msg_conn m') None sp
                \<and> sp_parts sp = [''REPLY'', m_data (parts ! 2)] @ ys)))
    \<and> (\<exists>q'. proxy_handle_builtin zmq_send j ([''REPLY'', m_data (parts ! 2)] @ ys) q = Inr (True, q')
        \<and> n_sched q' = proxy_schedule_reply_job (ReplyFn callback True ys) (n_sched q)
        \<and> pending_requests q' = filter (\<lambda>r. fst r \<noteq> m_data (parts ! 2)) (pending_requests q))"
proof (rule conjI)
  let ?tag = "m_data (parts ! 2)"
  have "2 \<le> length parts" using assms(4) by simp
  from incoming_dispatch [OF assms(1-3) this assms(5), of now zmq_send] obtain s' conn where
    s': "proxy_to_worker now zmq_send i parts s = Inr s'" "incoming_conn s i key (m_data (parts ! 0)) conn"
      "n_sched s' = run_or_queue (incoming_pending s level conn parts command cat (cb, True)) (n_sched s)"
    using assms(4,6,7) by auto
  let ?p = "incoming_pending s level conn parts command cat (cb, True)"
  have data: "pc_data_parts ?p = ?tag # map m_data (drop 3 parts)"
    using assms(4) by (simp add: incoming_pending_def Cons_nth_drop_Suc [symmetric] numeral_eq_Suc)
  have conn: "id_ok conn" "size_ok (cid_pk conn)" "size_ok (cid_route conn)"
    using s'(2) assms(10,11) by (auto simp: incoming_conn_def id_ok_def SN_ID_def size_ok_def split: if_splits)
  have reply: "\<exists>sp. arrives_as r (send_reply conn ?tag (map SendPart ys) r) conn None sp \<and> sp_parts sp = [''REPLY'', ?tag] @ ys"
    using assms(8,9,11) conn by (intro send_reply_arrives) simp_all
  have "\<exists>m'. worker_call (load_pending ?p run) m = Inr (Call_command cb m', m') \<and> msg_data m' = map m_data (drop 3 parts)
      \<and> incoming_conn s i key (m_data (parts ! 0)) (msg_conn m')
      \<and> (\<exists>sp. arrives_as r (send_reply (msg_conn m') (msg_reply_tag m') (map SendPart ys) r) (msg_conn m') None sp
            \<and> sp_parts sp = [''REPLY'', ?tag] @ ys)" for run m
  proof -
    have "pc_callback ?p = PendingCommand (cb, True)" "pc_conn ?p = conn" by (simp_all add: incoming_pending_def)
    with request_call [OF this(1) data, of run m] show ?thesis using reply s'(2) by fastforce
  qed
  then show "\<exists>s' p. proxy_to_worker now zmq_send i parts s = Inr s' \<and> n_sched s' = run_or_queue p (n_sched s)
      \<and> (\<forall>run m. \<exists>m'. worker_call (load_pending p run) m = Inr (Call_command cb m', m') \<and> msg_data m' = map m_data (drop 3 parts)
          \<and> incoming_conn s i key (m_data (parts ! 0)) (msg_conn m')
          \<and> (\<exists>sp. arrives_as r (send_reply (msg_conn m') (msg_reply_tag m') (map SendPart ys) r) (msg_conn m') None sp
                \<and> sp_parts sp = [''REPLY'', ?tag] @ ys))"
    using s'(1,3) by blast
next
  show "\<exists>q'. proxy_handle_builtin zmq_send j ([''REPLY'', m_data (parts ! 2)] @ ys) q = Inr (True, q')
        \<and> n_sched q' = proxy_schedule_reply_job (ReplyFn callback True ys) (n_sched q)
        \<and> pending_requests q' = filter (\<lambda>r. fst r \<noteq> m_data (parts ! 2)) (pending_requests q)"
    using assms(12-15) by (simp add: proxy_handle_builtin_def Let_def finish_request_def erase_first_key requests_ok_def)
qed

theorem request_answered_witness:
  "(\<exists>s' p. proxy_to_worker 0 (\<lambda>_ _ _. Sent) 0
        [sample_message\<lparr>m_data := ''r''\<rparr>, sample_message\<lparr>m_data := ''a.c''\<rparr>, sample_message\<lparr>m_data := ''tag2''\<rparr>, sample_message] sample_incoming = Inr s'
      \<and> n_sched s' = run_or_queue p (n_sched sample_incoming)
      \<and> (\<forall>run m. \<exists>m'. worker_call (load_pending p run) m = Inr (Call_command 7 m', m') \<and> msg_data m' = [''x'']))
    \<and> (\<exists>q'. proxy_handle_builtin (\<lambda>_ _ _. Sent) 0 [''REPLY'', ''tag2'', ''y''] sample_outgoing = Inr (True, q')
        \<and> n_sched q' = proxy_schedule_reply_job (ReplyFn 4 True [''y'']) (n_sched sample_outgoing)
        \<and> pending_requests q' = [(''tag1'', 5000, 3)])"
proof -
  let ?parts = "[sample_message\<lparr>m_data := ''r''\<rparr>, sample_message\<lparr>m_data := ''a.c''\<rparr>, sample_message\<lparr>m_data := ''tag2''\<rparr>, sample_message]"
  let ?c = "the (map_of (categories (n_sched sample_incoming)) ''a'')"
  have meta: "extract_metadata (last ?parts) = (replicate 32 CHR ''n'', AuthLevel_admin)"
    using accepted_identity [OF sample_zap(1)] sample_zap(2-5) by simp
  have command: "get_command (n_sched sample_incoming) (m_data (?parts ! 1)) = (''a.c'', Some (''a'', ?c, 7, True))"
  proof -
    have "get_command (n_sched sample_incoming) ''a.c'' = (''a.c'', Some (''a'', ?c, 7, True))" by code_simp
    then show ?thesis by simp
  qed
  have allowed: "permitted sample_incoming AuthLevel_admin (sn_key sample_incoming (replicate 32 CHR ''n'')) ?c"
    by (simp add: permitted_def sample_incoming_def new_category_def default_Access_def auth_order auth_levels)
  have reply: "\<not> proxy_shutting_down sample_incoming" "fresh_ptr (objects sample_incoming) + length [''y''] + 3 < 2 ^ 64"
      "id_ok (conn_index_to_id sample_incoming ! 0)"
    by (simp_all add: sample_incoming_def sample_listener_def init_net_def fresh_ptr_def id_ok_def conn_of_id_def)
  have sizes: "list_all size_ok (m_data (?parts ! 0) # m_data (?parts ! 2) # replicate 32 CHR ''n'' # [''y''])" by (simp add: size_ok_def)
  have pending: "requests_ok sample_outgoing" "0 < length (connections sample_outgoing)" "so_type (connections sample_outgoing ! 0) = DEALER"
      "map_of (pending_requests sample_outgoing) (m_data (?parts ! 2)) = Some (900000, 4)"
    by (simp_all add: sample_outgoing_def requests_ok_def new_socket_def)
  have three: "3 \<le> length ?parts" by simp
  note all = request_answered [OF sample_incoming_ok three meta command allowed reply sizes pending, of 0 "\<lambda>_ _ _. Sent"]
  show ?thesis
  proof (rule conjI)
    from conjunct1 [OF all] show "\<exists>s' p. proxy_to_worker 0 (\<lambda>_ _ _. Sent) 0 ?parts sample_incoming = Inr s'
        \<and> n_sched s' = run_or_queue p (n_sched sample_incoming)
        \<and> (\<forall>run m. \<exists>m'. worker_call (load_pending p run) m = Inr (Call_command 7 m', m') \<and> msg_data m' = [''x''])"
      by (elim ex_forward conj_forward all_forward) (simp_all add: sample_message_def)
    from conjunct2 [OF all] show "\<exists>q'. proxy_handle_builtin (\<lambda>_ _ _. Sent) 0 [''REPLY'', ''tag2'', ''y''] sample_outgoing = Inr (True, q')
        \<and> n_sched q' = proxy_schedule_reply_job (ReplyFn 4 True [''y'']) (n_sched sample_outgoing)
        \<and> pending_requests q' = [(''tag1'', 5000, 3)]"
      by (simp add: sample_outgoing_view(2))
  qed
qed

end
